(* ===== verification/Prelude.thy ===== *)
theory Prelude
  imports Main "HOL-Library.Word"
begin

text \<open>
  Shared vocabulary of the development: the machine integer types of the C++
  sources, powers of two and bit masks on 64-bit words, circular slot indices,
  and cursors that count past the width of the word that stores them.
\<close>

unbundle bit_operations_syntax

section \<open>Machine integers\<close>

text \<open>\<^verbatim>\<open>uint64_t\<close> and \<^verbatim>\<open>size_t\<close> are 64-bit words on every target the sources build for.\<close>

type_synonym u64 = "64 word"
type_synonym u32 = "32 word"
type_synonym u16 = "16 word"
type_synonym u8 = "8 word"

named_theorems cursor_simps \<open>arithmetic of 64-bit cursors that stand for natural numbers\<close>
named_theorems slot_simps \<open>slot selection by mask and by remainder\<close>

section \<open>Cursors\<close>

text \<open>
  A cursor is a word \<^term>\<open>of_nat n :: u64\<close> for the number \<^term>\<open>n::nat\<close> of records it has
  passed. Differences of two cursors are exact as long as the true distance
  fits in 64 bits, even after the words themselves have wrapped around.
\<close>

lemma unat_of_nat64 [cursor_simps]: "n < 2 ^ 64 \<Longrightarrow> unat (of_nat n :: u64) = n"
  by (simp add: unat_of_nat take_bit_nat_eq_self)

lemma cursor_diff [cursor_simps]:
  "t \<le> h \<Longrightarrow> h - t < 2 ^ 64 \<Longrightarrow> unat (of_nat h - of_nat t :: u64) = h - t"
  by (simp add: unat_of_nat64 flip: of_nat_diff)

lemma cursor_succ [cursor_simps]: "of_nat n + 1 = (of_nat (Suc n) :: u64)"
  by simp

lemma cursor_eq_near:
  assumes "t \<le> h" and "h - t < 2 ^ 64"
  shows "(of_nat t :: u64) = of_nat h \<longleftrightarrow> t = h"
proof
  assume "(of_nat t :: u64) = of_nat h"
  then have "unat (of_nat h - of_nat t :: u64) = 0" by simp
  with assms show "t = h" by (simp add: cursor_diff)
qed simp

lemma cursor_less [cursor_simps]:
  "m < 2 ^ 64 \<Longrightarrow> n < 2 ^ 64 \<Longrightarrow> (of_nat m :: u64) < of_nat n \<longleftrightarrow> m < n"
  by (simp add: word_less_nat_alt unat_of_nat64)

lemma cursor_le [cursor_simps]:
  "m < 2 ^ 64 \<Longrightarrow> n < 2 ^ 64 \<Longrightarrow> (of_nat m :: u64) \<le> of_nat n \<longleftrightarrow> m \<le> n"
  by (simp add: word_le_nat_alt unat_of_nat64)

lemma cursor_eq [cursor_simps]:
  "m < 2 ^ 64 \<Longrightarrow> n < 2 ^ 64 \<Longrightarrow> (of_nat m :: u64) = of_nat n \<longleftrightarrow> m = n"
  by (metis unat_of_nat64)

lemma cursor_unat: "of_nat (unat w) = (w :: u64)"
  by simp

section \<open>Powers of two\<close>

lemma top_bit: "2 ^ t \<le> n \<Longrightarrow> n < 2 ^ Suc t \<Longrightarrow> bit (n::nat) t"
proof -
  assume "2 ^ t \<le> n" and "n < 2 ^ Suc t"
  then have "n div 2 ^ t = 1"
    by (intro div_nat_eqI) auto
  then show "bit n t" by (simp add: bit_iff_odd)
qed

lemma and_pred_zero_pow2:
  assumes "(n::nat) > 0" and "n AND (n - 1) = 0"
  shows "\<exists>t. n = 2 ^ t"
proof -
  obtain t where t: "2 ^ t \<le> n" "n < 2 ^ (t + 1)"
    using ex_power_ivl1 [of 2 n] assms(1) by auto
  show ?thesis
  proof (rule ccontr)
    assume "\<nexists>t. n = 2 ^ t"
    with t(1) have "2 ^ t < n" by (metis le_neq_implies_less)
    with t have "bit n t" "bit (n - 1) t" by (auto intro!: top_bit)
    then have "bit (n AND (n - 1)) t" by (simp add: bit_and_iff)
    with assms(2) show False by simp
  qed
qed

lemma unat_u64_less: "unat (v :: u64) < 2 ^ 64"
  using unsigned_less [where 'b = 64 and 'a = nat, of v] by simp

lemma unat_sub64: "unat b \<le> unat a \<Longrightarrow> unat (a - b :: u64) = unat a - unat b"
  using cursor_diff [of "unat b" "unat a"] unat_u64_less [of a] by simp

lemma unat_add64: "unat a + unat b < 2 ^ 64 \<Longrightarrow> unat (a + b :: u64) = unat a + unat b"
  using unat_of_nat64 [of "unat a + unat b"] by simp

lemma unat_succ64: "unat a + 1 < 2 ^ 64 \<Longrightarrow> unat (a + 1 :: u64) = Suc (unat a)"
  using unat_add64 [of a 1] by simp

lemma unat_pow2: "k < 64 \<Longrightarrow> unat ((2::u64) ^ k) = 2 ^ k"
  using unat_of_nat64 [of "2 ^ k"] power_strict_increasing [of k 64 "2::nat"] by simp

text \<open>The bit test \<^verbatim>\<open>(v & (v - 1)) == 0\<close> the sources use recognises exactly the powers of two.\<close>

lemma pow2_word_iff:
  "(v::u64) \<noteq> 0 \<and> v AND (v - 1) = 0 \<longleftrightarrow> (\<exists>k<64. v = 2 ^ k)"
proof
  assume v: "v \<noteq> 0 \<and> v AND (v - 1) = 0"
  then have ne: "v \<noteq> 0" by simp
  then have pos: "unat v > 0" by (simp add: unat_gt_0)
  have "unat v AND (unat v - 1) = unat (v AND (v - 1))"
    by (simp only: unsigned_and_eq unat_minus_one [OF ne])
  with v pos obtain k where k: "unat v = 2 ^ k"
    using and_pred_zero_pow2 [of "unat v"] by auto
  have "(2::nat) ^ k < 2 ^ 64" using unat_u64_less [of v] k by simp
  then have "k < 64" by (rule power_less_imp_less_exp [rotated]) simp
  moreover have "v = 2 ^ k" using k \<open>k < 64\<close>
    by (metis cursor_unat of_nat_numeral of_nat_power)
  ultimately show "\<exists>k<64. v = 2 ^ k" by blast
next
  assume "\<exists>k<64. v = 2 ^ k"
  then obtain k where k: "k < 64" "v = 2 ^ k" by blast
  have "v - 1 = mask k" by (simp add: k mask_eq_exp_minus_1)
  then have "v AND (v - 1) = take_bit k v" by (simp add: take_bit_eq_mask)
  moreover have "unat v = 2 ^ k" using k by (simp add: unat_pow2)
  ultimately show "v \<noteq> 0 \<and> v AND (v - 1) = 0"
    using k by (auto intro!: bit_eqI simp: bit_take_bit_iff bit_exp_iff)
qed

lemma pow_less_64: "k < 64 \<Longrightarrow> (2::nat) ^ k < 2 ^ 64"
  by (intro power_strict_increasing) auto

text \<open>The full and empty tests of the rings, read as statements about record numbers.\<close>

lemma cursor_full_test:
  assumes "k < 64" and "t \<le> h" and "h \<le> t + 2 ^ k"
  shows "(2 ^ k :: u64) \<le> of_nat h - of_nat t \<longleftrightarrow> h = t + 2 ^ k"
proof -
  have "unat (of_nat h - of_nat t :: u64) = h - t"
    using assms pow_less_64 [OF assms(1)] by (intro cursor_diff) linarith+
  with assms show ?thesis by (auto simp: word_le_nat_alt unat_pow2)
qed

lemma cursor_empty_test:
  assumes "k < 64" and "t \<le> h" and "h \<le> t + 2 ^ k"
  shows "(of_nat t :: u64) = of_nat h \<longleftrightarrow> t = h"
  using assms pow_less_64 [OF assms(1)] by (intro cursor_eq_near) linarith+

section \<open>Slots\<close>

text \<open>
  Slot selection by \<^verbatim>\<open>cursor & mask\<close> is reduction of the record number modulo
  the capacity: the capacity divides \<^term>\<open>2 ^ 64 :: nat\<close>, so the wrap-around of the
  cursor word does not disturb it.
\<close>

lemma slot_of_cursor [slot_simps]:
  assumes "k < 64"
  shows "unat ((of_nat n :: u64) AND (2 ^ k - 1)) = n mod 2 ^ k"
proof -
  have "(of_nat n :: u64) AND (2 ^ k - 1) = take_bit k (of_nat n)"
    by (simp add: take_bit_eq_mask mask_eq_exp_minus_1)
  also have "unat \<dots> = n mod 2 ^ LENGTH(64) mod 2 ^ k"
    by (simp only: unsigned_take_bit_eq unat_of_nat) (simp only: take_bit_eq_mod)
  also have "\<dots> = n mod 2 ^ k"
    using assms by (intro mod_mod_cancel le_imp_power_dvd) simp
  finally show ?thesis .
qed

lemma slot_of_word: "k < 64 \<Longrightarrow> unat ((a :: u64) AND (2 ^ k - 1)) = unat a mod 2 ^ k"
  using slot_of_cursor [of k "unat a"] by simp

lemma slot_of_sum: "k < 64 \<Longrightarrow> unat ((a + of_nat i :: u64) AND (2 ^ k - 1)) = (unat a + i) mod 2 ^ k"
  using slot_of_cursor [of k "unat a + i"] by simp

lemma mod_neq_within:
  assumes "i < j" and "j < i + (c::nat)"
  shows "i mod c \<noteq> j mod c"
proof
  assume "i mod c = j mod c"
  then have "c dvd (j - i)"
    using assms(1) by (metis less_imp_le mod_eq_dvd_iff_nat)
  then show False
    using assms by (auto dest: dvd_imp_le)
qed

lemma mod_eq_within:
  assumes "i mod c = j mod (c::nat)" and "i < j + c" and "j < i + c"
  shows "i = j"
  using mod_neq_within [of i j c] mod_neq_within [of j i c] assms
  by (cases i j rule: linorder_cases) auto

text \<open>The records with numbers in \<^term>\<open>{t..<h}\<close> as a circular array of capacity \<^term>\<open>c\<close> stores them.\<close>

definition ring_contents :: "nat \<Rightarrow> 'a list \<Rightarrow> nat \<Rightarrow> nat \<Rightarrow> 'a list" where
  "ring_contents c slots t h = map (\<lambda>i. slots ! (i mod c)) [t..<h]"

lemma length_ring_contents [simp]: "length (ring_contents c slots t h) = h - t"
  by (simp add: ring_contents_def)

lemma ring_contents_Nil [simp]: "ring_contents c slots t t = []"
  by (simp add: ring_contents_def)

lemma ring_contents_push:
  assumes "t \<le> h" and "h - t < c" and "length slots = c"
  shows "ring_contents c (slots[h mod c := x]) t (Suc h) = ring_contents c slots t h @ [x]"
proof -
  have "(slots[h mod c := x]) ! (i mod c) = slots ! (i mod c)" if "t \<le> i" "i < h" for i
  proof -
    have "i mod c \<noteq> h mod c" using that assms by (intro mod_neq_within) linarith+
    then show ?thesis by simp
  qed
  moreover have "h mod c < length slots" using assms by simp
  ultimately show ?thesis
    using assms(1) by (simp add: ring_contents_def)
qed

lemma ring_contents_pop:
  "t < h \<Longrightarrow> ring_contents c slots t h = slots ! (t mod c) # ring_contents c slots (Suc t) h"
  by (simp add: ring_contents_def upt_conv_Cons)

section \<open>Lists\<close>

lemma take_Suc_eq_snoc: "n < length xs \<Longrightarrow> take (Suc n) xs = take n xs @ [xs ! n]"
  by (rule take_Suc_conv_app_nth)

end
