(* ===== verification/Fifo_Interface.thy ===== *)
theory Fifo_Interface
  imports Prelude
begin

text \<open>
  The contract every lossless ring of the code base promises to its callers: a
  bounded first-in first-out queue that refuses a push when it is full. The
  batch loops of the callers (\<^verbatim>\<open>record_batch\<close>, \<^verbatim>\<open>animus_spsc_record_events_batch\<close>,
  \<^verbatim>\<open>animus_shm_ring_order_push_batch\<close>, \<^verbatim>\<open>poll_signals\<close>, \<^verbatim>\<open>animus_spsc_drain\<close>, and so on) are
  written once over the two operations and proved once inside the contract.
\<close>

section \<open>Batch loops\<close>

text \<open>Push in order and stop at the first refusal; the result is the number pushed.\<close>

fun push_batch :: "('a \<Rightarrow> 's \<Rightarrow> bool \<times> 's) \<Rightarrow> 'a list \<Rightarrow> 's \<Rightarrow> nat \<times> 's" where
  "push_batch push [] s = (0, s)"
| "push_batch push (x # xs) s =
     (case push x s of
        (False, s') \<Rightarrow> (0, s')
      | (True, s') \<Rightarrow> (case push_batch push xs s' of (n, s'') \<Rightarrow> (Suc n, s'')))"

text \<open>Pop at most \<^term>\<open>n\<close> records and stop at the first empty answer.\<close>

fun pop_batch :: "('s \<Rightarrow> 'a option \<times> 's) \<Rightarrow> nat \<Rightarrow> 's \<Rightarrow> 'a list \<times> 's" where
  "pop_batch pop 0 s = ([], s)"
| "pop_batch pop (Suc n) s =
     (case pop s of
        (None, s') \<Rightarrow> ([], s')
      | (Some x, s') \<Rightarrow> (case pop_batch pop n s' of (xs, s'') \<Rightarrow> (x # xs, s'')))"

section \<open>The contract\<close>

locale bounded_fifo =
  fixes invar :: "'s \<Rightarrow> bool"
    and contents :: "'s \<Rightarrow> 'a list"
    and cap :: "'s \<Rightarrow> nat"
    and push :: "'a \<Rightarrow> 's \<Rightarrow> bool \<times> 's"
    and pop :: "'s \<Rightarrow> 'a option \<times> 's"
  assumes contents_le_cap: "invar s \<Longrightarrow> length (contents s) \<le> cap s"
    and push_refused: "invar s \<Longrightarrow> push x s = (False, s') \<Longrightarrow>
           length (contents s) = cap s \<and> contents s' = contents s \<and> cap s' = cap s \<and> invar s'"
    and push_accepted: "invar s \<Longrightarrow> push x s = (True, s') \<Longrightarrow>
           length (contents s) < cap s \<and> contents s' = contents s @ [x] \<and> cap s' = cap s \<and> invar s'"
    and pop_empty: "invar s \<Longrightarrow> pop s = (None, s') \<Longrightarrow>
           contents s = [] \<and> contents s' = [] \<and> cap s' = cap s \<and> invar s'"
    and pop_some: "invar s \<Longrightarrow> pop s = (Some x, s') \<Longrightarrow>
           contents s = x # contents s' \<and> cap s' = cap s \<and> invar s'"
begin

lemma push_batch_spec:
  assumes "invar s" and "push_batch push xs s = (n, s')"
  shows "n = min (length xs) (cap s - length (contents s)) \<and>
         contents s' = contents s @ take n xs \<and> cap s' = cap s \<and> invar s'"
  using assms
proof (induction xs arbitrary: s n)
  case Nil
  then show ?case by simp
next
  case (Cons x xs)
  obtain b s1 where p: "push x s = (b, s1)" by fastforce
  show ?case
  proof (cases b)
    case False
    then have "n = 0" and "s' = s1" using Cons.prems p by auto
    with push_refused [OF Cons.prems(1)] p False show ?thesis by auto
  next
    case True
    then obtain m where m: "push_batch push xs s1 = (m, s')" "n = Suc m"
      using Cons.prems p by (auto split: prod.splits)
    have s1: "length (contents s) < cap s" "contents s1 = contents s @ [x]" "cap s1 = cap s" "invar s1"
      using push_accepted [OF Cons.prems(1)] p True by auto
    from Cons.IH [OF s1(4) m(1)] s1 m(2) show ?thesis by auto
  qed
qed

lemma pop_batch_spec:
  assumes "invar s" and "pop_batch pop n s = (xs, s')"
  shows "xs = take n (contents s) \<and> contents s' = drop n (contents s) \<and> cap s' = cap s \<and> invar s'"
  using assms
proof (induction n arbitrary: s xs)
  case 0
  then show ?case by simp
next
  case (Suc n)
  obtain r s1 where p: "pop s = (r, s1)" by fastforce
  show ?case
  proof (cases r)
    case None
    with Suc.prems p pop_empty [OF Suc.prems(1)] show ?thesis by auto
  next
    case (Some x)
    then obtain ys where ys: "pop_batch pop n s1 = (ys, s')" "xs = x # ys"
      using Suc.prems p by (auto split: prod.splits)
    have s1: "contents s = x # contents s1" "cap s1 = cap s" "invar s1"
      using pop_some [OF Suc.prems(1)] p Some by auto
    from Suc.IH [OF s1(3) ys(1)] s1 ys(2) show ?thesis by simp
  qed
qed

text \<open>What a batch push followed by a batch pop does to the queue as a whole.\<close>

lemma batch_fifo:
  assumes "invar s" and "push_batch push xs s = (n, s1)" and "pop_batch pop m s1 = (ys, s2)"
  shows "n = min (length xs) (cap s - length (contents s)) \<and>
         ys @ contents s2 = contents s @ take n xs \<and> length ys = min m (length (contents s) + n) \<and>
         cap s2 = cap s \<and> invar s2"
proof -
  have p: "n = min (length xs) (cap s - length (contents s))" "contents s1 = contents s @ take n xs"
      "cap s1 = cap s" "invar s1"
    using push_batch_spec [OF assms(1,2)] by auto
  have q: "ys = take m (contents s1)" "contents s2 = drop m (contents s1)" "cap s2 = cap s1" "invar s2"
    using pop_batch_spec [OF p(4) assms(3)] by auto
  have "ys @ contents s2 = contents s1" unfolding q(1,2) by (rule append_take_drop_id)
  moreover have "length ys = min m (length (contents s1))" unfolding q(1) by simp
  moreover have "length (contents s1) = length (contents s) + n" using p(1,2) by simp
  ultimately have "ys @ contents s2 = contents s @ take n xs" "length ys = min m (length (contents s) + n)"
    using p(2) by metis+
  with p(1,3) q(3,4) show ?thesis by metis
qed

text \<open>A batch that fits is returned whole and in order by the next batch pop.\<close>

lemma batch_round_trip:
  assumes "invar s" and "contents s = []" and "length xs \<le> cap s"
  shows "\<exists>s1 s2. push_batch push xs s = (length xs, s1) \<and>
                 pop_batch pop (length xs) s1 = (xs, s2) \<and> contents s2 = []"
proof -
  obtain n s1 where p: "push_batch push xs s = (n, s1)" by fastforce
  obtain ys s2 where q: "pop_batch pop (length xs) s1 = (ys, s2)" by fastforce
  from push_batch_spec [OF assms(1) p] assms(2,3)
  have s1: "n = length xs" "contents s1 = xs" "invar s1" by auto
  from pop_batch_spec [OF s1(3) q] s1(2) have "ys = xs" "contents s2 = []" by auto
  with p q s1(1) show ?thesis by blast
qed

end

end
