(* ===== verification/Ring_Common.thy ===== *)
theory Ring_Common
  imports Prelude
begin

text \<open>
  What every ring of the code base repeats for itself: the cache line size, the
  checks on capacity and alignment, and \<^verbatim>\<open>round_up_pow2\<close>, the loop that turns a
  requested capacity into a power of two.
\<close>

definition ANIMUS_CACHE_LINE_SIZE :: u64 where
  "ANIMUS_CACHE_LINE_SIZE = 64"

definition is_pow2 :: "u64 \<Rightarrow> bool" where
  "is_pow2 v \<longleftrightarrow> 2 \<le> v \<and> v AND (v - 1) = 0"

definition aligned :: "u64 \<Rightarrow> bool" where
  "aligned p \<longleftrightarrow> p mod ANIMUS_CACHE_LINE_SIZE = 0"

text \<open>The loop \<^verbatim>\<open>while (p < v) p <<= 1\<close>; running forever is the value \<^term>\<open>None\<close>.\<close>

partial_function (option) round_up_loop :: "u64 \<Rightarrow> u64 \<Rightarrow> u64 option" where
  "round_up_loop v p = (if p < v then round_up_loop v (push_bit 1 p) else Some p)"

definition round_up_pow2 :: "u64 \<Rightarrow> u64 option" where
  "round_up_pow2 v = round_up_loop v 1"

lemma is_pow2_iff: "is_pow2 v \<longleftrightarrow> (\<exists>k. 0 < k \<and> k < 64 \<and> v = 2 ^ k)"
proof
  assume p: "is_pow2 v"
  then have "v \<noteq> 0" by (auto simp: is_pow2_def)
  with p obtain k where k: "k < 64" "v = 2 ^ k"
    using pow2_word_iff [of v] by (auto simp: is_pow2_def)
  with p have "0 < k" by (cases k) (auto simp: is_pow2_def word_le_nat_alt)
  with k show "\<exists>k. 0 < k \<and> k < 64 \<and> v = 2 ^ k" by auto
next
  assume "\<exists>k. 0 < k \<and> k < 64 \<and> v = 2 ^ k"
  then obtain k where k: "0 < k" "k < 64" "v = 2 ^ k" by blast
  have "2 \<le> v" using k self_le_power [of 2 k] by (simp add: word_le_nat_alt unat_pow2)
  with k show "is_pow2 v" using pow2_word_iff [of v] by (auto simp: is_pow2_def)
qed

section \<open>The capacity loop\<close>

lemma round_up_loop_result:
  assumes "round_up_loop v p = Some r"
  shows "v \<le> r \<and> (\<exists>j. r = push_bit j p)"
proof (rule round_up_loop.raw_induct [OF _ assms, where P = "\<lambda>v p r :: u64. v \<le> r \<and> (\<exists>j. r = push_bit j p)"])
  fix f and v p r :: u64
  assume IH: "\<And>v p r :: u64. f v p = Some r \<Longrightarrow> v \<le> r \<and> (\<exists>j. r = push_bit j p)"
    and r: "(if p < v then f v (push_bit 1 p) else Some p) = Some r"
  show "v \<le> r \<and> (\<exists>j. r = push_bit j p)"
  proof (cases "p < v")
    case True
    then have "f v (push_bit 1 p) = Some r" using r by simp
    from IH [OF this] obtain j where "v \<le> r" "r = push_bit (j + 1) p" by (auto simp: push_bit_push_bit)
    then show ?thesis by blast
  next
    case False
    then have "r = push_bit 0 p" "v \<le> r" using r by auto
    then show ?thesis by blast
  qed
qed

lemma pow2_word_le: "(2::u64) ^ j \<le> 2 ^ 63"
proof (cases "j < 64")
  case True
  then have "(2::nat) ^ j \<le> 2 ^ 63" by (intro power_increasing) auto
  with True show ?thesis by (simp only: word_le_nat_alt unat_pow2)
next
  case False
  then have "(2::u64) ^ j = 0" by (intro bit_eqI) (auto simp: bit_exp_iff)
  then show ?thesis by (simp only: word_zero_le)
qed

lemma round_up_loop_returns:
  assumes "v \<le> 2 ^ 63" and "j < 64" and "j = 0 \<or> 2 ^ (j - 1) < v"
  shows "\<exists>k<64. round_up_loop v (2 ^ j) = Some (2 ^ k) \<and> v \<le> 2 ^ k \<and> (k = 0 \<or> 2 ^ (k - 1) < v)"
  using assms
proof (induction "63 - j" arbitrary: j)
  case 0
  then have "j = 63" by simp
  with 0 have "\<not> 2 ^ j < v" by (simp add: not_less)
  then have "round_up_loop v (2 ^ j) = Some (2 ^ j)" by (subst round_up_loop.simps) simp
  with 0 \<open>j = 63\<close> show ?case by (intro exI [of _ j]) auto
next
  case (Suc n)
  show ?case
  proof (cases "2 ^ j < v")
    case True
    have eq: "round_up_loop v (2 ^ j) = round_up_loop v (2 ^ Suc j)"
      using True by (subst round_up_loop.simps) (simp add: push_bit_eq_mult mult.commute)
    show ?thesis unfolding eq using Suc True by (intro Suc(1)) auto
  next
    case False
    then have "round_up_loop v (2 ^ j) = Some (2 ^ j)" by (subst round_up_loop.simps) simp
    with Suc False show ?thesis by (intro exI [of _ j]) auto
  qed
qed

lemma round_up_pow2_returns:
  "v \<le> 2 ^ 63 \<Longrightarrow>
     \<exists>k<64. round_up_pow2 v = Some (2 ^ k) \<and> v \<le> 2 ^ k \<and> (k = 0 \<or> 2 ^ (k - 1) < v)"
  using round_up_loop_returns [of v 0] by (simp add: round_up_pow2_def)

lemma round_up_pow2_diverges: "2 ^ 63 < v \<Longrightarrow> round_up_pow2 v = None"
proof (rule ccontr)
  assume v: "2 ^ 63 < v" and "round_up_pow2 v \<noteq> None"
  then obtain r where "round_up_loop v 1 = Some r" by (auto simp: round_up_pow2_def)
  from round_up_loop_result [OF this] obtain j where "v \<le> 2 ^ j" by auto
  then have "v \<le> 2 ^ 63" using pow2_word_le [of j] by (rule order_trans)
  with v show False by simp
qed

lemma round_up_pow2_iff:
  "round_up_pow2 v = Some c \<longleftrightarrow>
     v \<le> 2 ^ 63 \<and> (\<exists>k<64. c = 2 ^ k \<and> v \<le> 2 ^ k \<and> (k = 0 \<or> 2 ^ (k - 1) < v))"
proof (cases "v \<le> 2 ^ 63")
  case False
  then show ?thesis by (simp add: round_up_pow2_diverges not_le)
next
  case True
  have least: "i = j" if "i < 64" "j < 64" "v \<le> 2 ^ i" "i = 0 \<or> 2 ^ (i - 1) < v"
      "v \<le> 2 ^ j" "j = 0 \<or> 2 ^ (j - 1) < v" for i j
  proof -
    have le: "a \<le> b" if "a < 64" "b < 64" "v \<le> 2 ^ b" "a = 0 \<or> 2 ^ (a - 1) < v" for a b
    proof (cases "a = 0")
      case False
      with that have "(2::u64) ^ (a - 1) < 2 ^ b" by auto
      moreover have "a - 1 < 64" using that by simp
      ultimately have "(2::nat) ^ (a - 1) < 2 ^ b"
        using that by (simp only: word_less_nat_alt unat_pow2)
      then have "a - 1 < b" by (rule power_less_imp_less_exp [rotated]) simp
      then show ?thesis by simp
    qed simp
    show ?thesis using le [of i j] le [of j i] that by simp
  qed
  from round_up_pow2_returns [OF True] obtain k where
    k: "k < 64" "round_up_pow2 v = Some (2 ^ k)" "v \<le> 2 ^ k" "k = 0 \<or> 2 ^ (k - 1) < v" by blast
  show ?thesis
  proof
    assume "round_up_pow2 v = Some c"
    with k True show "v \<le> 2 ^ 63 \<and> (\<exists>k<64. c = 2 ^ k \<and> v \<le> 2 ^ k \<and> (k = 0 \<or> 2 ^ (k - 1) < v))" by auto
  next
    assume "v \<le> 2 ^ 63 \<and> (\<exists>k<64. c = 2 ^ k \<and> v \<le> 2 ^ k \<and> (k = 0 \<or> 2 ^ (k - 1) < v))"
    then obtain j where "j < 64" "c = 2 ^ j" "v \<le> 2 ^ j" "j = 0 \<or> 2 ^ (j - 1) < v" by blast
    with least [of j k] k show "round_up_pow2 v = Some c" by simp
  qed
qed

end
