(* ===== verification/Spsc_Queue.thy ===== *)
theory Spsc_Queue
  imports Fifo_Interface Ring_Common
begin

text \<open>
  Model of \<^verbatim>\<open>include/animus/spsc_queue.hpp\<close>: the lossless one-writer one-reader
  queue of the order path. The shared block is a record (header words and slot
  array); each side owns a view that caches the other side's index. The
  operations are first modelled as they run alone, then as interleaved
  sequences of their single memory accesses.
\<close>

section \<open>Layout and attachment\<close>

record 'a spsc_mem =
  sq_magic :: u64
  sq_capacity :: u64
  sq_mask :: u64
  sq_payload_size :: u64
  sq_head :: u64
  sq_tail :: u64
  sq_slots :: "'a list"

record spsc_view =
  cached_tail :: u64
  cached_head :: u64

definition sizeof_SpscQueueHeader :: u64 where
  "sizeof_SpscQueueHeader = 3 * ANIMUS_CACHE_LINE_SIZE"

definition spsc_kMagic :: u64 where
  "spsc_kMagic = 0x5350534351554555"

text \<open>\<^verbatim>\<open>size_t\<close> arithmetic: the product and the sum wrap.\<close>

definition spsc_required_bytes :: "u64 \<Rightarrow> u64 \<Rightarrow> u64" where
  "spsc_required_bytes sizeof_T capacity = sizeof_SpscQueueHeader + capacity * sizeof_T"

definition spsc_new_view :: spsc_view where
  "spsc_new_view = \<lparr>cached_tail = 0, cached_head = 0\<rparr>"

text \<open>
  \<^verbatim>\<open>init\<close>: the address \<^term>\<open>0\<close> is the null pointer; \<^term>\<open>old\<close> is what the slot
  bytes of the block hold before the call, which \<^verbatim>\<open>init\<close> leaves as they are.
\<close>

definition spsc_init :: "u64 \<Rightarrow> u64 \<Rightarrow> u64 \<Rightarrow> u64 \<Rightarrow> 'a list \<Rightarrow> ('a spsc_mem \<times> spsc_view) option" where
  "spsc_init sizeof_T mem bytes capacity old =
     (if mem = 0 \<or> \<not> is_pow2 capacity \<or> \<not> aligned mem \<or> bytes < spsc_required_bytes sizeof_T capacity
      then None
      else Some (\<lparr>sq_magic = spsc_kMagic, sq_capacity = capacity, sq_mask = capacity - 1,
                  sq_payload_size = sizeof_T, sq_head = 0, sq_tail = 0, sq_slots = old\<rparr>,
                 spsc_new_view))"

definition spsc_attach :: "u64 \<Rightarrow> u64 \<Rightarrow> u64 \<Rightarrow> 'a spsc_mem \<Rightarrow> spsc_view option" where
  "spsc_attach sizeof_T mem bytes h =
     (if mem = 0 \<or> \<not> aligned mem \<or> bytes < sizeof_SpscQueueHeader then None
      else if sq_magic h \<noteq> spsc_kMagic \<or> sq_payload_size h \<noteq> sizeof_T \<or> \<not> is_pow2 (sq_capacity h) \<or>
              sq_mask h \<noteq> sq_capacity h - 1 \<or> bytes < spsc_required_bytes sizeof_T (sq_capacity h)
      then None
      else Some spsc_new_view)"

section \<open>Operations, run alone\<close>

definition spsc_store :: "'a \<Rightarrow> u64 \<Rightarrow> 'a spsc_mem \<Rightarrow> 'a spsc_mem" where
  "spsc_store value head m =
     m\<lparr>sq_slots := (sq_slots m)[unat (head AND sq_mask m) := value]\<rparr>"

definition spsc_try_push :: "'a \<Rightarrow> 'a spsc_mem \<Rightarrow> spsc_view \<Rightarrow> bool \<times> 'a spsc_mem \<times> spsc_view" where
  "spsc_try_push value m v =
     (let head = sq_head m;
          push = (\<lambda>v. (True, (spsc_store value head m)\<lparr>sq_head := head + 1\<rparr>, v))
      in if sq_capacity m \<le> head - cached_tail v
         then (let v' = v\<lparr>cached_tail := sq_tail m\<rparr>
               in if sq_capacity m \<le> head - cached_tail v' then (False, m, v') else push v')
         else push v)"

definition spsc_try_pop :: "'a spsc_mem \<Rightarrow> spsc_view \<Rightarrow> 'a option \<times> 'a spsc_mem \<times> spsc_view" where
  "spsc_try_pop m v =
     (let tail = sq_tail m;
          pop = (\<lambda>v. (Some (sq_slots m ! unat (tail AND sq_mask m)), m\<lparr>sq_tail := tail + 1\<rparr>, v))
      in if tail = cached_head v
         then (let v' = v\<lparr>cached_head := sq_head m\<rparr>
               in if tail = cached_head v' then (None, m, v') else pop v')
         else pop v)"

definition spsc_valid_geometry :: "nat \<Rightarrow> 'a spsc_mem \<Rightarrow> bool" where
  "spsc_valid_geometry k m \<longleftrightarrow> 0 < k \<and> k < 64 \<and> sq_capacity m = 2 ^ k \<and> sq_mask m = 2 ^ k - 1 \<and>
     length (sq_slots m) = 2 ^ k"

text \<open>
  The state of the queue as its two users see it: the shared block, the
  producer's view and the consumer's view.
\<close>

type_synonym 'a spsc_state = "'a spsc_mem \<times> spsc_view \<times> spsc_view"

definition spsc_push_op :: "'a \<Rightarrow> 'a spsc_state \<Rightarrow> bool \<times> 'a spsc_state" where
  "spsc_push_op x = (\<lambda>(m, pv, cv). case spsc_try_push x m pv of (b, m', pv') \<Rightarrow> (b, (m', pv', cv)))"

definition spsc_pop_op :: "'a spsc_state \<Rightarrow> 'a option \<times> 'a spsc_state" where
  "spsc_pop_op = (\<lambda>(m, pv, cv). case spsc_try_pop m cv of (r, m', cv') \<Rightarrow> (r, (m', pv, cv')))"

text \<open>
  Cursor invariant: \<^term>\<open>T\<close> records popped, \<^term>\<open>H\<close> records pushed, each cache
  an earlier value of the index it copies.
\<close>

definition spsc_cursors :: "nat \<Rightarrow> nat \<Rightarrow> nat \<Rightarrow> 'a spsc_state \<Rightarrow> bool" where
  "spsc_cursors k T H = (\<lambda>(m, pv, cv). spsc_valid_geometry k m \<and>
     sq_head m = of_nat H \<and> sq_tail m = of_nat T \<and> T \<le> H \<and> H \<le> T + 2 ^ k \<and>
     (\<exists>ct ch. cached_tail pv = of_nat ct \<and> ct \<le> T \<and> H \<le> ct + 2 ^ k \<and>
              cached_head cv = of_nat ch \<and> T \<le> ch \<and> ch \<le> H))"

definition spsc_invar :: "'a spsc_state \<Rightarrow> bool" where
  "spsc_invar s \<longleftrightarrow> (\<exists>k T H. spsc_cursors k T H s)"

definition spsc_cap :: "'a spsc_state \<Rightarrow> nat" where
  "spsc_cap = (\<lambda>(m, _). unat (sq_capacity m))"

definition spsc_contents :: "'a spsc_state \<Rightarrow> 'a list" where
  "spsc_contents = (\<lambda>(m, _).
     map (\<lambda>i. sq_slots m ! unat ((sq_tail m + of_nat i) AND sq_mask m))
         [0..<unat (sq_head m - sq_tail m)])"

section \<open>Attachment theorems\<close>

lemma spsc_attach_iff:
  "spsc_attach sizeof_T mem bytes h = Some v \<longleftrightarrow>
     v = spsc_new_view \<and> mem \<noteq> 0 \<and> aligned mem \<and> sizeof_SpscQueueHeader \<le> bytes \<and>
     sq_magic h = spsc_kMagic \<and> sq_payload_size h = sizeof_T \<and>
     (\<exists>k. 0 < k \<and> k < 64 \<and> sq_capacity h = 2 ^ k) \<and> sq_mask h = sq_capacity h - 1 \<and>
     spsc_required_bytes sizeof_T (sq_capacity h) \<le> bytes"
  by (auto simp: spsc_attach_def is_pow2_iff not_less)

lemma spsc_required_bytes_exact:
  assumes "192 + unat capacity * unat sizeof_T < 2 ^ 64"
  shows "unat (spsc_required_bytes sizeof_T capacity) = 192 + unat capacity * unat sizeof_T"
  using assms
  by (simp add: spsc_required_bytes_def sizeof_SpscQueueHeader_def ANIMUS_CACHE_LINE_SIZE_def
      unat_word_ariths)

section \<open>The queue meets the contract\<close>

lemma spsc_cursorsI:
  assumes "spsc_valid_geometry k m" and "sq_head m = of_nat H" and "sq_tail m = of_nat T"
    and "T \<le> H" and "H \<le> T + 2 ^ k"
    and "cached_tail pv = of_nat ct" and "ct \<le> T" and "H \<le> ct + 2 ^ k"
    and "cached_head cv = of_nat ch" and "T \<le> ch" and "ch \<le> H"
  shows "spsc_cursors k T H (m, pv, cv)"
  using assms by (auto simp: spsc_cursors_def)

lemma spsc_cursors_le: "spsc_cursors k T H s \<Longrightarrow> T \<le> H \<and> H \<le> T + 2 ^ k"
  by (auto simp: spsc_cursors_def)

lemma spsc_cursors_cap: "spsc_cursors k T H s \<Longrightarrow> spsc_cap s = 2 ^ k"
  by (auto simp: spsc_cursors_def spsc_valid_geometry_def spsc_cap_def unat_pow2)

lemma spsc_invarI: "spsc_cursors k T H s \<Longrightarrow> spsc_invar s"
  by (auto simp: spsc_invar_def)

lemma spsc_contents_eq:
  assumes "spsc_cursors k T H (m, pv, cv)"
  shows "spsc_contents (m, pv, cv) = ring_contents (2 ^ k) (sq_slots m) T H"
proof -
  have k: "k < 64" and hd: "sq_head m = of_nat H" and tl: "sq_tail m = of_nat T"
    and le: "T \<le> H" "H \<le> T + 2 ^ k" and mk: "sq_mask m = 2 ^ k - 1"
    using assms by (auto simp: spsc_cursors_def spsc_valid_geometry_def)
  have "(2::nat) ^ k < 2 ^ 64" using k by (intro power_strict_increasing) auto
  then have "unat (of_nat H - of_nat T :: u64) = H - T" using le by (intro cursor_diff) auto
  moreover have "sq_slots m ! unat ((sq_tail m + of_nat i) AND sq_mask m) = sq_slots m ! ((T + i) mod 2 ^ k)" for i
    using slot_of_cursor [OF k, of "T + i"] by (simp add: tl mk)
  ultimately show ?thesis
    by (simp add: spsc_contents_def ring_contents_def hd tl list_eq_iff_nth_eq)
qed

lemma spsc_push_op_cursors:
  assumes inv: "spsc_cursors k T H (m, pv, cv)" and op: "spsc_push_op x (m, pv, cv) = (b, (m', pv', cv'))"
  shows "if b then H < T + 2 ^ k \<and> sq_slots m' = (sq_slots m)[H mod 2 ^ k := x] \<and>
                   spsc_cursors k T (Suc H) (m', pv', cv')
         else H = T + 2 ^ k \<and> m' = m \<and> spsc_cursors k T H (m', pv', cv')"
proof -
  obtain ct ch where k: "0 < k" "k < 64"
    and g: "sq_capacity m = 2 ^ k" "sq_mask m = 2 ^ k - 1" "length (sq_slots m) = 2 ^ k"
    and hd: "sq_head m = of_nat H" and tl: "sq_tail m = of_nat T"
    and le: "T \<le> H" "H \<le> T + 2 ^ k"
    and ct: "cached_tail pv = of_nat ct" "ct \<le> T" "H \<le> ct + 2 ^ k"
    and ch: "cached_head cv = of_nat ch" "T \<le> ch" "ch \<le> H"
    using inv by (auto simp: spsc_cursors_def spsc_valid_geometry_def)
  note full1 = cursor_full_test [OF k(2), of ct H] and full2 = cursor_full_test [OF k(2) le]
  have cv: "cv' = cv" using op by (auto simp: spsc_push_op_def split: prod.splits)
  show ?thesis
  proof (cases "H = ct + 2 ^ k \<and> H = T + 2 ^ k")
    case True
    then have "\<not> b \<and> m' = m \<and> pv' = pv\<lparr>cached_tail := of_nat T\<rparr>"
      using op full1 full2 ct le
      by (simp add: spsc_push_op_def spsc_try_push_def Let_def g hd tl split: if_splits)
    with True cv show ?thesis
      using ch le k g hd tl by (auto simp: spsc_valid_geometry_def intro!: spsc_cursorsI)
  next
    case False
    then have b: "b" "m' = (spsc_store x (of_nat H) m)\<lparr>sq_head := of_nat H + 1\<rparr>"
      and pv': "pv' = pv \<and> H < ct + 2 ^ k \<or> pv' = pv\<lparr>cached_tail := of_nat T\<rparr>"
      using op full1 full2 ct le
      by (auto simp: spsc_push_op_def spsc_try_push_def Let_def g hd tl split: if_splits)
    have lt: "H < T + 2 ^ k" using False ct le by auto
    have slot: "unat ((of_nat H :: u64) AND sq_mask m) = H mod 2 ^ k"
      by (simp add: g slot_of_cursor k)
    obtain ct' where "cached_tail pv' = of_nat ct'" "ct' \<le> T" "Suc H \<le> ct' + 2 ^ k"
      using pv' ct lt by auto
    then have "spsc_cursors k T (Suc H) (m', pv', cv')"
      using ch le k g tl b cv lt
      by (intro spsc_cursorsI [where ct = ct' and ch = ch]) (auto simp: spsc_valid_geometry_def spsc_store_def)
    with b lt slot show ?thesis by (simp add: spsc_store_def)
  qed
qed

lemma spsc_pop_op_cursors:
  assumes inv: "spsc_cursors k T H (m, pv, cv)" and op: "spsc_pop_op (m, pv, cv) = (r, (m', pv', cv'))"
  shows "sq_slots m' = sq_slots m \<and>
    (case r of None \<Rightarrow> T = H \<and> spsc_cursors k T H (m', pv', cv')
     | Some x \<Rightarrow> T < H \<and> x = sq_slots m ! (T mod 2 ^ k) \<and> spsc_cursors k (Suc T) H (m', pv', cv'))"
proof -
  obtain ct ch where k: "0 < k" "k < 64"
    and g: "sq_capacity m = 2 ^ k" "sq_mask m = 2 ^ k - 1" "length (sq_slots m) = 2 ^ k"
    and hd: "sq_head m = of_nat H" and tl: "sq_tail m = of_nat T"
    and le: "T \<le> H" "H \<le> T + 2 ^ k"
    and ct: "cached_tail pv = of_nat ct" "ct \<le> T" "H \<le> ct + 2 ^ k"
    and ch: "cached_head cv = of_nat ch" "T \<le> ch" "ch \<le> H"
    using inv by (auto simp: spsc_cursors_def spsc_valid_geometry_def)
  have e1: "(of_nat T :: u64) = of_nat ch \<longleftrightarrow> T = ch"
    using ch le by (intro cursor_empty_test [OF k(2)]) auto
  note e2 = cursor_empty_test [OF k(2) le]
  have slot: "unat ((of_nat T :: u64) AND sq_mask m) = T mod 2 ^ k"
    by (simp add: g slot_of_cursor k)
  have pv: "pv' = pv" using op by (auto simp: spsc_pop_op_def split: prod.splits)
  show ?thesis
  proof (cases "T = H")
    case True
    then have "r = None" "m' = m" "cached_head cv' = of_nat T"
      using op e1 e2 ch by (auto simp: spsc_pop_op_def spsc_try_pop_def Let_def hd tl split: if_splits)
    with True pv show ?thesis
      using ct le k g hd tl by (auto simp: spsc_valid_geometry_def intro!: spsc_cursorsI)
  next
    case False
    then have r: "r = Some (sq_slots m ! (T mod 2 ^ k))" "m' = m\<lparr>sq_tail := of_nat T + 1\<rparr>"
      and cv': "cv' = cv \<and> T < ch \<or> cv' = cv\<lparr>cached_head := of_nat H\<rparr>"
      using op e1 e2 ch slot by (auto simp: spsc_pop_op_def spsc_try_pop_def Let_def hd tl split: if_splits)
    have lt: "T < H" using False le by auto
    obtain ch' where "cached_head cv' = of_nat ch'" "Suc T \<le> ch'" "ch' \<le> H"
      using cv' ch lt by auto
    then have "spsc_cursors k (Suc T) H (m', pv', cv')"
      using ct le k g hd r pv
      by (intro spsc_cursorsI [where ct = ct and ch = ch']) (auto simp: spsc_valid_geometry_def)
    with r lt show ?thesis by simp
  qed
qed

lemma spsc_push_op_spec:
  assumes c: "spsc_cursors k T H s" and op: "spsc_push_op x s = (b, s')"
  shows "if b then H < T + 2 ^ k \<and> spsc_contents s' = spsc_contents s @ [x] \<and> spsc_cursors k T (Suc H) s'
         else H = T + 2 ^ k \<and> spsc_contents s' = spsc_contents s \<and> spsc_cursors k T H s'"
proof -
  obtain m pv cv m' pv' cv' where s: "s = (m, pv, cv)" "s' = (m', pv', cv')" by (cases s, cases s') auto
  note r = spsc_push_op_cursors [OF c [unfolded s] op [unfolded s]]
  note eq = spsc_contents_eq [OF c [unfolded s]]
  show ?thesis
  proof (cases b)
    case True
    have "length (sq_slots m) = 2 ^ k" using c by (auto simp: s spsc_cursors_def spsc_valid_geometry_def)
    with True r eq spsc_cursors_le [OF c] ring_contents_push [of T H "2 ^ k" "sq_slots m" x]
    show ?thesis by (auto simp: s spsc_contents_eq [of k T "Suc H"])
  next
    case False
    with r eq show ?thesis by (auto simp: s spsc_contents_eq [of k T H])
  qed
qed

lemma spsc_pop_op_spec:
  assumes c: "spsc_cursors k T H s" and op: "spsc_pop_op s = (r, s')"
  shows "case r of None \<Rightarrow> T = H \<and> spsc_contents s' = spsc_contents s \<and> spsc_cursors k T H s'
         | Some x \<Rightarrow> T < H \<and> spsc_contents s = x # spsc_contents s' \<and> spsc_cursors k (Suc T) H s'"
proof -
  obtain m pv cv m' pv' cv' where s: "s = (m, pv, cv)" "s' = (m', pv', cv')" by (cases s, cases s') auto
  note p = spsc_pop_op_cursors [OF c [unfolded s] op [unfolded s]]
  note eq = spsc_contents_eq [OF c [unfolded s]]
  show ?thesis
  proof (cases r)
    case None
    with p eq show ?thesis by (auto simp: s spsc_contents_eq [of k T H])
  next
    case (Some x)
    with p eq ring_contents_pop [of T H "2 ^ k" "sq_slots m"]
    show ?thesis by (auto simp: s spsc_contents_eq [of k "Suc T" H])
  qed
qed

lemma length_spsc_contents: "spsc_cursors k T H s \<Longrightarrow> length (spsc_contents s) = H - T"
  by (cases s) (simp add: spsc_contents_eq)

lemma spsc_invarE: "spsc_invar s \<Longrightarrow> (\<And>k T H. spsc_cursors k T H s \<Longrightarrow> P) \<Longrightarrow> P"
  by (auto simp: spsc_invar_def)

interpretation spsc: bounded_fifo spsc_invar spsc_contents spsc_cap spsc_push_op spsc_pop_op
proof (unfold_locales, goal_cases)
  case (1 s)
  then obtain k T H where c: "spsc_cursors k T H s" by (rule spsc_invarE)
  show ?case using length_spsc_contents [OF c] spsc_cursors_cap [OF c] spsc_cursors_le [OF c] by linarith
next
  case (2 s x s')
  then obtain k T H where c: "spsc_cursors k T H s" by (elim spsc_invarE)
  have r: "H = T + 2 ^ k" "spsc_contents s' = spsc_contents s" "spsc_cursors k T H s'"
    using spsc_push_op_spec [OF c 2(2)] by auto
  show ?case using r(1,2) length_spsc_contents [OF c] spsc_cursors_cap [OF c] spsc_cursors_cap [OF r(3)]
      spsc_invarI [OF r(3)] by simp
next
  case (3 s x s')
  then obtain k T H where c: "spsc_cursors k T H s" by (elim spsc_invarE)
  have r: "H < T + 2 ^ k" "spsc_contents s' = spsc_contents s @ [x]" "spsc_cursors k T (Suc H) s'"
    using spsc_push_op_spec [OF c 3(2)] by auto
  show ?case using r(1,2) length_spsc_contents [OF c] spsc_cursors_cap [OF c] spsc_cursors_cap [OF r(3)]
      spsc_invarI [OF r(3)] spsc_cursors_le [OF c] by simp
next
  case (4 s s')
  then obtain k T H where c: "spsc_cursors k T H s" by (elim spsc_invarE)
  have r: "T = H" "spsc_contents s' = spsc_contents s" "spsc_cursors k T H s'"
    using spsc_pop_op_spec [OF c 4(2)] by auto
  show ?case using r(1,2) length_spsc_contents [OF c] spsc_cursors_cap [OF c] spsc_cursors_cap [OF r(3)]
      spsc_invarI [OF r(3)] by simp
next
  case (5 s x s')
  then obtain k T H where c: "spsc_cursors k T H s" by (elim spsc_invarE)
  have r: "spsc_contents s = x # spsc_contents s'" "spsc_cursors k (Suc T) H s'"
    using spsc_pop_op_spec [OF c 5(2)] by auto
  show ?case using r(1) spsc_cursors_cap [OF c] spsc_cursors_cap [OF r(2)] spsc_invarI [OF r(2)] by simp
qed

section \<open>Theorems\<close>

lemma slot_in_block:
  assumes "k < 64" and "192 + 2 ^ k * sz \<le> b"
  shows "192 + (unat (c AND (2 ^ k - 1 :: u64)) + 1) * sz \<le> b"
proof -
  have "unat (c AND (2 ^ k - 1)) < 2 ^ k"
    using slot_of_cursor [OF assms(1), of "unat c"] by simp
  then have "(unat (c AND (2 ^ k - 1)) + 1) * sz \<le> 2 ^ k * sz" by (intro mult_le_mono1) simp
  with assms(2) show ?thesis by linarith
qed




lemma spsc_init_invar:
  assumes "spsc_init sizeof_T mem bytes capacity old = Some (m, v)" and "length old = unat capacity"
  shows "spsc_invar (m, v, spsc_new_view) \<and> spsc_contents (m, v, spsc_new_view) = [] \<and>
         spsc_cap (m, v, spsc_new_view) = unat capacity"
proof -
  obtain k where k: "0 < k" "k < 64" "capacity = 2 ^ k"
    using assms(1) by (auto simp: spsc_init_def is_pow2_iff split: if_splits)
  have "spsc_cursors k 0 0 (m, v, spsc_new_view)"
    using assms k by (intro spsc_cursorsI [where ct = 0 and ch = 0])
      (auto simp: spsc_init_def spsc_valid_geometry_def unat_pow2 spsc_new_view_def split: if_splits)
  from spsc_invarI [OF this] spsc_cursors_cap [OF this] length_spsc_contents [OF this] k
  show ?thesis by (simp add: unat_pow2)
qed

text \<open>
  On a queue that meets its invariant (in particular one fresh from \<^verbatim>\<open>init\<close>, and
  whatever the state of the two cached indices), pushing a batch accepts exactly
  as many records as there are free slots, in order, and popping a batch returns
  the oldest records in order and leaves the rest.
\<close>

theorem spsc_batch_fifo:
  assumes "spsc_invar s"
    and "push_batch spsc_push_op xs s = (n, s1)" and "pop_batch spsc_pop_op m s1 = (ys, s2)"
  shows "n = min (length xs) (spsc_cap s - length (spsc_contents s)) \<and>
         ys @ spsc_contents s2 = spsc_contents s @ take n xs \<and>
         length ys = min m (length (spsc_contents s) + n) \<and> spsc_cap s2 = spsc_cap s \<and> spsc_invar s2"
  using assms by (rule spsc.batch_fifo)

theorem spsc_batch_fifo_witness:
  "\<exists>s s1 s2. spsc_invar s \<and> push_batch spsc_push_op [7, 8, 9::nat] s = (2, s1) \<and>
     pop_batch spsc_pop_op 5 s1 = ([7, 8], s2) \<and> spsc_contents s2 = []"
proof -
  obtain m v where i: "spsc_init 8 64 208 2 [0, 0::nat] = Some (m, v)"
    by (simp add: spsc_init_def aligned_def is_pow2_def spsc_required_bytes_def
        sizeof_SpscQueueHeader_def ANIMUS_CACHE_LINE_SIZE_def)
  let ?s = "(m, v, spsc_new_view)"
  have s: "spsc_invar ?s" "spsc_contents ?s = []" "spsc_cap ?s = 2"
    using spsc_init_invar [OF i] by simp_all
  obtain n s1 where p: "push_batch spsc_push_op [7, 8, 9] ?s = (n, s1)" by (rule prod.exhaust)
  obtain ys s2 where q: "pop_batch spsc_pop_op 5 s1 = (ys, s2)" by (rule prod.exhaust)
  have r: "n = 2" "ys @ spsc_contents s2 = take n [7, 8, 9]" "length ys = 2"
    using spsc_batch_fifo [OF s(1) p q] s by simp_all
  then have "ys = [7, 8]" "spsc_contents s2 = []" by (auto simp: append_eq_Cons_conv)
  with s(1) p q r(1) show ?thesis by blast
qed

end
