(* ===== verification/Spsc_Concurrent.thy ===== *)
theory Spsc_Concurrent
  imports Spsc_Queue
begin

text \<open>
  The queue of \<^verbatim>\<open>include/animus/spsc_queue.hpp\<close> with its producer and its consumer
  running at the same time: the two operations split into their single accesses
  to the shared block, every interleaving of them as a step relation, and the
  invariant that makes the queue lossless, ordered and free of data races.
\<close>

section \<open>Single accesses\<close>

text \<open>
  The program counters name the next access to shared memory. A slot holds
  \<^term>\<open>None\<close> while its bytes are being overwritten, so a reader that overlapped a
  writer would be seen to return \<^term>\<open>None\<close>. \<^verbatim>\<open>sys_pushed\<close> and \<^verbatim>\<open>sys_popped\<close> record the
  values published and the values returned; no step reads them.
\<close>

datatype 'a producer_pc =
    PIdle
  | PReload 'a u64
  | PWrite 'a u64
  | PWriting 'a u64
  | PPublish 'a u64

datatype 'a consumer_pc =
    CIdle
  | CReload u64
  | CRead u64
  | CRetire u64 "'a option"

record 'a spsc_sys =
  sys_mem :: "'a option spsc_mem"
  sys_pview :: spsc_view
  sys_cview :: spsc_view
  sys_ppc :: "'a producer_pc"
  sys_cpc :: "'a consumer_pc"
  sys_pushed :: "'a list"
  sys_popped :: "'a option list"

text \<open>One access of \<^verbatim>\<open>try_push(value)\<close>; an idle producer starts the call.\<close>

definition producer_next :: "'a \<Rightarrow> 'a spsc_sys \<Rightarrow> 'a spsc_sys" where
  "producer_next value s =
     (let m = sys_mem s
      in case sys_ppc s of
        PIdle \<Rightarrow>
          s\<lparr>sys_ppc := (if sq_capacity m \<le> sq_head m - cached_tail (sys_pview s)
                        then PReload value (sq_head m) else PWrite value (sq_head m))\<rparr>
      | PReload x h \<Rightarrow>
          s\<lparr>sys_pview := (sys_pview s)\<lparr>cached_tail := sq_tail m\<rparr>,
            sys_ppc := (if sq_capacity m \<le> h - sq_tail m then PIdle else PWrite x h)\<rparr>
      | PWrite x h \<Rightarrow> s\<lparr>sys_mem := spsc_store None h m, sys_ppc := PWriting x h\<rparr>
      | PWriting x h \<Rightarrow> s\<lparr>sys_mem := spsc_store (Some x) h m, sys_ppc := PPublish x h\<rparr>
      | PPublish x h \<Rightarrow>
          s\<lparr>sys_mem := m\<lparr>sq_head := h + 1\<rparr>, sys_ppc := PIdle, sys_pushed := sys_pushed s @ [x]\<rparr>)"

text \<open>One access of \<^verbatim>\<open>try_pop\<close>; an idle consumer starts the call.\<close>

definition consumer_next :: "'a spsc_sys \<Rightarrow> 'a spsc_sys" where
  "consumer_next s =
     (let m = sys_mem s
      in case sys_cpc s of
        CIdle \<Rightarrow>
          s\<lparr>sys_cpc := (if sq_tail m = cached_head (sys_cview s)
                        then CReload (sq_tail m) else CRead (sq_tail m))\<rparr>
      | CReload t \<Rightarrow>
          s\<lparr>sys_cview := (sys_cview s)\<lparr>cached_head := sq_head m\<rparr>,
            sys_cpc := (if t = sq_head m then CIdle else CRead t)\<rparr>
      | CRead t \<Rightarrow> s\<lparr>sys_cpc := CRetire t (sq_slots m ! unat (t AND sq_mask m))\<rparr>
      | CRetire t r \<Rightarrow>
          s\<lparr>sys_mem := m\<lparr>sq_tail := t + 1\<rparr>, sys_cpc := CIdle, sys_popped := sys_popped s @ [r]\<rparr>)"

inductive spsc_step :: "'a spsc_sys \<Rightarrow> 'a spsc_sys \<Rightarrow> bool" where
  producer: "spsc_step s (producer_next value s)"
| consumer: "spsc_step s (consumer_next s)"

definition spsc_start :: "'a option spsc_mem \<Rightarrow> 'a spsc_sys" where
  "spsc_start m = \<lparr>sys_mem = m, sys_pview = spsc_new_view, sys_cview = spsc_new_view,
     sys_ppc = PIdle, sys_cpc = CIdle, sys_pushed = [], sys_popped = []\<rparr>"

text \<open>A run starts from a block that \<^verbatim>\<open>init\<close> has just set up with room for its slots.\<close>

inductive spsc_reachable :: "nat \<Rightarrow> 'a spsc_sys \<Rightarrow> bool" for k where
  start: "spsc_init sizeof_T mem bytes (2 ^ k) old = Some (m, v) \<Longrightarrow> k < 64 \<Longrightarrow>
     length old = 2 ^ k \<Longrightarrow> spsc_reachable k (spsc_start m)"
| step: "spsc_reachable k s \<Longrightarrow> spsc_step s s' \<Longrightarrow> spsc_reachable k s'"

inductive_cases spsc_stepE: "spsc_step s s'"

text \<open>A schedule names, access by access, the side that moves.\<close>

datatype 'a spsc_actor = Producer 'a | Consumer

fun spsc_run :: "'a spsc_actor list \<Rightarrow> 'a spsc_sys \<Rightarrow> 'a spsc_sys" where
  "spsc_run [] s = s"
| "spsc_run (Producer value # sched) s = spsc_run sched (producer_next value s)"
| "spsc_run (Consumer # sched) s = spsc_run sched (consumer_next s)"

text \<open>A two-slot queue of 8-byte records at address 64, and a run of it.\<close>

definition spsc_demo_mem :: "nat option spsc_mem" where
  "spsc_demo_mem = fst (the (spsc_init 8 64 208 2 [None, None]))"

definition spsc_demo :: "nat spsc_actor list \<Rightarrow> nat spsc_sys" where
  "spsc_demo sched = spsc_run sched (spsc_start spsc_demo_mem)"


text \<open>What each program counter knows, over the numbers of records pushed and popped so far.\<close>

fun producer_inv :: "nat \<Rightarrow> nat \<Rightarrow> nat \<Rightarrow> 'a option list \<Rightarrow> 'a producer_pc \<Rightarrow> bool" where
  "producer_inv k H ct slots PIdle \<longleftrightarrow> True"
| "producer_inv k H ct slots (PReload x h) \<longleftrightarrow> h = of_nat H"
| "producer_inv k H ct slots (PWrite x h) \<longleftrightarrow> h = of_nat H \<and> H < ct + 2 ^ k"
| "producer_inv k H ct slots (PWriting x h) \<longleftrightarrow> h = of_nat H \<and> H < ct + 2 ^ k"
| "producer_inv k H ct slots (PPublish x h) \<longleftrightarrow>
     h = of_nat H \<and> H < ct + 2 ^ k \<and> slots ! (H mod 2 ^ k) = Some x"

fun consumer_inv :: "nat \<Rightarrow> nat \<Rightarrow> 'a list \<Rightarrow> 'a consumer_pc \<Rightarrow> bool" where
  "consumer_inv T ch pushed CIdle \<longleftrightarrow> True"
| "consumer_inv T ch pushed (CReload t) \<longleftrightarrow> t = of_nat T"
| "consumer_inv T ch pushed (CRead t) \<longleftrightarrow> t = of_nat T \<and> T < ch"
| "consumer_inv T ch pushed (CRetire t r) \<longleftrightarrow> t = of_nat T \<and> T < ch \<and> r = Some (pushed ! T)"

definition spsc_sys_inv :: "nat \<Rightarrow> nat \<Rightarrow> nat \<Rightarrow> 'a spsc_sys \<Rightarrow> bool" where
  "spsc_sys_inv k ct ch s \<longleftrightarrow>
     (let H = length (sys_pushed s); T = length (sys_popped s)
      in spsc_valid_geometry k (sys_mem s) \<and>
         sq_head (sys_mem s) = of_nat H \<and> sq_tail (sys_mem s) = of_nat T \<and>
         cached_tail (sys_pview s) = of_nat ct \<and> ct \<le> T \<and> H \<le> ct + 2 ^ k \<and>
         cached_head (sys_cview s) = of_nat ch \<and> T \<le> ch \<and> ch \<le> H \<and>
         sys_popped s = map Some (take T (sys_pushed s)) \<and>
         (\<forall>i. T \<le> i \<and> i < H \<longrightarrow> sq_slots (sys_mem s) ! (i mod 2 ^ k) = Some (sys_pushed s ! i)) \<and>
         producer_inv k H ct (sq_slots (sys_mem s)) (sys_ppc s) \<and>
         consumer_inv T ch (sys_pushed s) (sys_cpc s))"

section \<open>The invariant holds in every interleaving\<close>

lemma spsc_sys_invI:
  assumes "spsc_valid_geometry k (sys_mem s)"
    and "sq_head (sys_mem s) = of_nat (length (sys_pushed s))"
    and "sq_tail (sys_mem s) = of_nat (length (sys_popped s))"
    and "cached_tail (sys_pview s) = of_nat ct" and "ct \<le> length (sys_popped s)"
    and "length (sys_pushed s) \<le> ct + 2 ^ k"
    and "cached_head (sys_cview s) = of_nat ch" and "length (sys_popped s) \<le> ch"
    and "ch \<le> length (sys_pushed s)"
    and "sys_popped s = map Some (take (length (sys_popped s)) (sys_pushed s))"
    and "\<And>i. length (sys_popped s) \<le> i \<Longrightarrow> i < length (sys_pushed s) \<Longrightarrow>
           sq_slots (sys_mem s) ! (i mod 2 ^ k) = Some (sys_pushed s ! i)"
    and "producer_inv k (length (sys_pushed s)) ct (sq_slots (sys_mem s)) (sys_ppc s)" and "consumer_inv (length (sys_popped s)) ch (sys_pushed s) (sys_cpc s)"
  shows "spsc_sys_inv k ct ch s"
  using assms by (simp add: spsc_sys_inv_def Let_def)

lemma spsc_store_slot:
  "spsc_valid_geometry k m \<Longrightarrow>
     spsc_store x (of_nat n) m = m\<lparr>sq_slots := (sq_slots m)[n mod 2 ^ k := x]\<rparr>"
  by (simp add: spsc_store_def spsc_valid_geometry_def slot_of_cursor)

lemma spsc_valid_geometry_upd [simp]:
  "spsc_valid_geometry k (m\<lparr>sq_head := h\<rparr>) = spsc_valid_geometry k m"
  "spsc_valid_geometry k (m\<lparr>sq_tail := t\<rparr>) = spsc_valid_geometry k m"
  "spsc_valid_geometry k (m\<lparr>sq_slots := (sq_slots m)[i := x]\<rparr>) = spsc_valid_geometry k m"
  by (simp_all add: spsc_valid_geometry_def)

lemma spsc_sys_invD:
  assumes "spsc_sys_inv k ct ch s"
  shows "spsc_valid_geometry k (sys_mem s)" and "0 < k" and "k < 64"
    and "sq_head (sys_mem s) = of_nat (length (sys_pushed s))"
    and "sq_tail (sys_mem s) = of_nat (length (sys_popped s))"
    and "cached_tail (sys_pview s) = of_nat ct" and "ct \<le> length (sys_popped s)"
    and "length (sys_pushed s) \<le> ct + 2 ^ k"
    and "cached_head (sys_cview s) = of_nat ch" and "length (sys_popped s) \<le> ch"
    and "ch \<le> length (sys_pushed s)"
    and "sys_popped s = map Some (take (length (sys_popped s)) (sys_pushed s))"
    and "length (sys_popped s) \<le> i \<Longrightarrow> i < length (sys_pushed s) \<Longrightarrow>
           sq_slots (sys_mem s) ! (i mod 2 ^ k) = Some (sys_pushed s ! i)"
    and "producer_inv k (length (sys_pushed s)) ct (sq_slots (sys_mem s)) (sys_ppc s)"
    and "consumer_inv (length (sys_popped s)) ch (sys_pushed s) (sys_cpc s)"
    and "sq_capacity (sys_mem s) = 2 ^ k" and "sq_mask (sys_mem s) = 2 ^ k - 1"
    and "length (sq_slots (sys_mem s)) = 2 ^ k"
  using assms by (auto simp: spsc_sys_inv_def Let_def spsc_valid_geometry_def)

lemma producer_next_inv:
  assumes inv: "spsc_sys_inv k ct ch s"
  shows "\<exists>ct'. spsc_sys_inv k ct' ch (producer_next value s)"
proof -
  define H where "H = length (sys_pushed s)"
  define T where "T = length (sys_popped s)"
  note [simp] = H_def [symmetric] T_def [symmetric]
  note I = spsc_sys_invD [OF inv, unfolded H_def [symmetric] T_def [symmetric]]
  have upd: "(sq_slots (sys_mem s))[H mod 2 ^ k := y] ! (i mod 2 ^ k) = Some (sys_pushed s ! i)"
    if "T \<le> i" "i < H" "H < ct + 2 ^ k" for i y
  proof -
    have "i mod 2 ^ k \<noteq> H mod 2 ^ k" using that I(7) by (intro mod_neq_within) auto
    with that I(13) show ?thesis by simp
  qed
  show ?thesis
  proof (cases "sys_ppc s")
    case PIdle
    have "spsc_sys_inv k ct ch (producer_next value s)"
      using I PIdle cursor_full_test [OF I(3), of ct H]
      by (intro spsc_sys_invI) (auto simp: producer_next_def)
    then show ?thesis ..
  next
    case (PReload x h)
    have "spsc_sys_inv k T ch (producer_next value s)"
      using I PReload cursor_full_test [OF I(3), of T H]
      by (intro spsc_sys_invI) (auto simp: producer_next_def)
    then show ?thesis ..
  next
    case (PWrite x h)
    have "spsc_sys_inv k ct ch (producer_next value s)"
      using I PWrite upd
      by (intro spsc_sys_invI) (auto simp: producer_next_def spsc_store_slot)
    then show ?thesis ..
  next
    case (PWriting x h)
    have "spsc_sys_inv k ct ch (producer_next value s)"
      using I PWriting upd
      by (intro spsc_sys_invI) (auto simp: producer_next_def spsc_store_slot)
    then show ?thesis ..
  next
    case (PPublish x h)
    have "consumer_inv T ch (sys_pushed s @ [x]) (sys_cpc s)"
      using I by (cases "sys_cpc s") (auto simp: nth_append)
    then have "spsc_sys_inv k ct ch (producer_next value s)"
      using I PPublish
      by (intro spsc_sys_invI) (auto simp: producer_next_def nth_append less_Suc_eq)
    then show ?thesis ..
  qed
qed

lemma consumer_next_inv:
  assumes inv: "spsc_sys_inv k ct ch s"
  shows "\<exists>ch'. spsc_sys_inv k ct ch' (consumer_next s)"
proof -
  define H where "H = length (sys_pushed s)"
  define T where "T = length (sys_popped s)"
  note [simp] = H_def [symmetric] T_def [symmetric]
  note I = spsc_sys_invD [OF inv, unfolded H_def [symmetric] T_def [symmetric]]
  show ?thesis
  proof (cases "sys_cpc s")
    case CIdle
    have "spsc_sys_inv k ct ch (consumer_next s)"
      using I CIdle cursor_empty_test [OF I(3), of T ch]
      by (intro spsc_sys_invI) (auto simp: consumer_next_def)
    then show ?thesis ..
  next
    case (CReload t)
    have "spsc_sys_inv k ct H (consumer_next s)"
      using I CReload cursor_empty_test [OF I(3), of T H]
      by (intro spsc_sys_invI) (auto simp: consumer_next_def)
    then show ?thesis ..
  next
    case (CRead t)
    have "spsc_sys_inv k ct ch (consumer_next s)"
      using I CRead by (intro spsc_sys_invI) (auto simp: consumer_next_def slot_of_cursor)
    then show ?thesis ..
  next
    case (CRetire t r)
    have "T < H" using I CRetire by simp
    then have "spsc_sys_inv k ct ch (consumer_next s)"
      using I CRetire
      by (intro spsc_sys_invI) (auto simp: consumer_next_def take_Suc_conv_app_nth)
    then show ?thesis ..
  qed
qed

lemma spsc_start_inv:
  assumes "spsc_init sizeof_T mem bytes (2 ^ k) old = Some (m, v)" and "k < 64" and "length old = 2 ^ k"
  shows "spsc_sys_inv k 0 0 (spsc_start m)"
proof -
  have "is_pow2 (2 ^ k)" using assms(1) by (auto simp: spsc_init_def split: if_splits)
  then have "0 < k" by (cases k) (auto simp: is_pow2_def word_le_nat_alt)
  with assms show ?thesis
    by (intro spsc_sys_invI)
      (auto simp: spsc_start_def spsc_init_def spsc_valid_geometry_def spsc_new_view_def split: if_splits)
qed

lemma spsc_reachable_inv: "spsc_reachable k s \<Longrightarrow> \<exists>ct ch. spsc_sys_inv k ct ch s"
proof (induction rule: spsc_reachable.induct)
  case (start sizeof_T mem bytes old m v)
  then show ?case using spsc_start_inv by blast
next
  case (step s s')
  then obtain ct ch where inv: "spsc_sys_inv k ct ch s" by blast
  from step(2) show ?case
    by (cases rule: spsc_step.cases)
      (use producer_next_inv [OF inv] consumer_next_inv [OF inv] in blast)+
qed

section \<open>A side that runs alone\<close>

lemma spsc_store_twice: "spsc_store y h (spsc_store z h m) = spsc_store y h m"
  by (simp add: spsc_store_def)

lemma producer_alone:
  assumes "sys_ppc s = PIdle" and "spsc_try_push (Some x) (sys_mem s) (sys_pview s) = (b, m, v)"
  shows "\<exists>n\<le>5. (producer_next x ^^ n) s =
           s\<lparr>sys_mem := m, sys_pview := v, sys_pushed := sys_pushed s @ (if b then [x] else [])\<rparr>"
proof -
  let ?m = "sys_mem s"
  let ?full = "\<lambda>t. sq_capacity ?m \<le> sq_head ?m - t"
  let ?n = "if \<not> ?full (cached_tail (sys_pview s)) then 4 else if ?full (sq_tail ?m) then 2 else 5"
  have "(producer_next x ^^ ?n) s =
           s\<lparr>sys_mem := m, sys_pview := v, sys_pushed := sys_pushed s @ (if b then [x] else [])\<rparr>"
    using assms
    by (auto simp: eval_nat_numeral producer_next_def spsc_try_push_def Let_def spsc_store_twice split: if_splits)
  then show ?thesis by (intro exI [of _ ?n]) auto
qed

lemma consumer_alone:
  assumes "sys_cpc s = CIdle" and "spsc_try_pop (sys_mem s) (sys_cview s) = (r, m, v)"
  shows "\<exists>n\<le>4. (consumer_next ^^ n) s =
           s\<lparr>sys_mem := m, sys_cview := v,
             sys_popped := sys_popped s @ (case r of None \<Rightarrow> [] | Some y \<Rightarrow> [y])\<rparr>"
proof -
  let ?m = "sys_mem s"
  let ?n = "if sq_tail ?m \<noteq> cached_head (sys_cview s) then 3 else if sq_tail ?m = sq_head ?m then 2 else 4"
  have "(consumer_next ^^ ?n) s =
           s\<lparr>sys_mem := m, sys_cview := v,
             sys_popped := sys_popped s @ (case r of None \<Rightarrow> [] | Some y \<Rightarrow> [y])\<rparr>"
    using assms
    by (auto simp: eval_nat_numeral consumer_next_def spsc_try_pop_def Let_def split: if_splits)
  then show ?thesis by (intro exI [of _ ?n]) auto
qed

section \<open>Schedules\<close>

lemma spsc_run_reachable: "spsc_reachable k s \<Longrightarrow> spsc_reachable k (spsc_run sched s)"
  by (induction sched s rule: spsc_run.induct) (auto intro: spsc_reachable.step spsc_step.intros)

lemma spsc_demo_reachable: "spsc_reachable 1 (spsc_demo sched)"
proof -
  have "spsc_init 8 64 208 (2 ^ 1) [None, None] = Some (spsc_demo_mem, spsc_new_view)"
    by (simp add: spsc_demo_mem_def spsc_init_def is_pow2_def aligned_def ANIMUS_CACHE_LINE_SIZE_def
        spsc_required_bytes_def sizeof_SpscQueueHeader_def)
  then have "spsc_reachable 1 (spsc_start spsc_demo_mem)" by (rule spsc_reachable.start) simp_all
  then show ?thesis unfolding spsc_demo_def by (rule spsc_run_reachable)
qed

lemmas spsc_demo_simps = spsc_demo_def spsc_start_def spsc_demo_mem_def spsc_init_def is_pow2_def
  aligned_def ANIMUS_CACHE_LINE_SIZE_def spsc_required_bytes_def sizeof_SpscQueueHeader_def
  spsc_new_view_def producer_next_def consumer_next_def spsc_store_def spsc_try_push_def spsc_try_pop_def

section \<open>Theorems\<close>

text \<open>
  C1: in every interleaving of the producer's and the consumer's memory accesses,
  the values the consumer has returned are exactly the first values published,
  whole and in order (none is torn, lost, duplicated or invented), and the queue
  never holds more than its capacity.
\<close>

theorem spsc_lossless_fifo:
  assumes "spsc_reachable k s"
  shows "sys_popped s = map Some (take (length (sys_popped s)) (sys_pushed s)) \<and>
         length (sys_popped s) \<le> length (sys_pushed s) \<and>
         length (sys_pushed s) \<le> length (sys_popped s) + 2 ^ k"
proof -
  obtain ct ch where "spsc_sys_inv k ct ch s" using spsc_reachable_inv [OF assms] by blast
  note I = spsc_sys_invD [OF this]
  show ?thesis using I(7,8,10,11) by (intro conjI I(12)) linarith+
qed

theorem spsc_lossless_fifo_witness:
  "\<exists>s. spsc_reachable 1 s \<and> sys_pushed s = [7, 9::nat] \<and> sys_popped s = [Some 7] \<and>
       sys_popped s = map Some (take (length (sys_popped s)) (sys_pushed s)) \<and>
       length (sys_pushed s) \<le> length (sys_popped s) + 2 ^ 1"
proof -
  let ?sched = "replicate 4 (Producer 7) @ replicate 4 Consumer @ replicate 4 (Producer 9)"
  let ?s = "spsc_demo ?sched"
  have "sys_pushed ?s = [7, 9]" "sys_popped ?s = [Some 7]"
    by code_simp+
  then show ?thesis
    using spsc_lossless_fifo [OF spsc_demo_reachable [of ?sched]] spsc_demo_reachable [of ?sched]
    by (intro exI [of _ ?s]) blast
qed

text \<open>
  C2: the producer never writes the slot the consumer is reading: whenever the
  producer is about to overwrite or is overwriting a slot and the consumer is
  about to copy one, the two slot indices differ.
\<close>

theorem spsc_race_free:
  assumes "spsc_reachable k s"
    and "sys_ppc s = PWrite x h \<or> sys_ppc s = PWriting x h" and "sys_cpc s = CRead t"
  shows "unat (h AND sq_mask (sys_mem s)) \<noteq> unat (t AND sq_mask (sys_mem s))"
proof -
  obtain ct ch where "spsc_sys_inv k ct ch s" using spsc_reachable_inv [OF assms(1)] by blast
  note I = spsc_sys_invD [OF this]
  let ?H = "length (sys_pushed s)" and ?T = "length (sys_popped s)"
  have "h = of_nat ?H" "?H < ct + 2 ^ k" "t = of_nat ?T" "?T < ?H"
    using I(11,14,15) assms(2,3) by auto
  moreover have "?T mod 2 ^ k \<noteq> ?H mod 2 ^ k"
    using calculation I(7) by (intro mod_neq_within) linarith+
  ultimately show ?thesis using I(3,17) by (simp add: slot_of_cursor)
qed

theorem spsc_race_free_witness:
  "\<exists>s. spsc_reachable 1 s \<and> sys_ppc s = PWrite (9::nat) 1 \<and> sys_cpc s = CRead 0 \<and>
       unat (1 AND sq_mask (sys_mem s)) \<noteq> unat (0 AND sq_mask (sys_mem s))"
proof -
  let ?sched = "replicate 4 (Producer 7) @ replicate 2 Consumer @ [Producer 9]"
  let ?s = "spsc_demo ?sched"
  have "sys_ppc ?s = PWrite 9 1" "sys_cpc ?s = CRead 0"
    by code_simp+
  then show ?thesis
    using spsc_race_free [OF spsc_demo_reachable [of ?sched]] spsc_demo_reachable [of ?sched]
    by (intro exI [of _ ?s]) blast
qed

text \<open>
  A refusal is truthful. When the producer re-reads the tail, it gives up
  exactly when the queue holds a full capacity of unread records at that instant;
  when the consumer re-reads the head, it gives up exactly when every published
  record has been returned.
\<close>

theorem spsc_refusal_exact:
  assumes "spsc_reachable k s"
  shows "(\<forall>x h. sys_ppc s = PReload x h \<longrightarrow>
            (sys_ppc (producer_next v s) = PIdle \<longleftrightarrow> length (sys_pushed s) = length (sys_popped s) + 2 ^ k)) \<and>
         (\<forall>t. sys_cpc s = CReload t \<longrightarrow>
            (sys_cpc (consumer_next s) = CIdle \<longleftrightarrow> length (sys_popped s) = length (sys_pushed s)))"
proof -
  obtain ct ch where "spsc_sys_inv k ct ch s" using spsc_reachable_inv [OF assms] by blast
  note I = spsc_sys_invD [OF this]
  let ?H = "length (sys_pushed s)" and ?T = "length (sys_popped s)"
  have le: "?T \<le> ?H" "?H \<le> ?T + 2 ^ k" using I(7,8,10,11) by linarith+
  note full = cursor_full_test [OF I(3) le] and empty = cursor_empty_test [OF I(3) le]
  show ?thesis
  proof (intro conjI allI impI)
    fix x h assume "sys_ppc s = PReload x h"
    with I(14) show "sys_ppc (producer_next v s) = PIdle \<longleftrightarrow> ?H = ?T + 2 ^ k"
      by (simp add: producer_next_def Let_def I(5,16) full)
  next
    fix t assume "sys_cpc s = CReload t"
    with I(15) show "sys_cpc (consumer_next s) = CIdle \<longleftrightarrow> ?T = ?H"
      by (simp add: consumer_next_def Let_def I(4) empty)
  qed
qed

theorem spsc_refusal_exact_witness:
  "\<exists>s. spsc_reachable 1 s \<and> sys_ppc s = PReload (5::nat) 2 \<and> sys_ppc (producer_next 0 s) = PIdle \<and>
       length (sys_pushed s) = length (sys_popped s) + 2 ^ 1"
proof -
  let ?sched = "replicate 4 (Producer 7) @ replicate 4 (Producer 9) @ [Producer 5]"
  let ?s = "spsc_demo ?sched"
  have "sys_ppc ?s = PReload 5 2" "length (sys_pushed ?s) = length (sys_popped ?s) + 2 ^ 1"
    by code_simp+
  then show ?thesis
    using spsc_refusal_exact [OF spsc_demo_reachable [of ?sched], of 0]
      spsc_demo_reachable [of ?sched]
    by (intro exI [of _ ?s]) blast
qed

text \<open>
  the single accesses are the operations: a producer left alone finishes its
  call in at most five accesses with the memory, view and verdict of
  \<^verbatim>\<open>try_push\<close>, and a consumer left alone finishes in at most four with those of
  \<^verbatim>\<open>try_pop\<close>.
\<close>

theorem spsc_steps_compose:
  "(sys_ppc s = PIdle \<longrightarrow> spsc_try_push (Some x) (sys_mem s) (sys_pview s) = (b, m, v) \<longrightarrow>
      (\<exists>n\<le>5. (producer_next x ^^ n) s =
         s\<lparr>sys_mem := m, sys_pview := v, sys_pushed := sys_pushed s @ (if b then [x] else [])\<rparr>)) \<and>
   (sys_cpc s = CIdle \<longrightarrow> spsc_try_pop (sys_mem s) (sys_cview s) = (r, m, v) \<longrightarrow>
      (\<exists>n\<le>4. (consumer_next ^^ n) s =
         s\<lparr>sys_mem := m, sys_cview := v,
           sys_popped := sys_popped s @ (case r of None \<Rightarrow> [] | Some y \<Rightarrow> [y])\<rparr>))"
  by (intro conjI impI) (erule (1) producer_alone, erule (1) consumer_alone)

theorem spsc_steps_compose_witness:
  "\<exists>n\<le>5. sys_pushed ((producer_next (7::nat) ^^ n) (spsc_demo [])) = [7]"
proof -
  obtain m v where p: "spsc_try_push (Some 7) (sys_mem (spsc_demo [])) (sys_pview (spsc_demo [])) = (True, m, v)"
    by (simp add: spsc_demo_simps)
  have "sys_ppc (spsc_demo []) = PIdle" "sys_pushed (spsc_demo []) = []" by (simp_all add: spsc_demo_simps)
  with spsc_steps_compose [of "spsc_demo []" 7 True m v] p show ?thesis by fastforce
qed

end
