(* ===== verification/Slot_Store.thy ===== *)
theory Slot_Store
  imports Prelude
begin

text \<open>
  Slots that are copied a unit (a byte or an atomic word) at a time while another
  process may be copying the same slot. A record is the list of its units. The
  log lists every record whose write has begun; write number \<^term>\<open>w\<close> recycles the
  slot of record \<^term>\<open>w - c\<close>, so a copy of record \<^term>\<open>i\<close> can be trusted exactly as
  long as write \<^term>\<open>i + c\<close> has not begun. Shared by the broadcast rings and by the
  overwrite mode of the shared-memory ring.
\<close>

definition store_unit :: "nat \<Rightarrow> nat \<Rightarrow> 'b \<Rightarrow> 'b list list \<Rightarrow> 'b list list" where
  "store_unit i j b slots = slots[i := (slots ! i)[j := b]]"

definition load_unit :: "nat \<Rightarrow> nat \<Rightarrow> 'b list list \<Rightarrow> 'b" where
  "load_unit i j slots = slots ! i ! j"

text \<open>A copy buffer: a unit not copied yet is \<^term>\<open>None\<close>.\<close>

definition blank :: "nat \<Rightarrow> nat \<Rightarrow> 'b option list list" where
  "blank n sz = replicate n (replicate sz None)"

definition put_unit :: "nat \<Rightarrow> nat \<Rightarrow> 'b \<Rightarrow> 'b option list list \<Rightarrow> 'b option list list" where
  "put_unit i j b buf = buf[i := (buf ! i)[j := Some b]]"

definition full_copy :: "'b option list list \<Rightarrow> bool" where
  "full_copy buf \<longleftrightarrow> list_all (list_all (\<lambda>u. u \<noteq> None)) buf"

definition copy_result :: "'b option list list \<Rightarrow> 'b list list" where
  "copy_result buf = map (map the) buf"

section \<open>Invariants of slots and of copies\<close>

definition slots_wf :: "nat \<Rightarrow> nat \<Rightarrow> 'b list list \<Rightarrow> bool" where
  "slots_wf c sz slots \<longleftrightarrow> 0 < c \<and> length slots = c \<and> (\<forall>s<c. length (slots ! s) = sz)"

text \<open>The first \<^term>\<open>n\<close> records are complete; those not yet being recycled are intact.\<close>

definition stored :: "nat \<Rightarrow> 'b list list \<Rightarrow> nat \<Rightarrow> 'b list list \<Rightarrow> bool" where
  "stored c log n slots \<longleftrightarrow> (\<forall>i<n. length log \<le> i + c \<longrightarrow> slots ! (i mod c) = log ! i)"

text \<open>The units in \<^term>\<open>D\<close> of record \<^term>\<open>w\<close> have been stored.\<close>

definition partial :: "nat \<Rightarrow> nat \<Rightarrow> 'b list \<Rightarrow> nat set \<Rightarrow> 'b list list \<Rightarrow> bool" where
  "partial c w v D slots \<longleftrightarrow> (\<forall>j\<in>D. j < length v \<longrightarrow> slots ! (w mod c) ! j = v ! j)"

text \<open>Every copied unit is the right one, or the slot's recycling has begun.\<close>

definition copied :: "nat \<Rightarrow> nat \<Rightarrow> 'b list list \<Rightarrow> nat \<Rightarrow> 'b option list list \<Rightarrow> bool" where
  "copied c sz log first buf \<longleftrightarrow>
     (\<forall>i<length buf. length (buf ! i) = sz \<and>
        (\<forall>j < sz. \<forall>b. buf ! i ! j = Some b \<longrightarrow> first + i + c < length log \<or> b = log ! (first + i) ! j))"

lemma slots_wf_store: "slots_wf c sz slots \<Longrightarrow> slots_wf c sz (store_unit i j b slots)"
  by (cases "i < length slots") (auto simp: slots_wf_def store_unit_def nth_list_update)

lemma stored_begin: "stored c log n slots \<Longrightarrow> n \<le> length log \<Longrightarrow> stored c (log @ [v]) n slots"
  by (auto simp: stored_def nth_append)

lemma stored_store:
  assumes "stored c log n slots" and "n \<le> w" and "length log = Suc w"
  shows "stored c log n (store_unit (w mod c) j b slots)"
  unfolding stored_def
proof (intro allI impI)
  fix i assume i: "i < n" "length log \<le> i + c"
  then have "i mod c \<noteq> w mod c" using assms(2,3) by (intro mod_neq_within) linarith+
  with assms(1) i show "store_unit (w mod c) j b slots ! (i mod c) = log ! i"
    by (simp add: stored_def store_unit_def)
qed

lemma partial_store:
  assumes "partial c w v D slots" and "slots_wf c sz slots" and "length v = sz" and "j < sz"
  shows "partial c w v (insert j D) (store_unit (w mod c) j (v ! j) slots)"
  using assms by (auto simp: partial_def store_unit_def slots_wf_def nth_list_update)

lemma stored_finish:
  assumes "stored c log w slots" and "partial c w v D slots" and "{..< sz} \<subseteq> D"
    and "slots_wf c sz slots" and "length v = sz" and "log ! w = v"
  shows "stored c log (Suc w) slots"
proof -
  have "slots ! (w mod c) = v"
    using assms by (intro nth_equalityI) (auto simp: partial_def slots_wf_def)
  with assms(1,6) show ?thesis by (auto simp: stored_def less_Suc_eq)
qed

lemma copied_blank: "copied c sz log first (blank n sz)"
  by (simp add: copied_def blank_def)

lemma copied_begin:
  "copied c sz log first buf \<Longrightarrow> first + length buf \<le> length log \<Longrightarrow> copied c sz (log @ [v]) first buf"
  by (fastforce simp: copied_def nth_append)

lemma copied_load:
  assumes "copied c sz log first buf" and "stored c log n slots" and "first + length buf \<le> n"
    and "i < length buf" and "j < sz"
  shows "copied c sz log first (put_unit i j (load_unit ((first + i) mod c) j slots) buf)"
proof -
  have "first + i + c < length log \<or> slots ! ((first + i) mod c) = log ! (first + i)"
    using assms(2) [unfolded stored_def, rule_format, of "first + i"] assms(3,4) by linarith
  with assms(1,4,5) show ?thesis
    by (auto simp: copied_def put_unit_def load_unit_def nth_list_update split: if_splits)
qed

lemma length_put_unit [simp]: "length (put_unit i j b buf) = length buf"
  by (simp add: put_unit_def)

lemma length_blank [simp]: "length (blank n sz) = n"
  by (simp add: blank_def)

lemma length_copy_result [simp]: "length (copy_result buf) = length buf"
  by (simp add: copy_result_def)

lemma copy_result_nth:
  assumes "copied c sz log first buf" and "full_copy buf" and "i < length buf"
    and "length log \<le> first + i + c" and "length (log ! (first + i)) = sz"
  shows "copy_result buf ! i = log ! (first + i)"
proof (rule nth_equalityI)
  show "length (copy_result buf ! i) = length (log ! (first + i))"
    using assms by (simp add: copy_result_def copied_def)
  fix j assume "j < length (copy_result buf ! i)"
  then have j: "j < sz" "j < length (buf ! i)" using assms(1,3) by (simp_all add: copy_result_def copied_def)
  then obtain b where b: "buf ! i ! j = Some b"
    using assms(2,3) by (fastforce simp: full_copy_def list_all_length)
  then have "first + i + c < length log \<or> b = log ! (first + i) ! j"
    using assms(1,3) j(1) unfolding copied_def by blast
  with assms(3,4) b j show "copy_result buf ! i ! j = log ! (first + i) ! j"
    by (simp add: copy_result_def)
qed

end
