(* ===== verification/Lossy_Ring.thy ===== *)
theory Lossy_Ring
  imports Slot_Store
begin

text \<open>
  The contract of a lossy one-writer many-reader ring, as an abstract machine
  over natural numbers: the writer never waits, each reader keeps its own read
  position, snaps forward when it has fallen out of the window, and discards the
  part of a copied batch whose slots were recycled meanwhile. The machine is
  nondeterministic where the rings differ (the window and the bound a reader
  computes from its second look at the writer's counters). \<^verbatim>\<open>BroadcastRing\<close> and
  \<^verbatim>\<open>SpmcRing\<close> are proved to refine it in their own theories.
\<close>

datatype 'b lreader_pc = LIdle | LCopy "'b option list list"

text \<open>\<^verbatim>\<open>lr_got\<close> lists what the reader has returned, with the number of each record.\<close>

record 'b lreader =
  lr_read :: nat
  lr_dropped :: nat
  lr_pc :: "'b lreader_pc"
  lr_got :: "(nat \<times> 'b list) list"

record 'b lossy =
  l_log :: "'b list list"
  l_pub :: nat
  l_slots :: "'b list list"
  l_writing :: "nat set option"
  l_readers :: "nat \<Rightarrow> 'b lreader"

definition l_snap :: "nat \<Rightarrow> nat \<Rightarrow> nat \<Rightarrow> nat" where
  "l_snap W P R = max R (P - W)"

definition l_poll :: "nat \<Rightarrow> nat \<Rightarrow> nat \<Rightarrow> nat \<Rightarrow> 'b lreader \<Rightarrow> 'b lreader" where
  "l_poll W sz P m r =
     (let R = l_snap W P (lr_read r); n = min (P - R) m
      in r\<lparr>lr_read := R, lr_dropped := lr_dropped r + (R - lr_read r),
           lr_pc := (if n = 0 then LIdle else LCopy (blank n sz))\<rparr>)"

definition l_finish :: "nat \<Rightarrow> 'b option list list \<Rightarrow> 'b lreader \<Rightarrow> 'b lreader" where
  "l_finish intact buf r =
     (let first = lr_read r; n = length buf; lost = min n (intact - first)
      in r\<lparr>lr_read := first + n, lr_dropped := lr_dropped r + lost, lr_pc := LIdle,
           lr_got := lr_got r @ map (\<lambda>i. (first + i, copy_result buf ! i)) [lost..<n]\<rparr>)"

inductive lossy_step :: "nat \<Rightarrow> nat \<Rightarrow> nat \<Rightarrow> 'b lossy \<Rightarrow> 'b lossy \<Rightarrow> bool" for c W sz where
  begin_write: "l_writing s = None \<Longrightarrow> length v = sz \<Longrightarrow>
     lossy_step c W sz s (s\<lparr>l_log := l_log s @ [v], l_writing := Some {}\<rparr>)"
| store_unit: "l_writing s = Some D \<Longrightarrow> j < sz \<Longrightarrow>
     lossy_step c W sz s
       (s\<lparr>l_slots := store_unit (l_pub s mod c) j (l_log s ! l_pub s ! j) (l_slots s),
          l_writing := Some (insert j D)\<rparr>)"
| publish: "l_writing s = Some D \<Longrightarrow> {..< sz} \<subseteq> D \<Longrightarrow>
     lossy_step c W sz s (s\<lparr>l_pub := Suc (l_pub s), l_writing := None\<rparr>)"
| poll: "lr_pc (l_readers s r) = LIdle \<Longrightarrow>
     lossy_step c W sz s
       (s\<lparr>l_readers := (l_readers s)(r := l_poll W sz (l_pub s) m (l_readers s r))\<rparr>)"
| load_unit: "lr_pc (l_readers s r) = LCopy buf \<Longrightarrow> i < length buf \<Longrightarrow> j < sz \<Longrightarrow>
     lossy_step c W sz s
       (s\<lparr>l_readers := (l_readers s)(r := (l_readers s r)\<lparr>lr_pc :=
          LCopy (put_unit i j (load_unit ((lr_read (l_readers s r) + i) mod c) j (l_slots s)) buf)\<rparr>)\<rparr>)"
| finish: "lr_pc (l_readers s r) = LCopy buf \<Longrightarrow> full_copy buf \<Longrightarrow>
     length (l_log s) \<le> intact + c \<Longrightarrow> intact \<le> l_pub s + 1 - c \<Longrightarrow>
     lossy_step c W sz s (s\<lparr>l_readers := (l_readers s)(r := l_finish intact buf (l_readers s r))\<rparr>)"
| skip: "lossy_step c W sz s s"

definition lossy_start :: "'b list list \<Rightarrow> 'b lossy" where
  "lossy_start slots = \<lparr>l_log = [], l_pub = 0, l_slots = slots, l_writing = None,
     l_readers = (\<lambda>_. \<lparr>lr_read = 0, lr_dropped = 0, lr_pc = LIdle, lr_got = []\<rparr>)\<rparr>"

section \<open>Invariant\<close>

definition lwriter_inv :: "nat \<Rightarrow> nat \<Rightarrow> 'b lossy \<Rightarrow> bool" where
  "lwriter_inv c sz s \<longleftrightarrow> slots_wf c sz (l_slots s) \<and> (\<forall>v\<in>set (l_log s). length v = sz) \<and>
     stored c (l_log s) (l_pub s) (l_slots s) \<and>
     (case l_writing s of
        None \<Rightarrow> length (l_log s) = l_pub s
      | Some D \<Rightarrow> length (l_log s) = Suc (l_pub s) \<and> partial c (l_pub s) (l_log s ! l_pub s) D (l_slots s))"

definition lgot_inv :: "nat \<Rightarrow> 'b list list \<Rightarrow> nat \<Rightarrow> 'b lreader \<Rightarrow> bool" where
  "lgot_inv c log P r \<longleftrightarrow>
     sorted_wrt (<) (map fst (lr_got r)) \<and>
     (\<forall>(i, v)\<in>set (lr_got r). i < lr_read r \<and> v = log ! i) \<and>
     length (lr_got r) + lr_dropped r = lr_read r \<and> lr_read r \<le> P \<and>
     (\<forall>i<lr_read r. i \<in> fst ` set (lr_got r) \<or> i + c \<le> P)"

definition lreader_inv :: "nat \<Rightarrow> nat \<Rightarrow> 'b list list \<Rightarrow> nat \<Rightarrow> 'b lreader \<Rightarrow> bool" where
  "lreader_inv c sz log P r \<longleftrightarrow> lgot_inv c log P r \<and>
     (case lr_pc r of
        LIdle \<Rightarrow> True
      | LCopy buf \<Rightarrow> lr_read r + length buf \<le> P \<and> copied c sz log (lr_read r) buf)"

definition lossy_inv :: "nat \<Rightarrow> nat \<Rightarrow> 'b lossy \<Rightarrow> bool" where
  "lossy_inv c sz s \<longleftrightarrow>
     lwriter_inv c sz s \<and> (\<forall>r. lreader_inv c sz (l_log s) (l_pub s) (l_readers s r))"

lemma lwriter_inv_readers [simp]: "lwriter_inv c sz (s\<lparr>l_readers := rs\<rparr>) = lwriter_inv c sz s"
  by (simp add: lwriter_inv_def cong: option.case_cong)

lemma lwriter_inv_pub: "lwriter_inv c sz s \<Longrightarrow> l_pub s \<le> length (l_log s) \<and> length (l_log s) \<le> Suc (l_pub s)"
  by (auto simp: lwriter_inv_def split: option.splits)

lemma lgot_inv_mono:
  assumes "lgot_inv c log P r" and "P \<le> length log" and "P \<le> P'"
  shows "lgot_inv c (log @ vs) P' r"
  using assms by (fastforce simp: lgot_inv_def nth_append)

lemma lreader_inv_publish: "lreader_inv c sz log P r \<Longrightarrow> P \<le> length log \<Longrightarrow> lreader_inv c sz log (Suc P) r"
  using lgot_inv_mono [of c log P r "Suc P" "[]"]
  by (auto simp: lreader_inv_def split: lreader_pc.splits)

lemma lreader_inv_begin:
  "lreader_inv c sz log P r \<Longrightarrow> P \<le> length log \<Longrightarrow> lreader_inv c sz (log @ [v]) P r"
  using lgot_inv_mono [of c log P r P "[v]"] copied_begin [of c sz log "lr_read r" _ v]
  by (auto simp: lreader_inv_def split: lreader_pc.splits)

lemma l_poll_inv:
  assumes "lreader_inv c sz log P r" and "c \<le> Suc W"
  shows "lreader_inv c sz log P (l_poll W sz P m r)"
proof -
  let ?R = "l_snap W P (lr_read r)"
  have R: "lr_read r \<le> ?R" "?R \<le> P" "\<And>i. lr_read r \<le> i \<Longrightarrow> i < ?R \<Longrightarrow> i + c \<le> P"
    using assms by (auto simp: lreader_inv_def lgot_inv_def l_snap_def max_def split: if_splits)
  have got: "i \<in> fst ` set (lr_got r) \<or> i + c \<le> P" if "i < ?R" for i
    using that R(3) [of i] assms(1) by (cases "i < lr_read r") (auto simp: lreader_inv_def lgot_inv_def)
  have "lgot_inv c log P (l_poll W sz P m r)"
    using assms(1) R(1,2) got by (fastforce simp: lreader_inv_def lgot_inv_def l_poll_def Let_def)
  moreover have "?R + min (P - ?R) m \<le> P" using R(2) by linarith
  ultimately show ?thesis
    by (simp add: lreader_inv_def l_poll_def Let_def copied_blank)
qed

lemma l_finish_inv:
  assumes inv: "lreader_inv c sz log P r" and pc: "lr_pc r = LCopy buf" and full: "full_copy buf"
    and log: "length log \<le> intact + c" "intact \<le> P + 1 - c" "\<forall>v\<in>set log. length v = sz" "P \<le> length log"
  shows "lreader_inv c sz log P (l_finish intact buf r)"
proof -
  let ?R = "lr_read r" and ?n = "length buf"
  let ?lost = "min ?n (intact - ?R)"
  let ?new = "map (\<lambda>i. (?R + i, copy_result buf ! i)) [?lost..<?n]"
  have g: "lgot_inv c log P r" and le: "?R + ?n \<le> P" and cp: "copied c sz log ?R buf"
    using inv pc by (auto simp: lreader_inv_def)
  have val: "copy_result buf ! i = log ! (?R + i)" if "?lost \<le> i" "i < ?n" for i
    using that le log by (intro copy_result_nth [OF cp full]) auto
  have "sorted_wrt (<) (map fst (lr_got r @ ?new))"
    using g by (auto simp: lgot_inv_def sorted_wrt_append sorted_wrt_map comp_def intro!: sorted_wrt_mono_rel [OF _ sorted_wrt_upt])
  moreover have "\<forall>(i, v)\<in>set (lr_got r @ ?new). i < ?R + ?n \<and> v = log ! i"
    using g val by (fastforce simp: lgot_inv_def)
  moreover have "i \<in> fst ` set (lr_got r @ ?new) \<or> i + c \<le> P" if "i < ?R + ?n" for i
  proof (cases "i < ?R")
    case True
    with g show ?thesis by (auto simp: lgot_inv_def)
  next
    case False
    show ?thesis
    proof (cases "i - ?R < ?lost")
      case True
      then have "i < intact" using False by linarith
      with log(2) show ?thesis by linarith
    next
      case lost: False
      then have "(i, copy_result buf ! (i - ?R)) \<in> set ?new" using that False by (auto intro!: image_eqI [of _ _ "i - ?R"])
      then show ?thesis by force
    qed
  qed
  ultimately show ?thesis using g le
    by (simp add: lreader_inv_def l_finish_def Let_def lgot_inv_def)
qed

lemma lossy_start_inv: "slots_wf c sz slots \<Longrightarrow> lossy_inv c sz (lossy_start slots)"
  by (auto simp: lossy_inv_def lossy_start_def lwriter_inv_def stored_def lreader_inv_def lgot_inv_def)

lemma lossy_step_inv:
  assumes "lossy_step c W sz s s'" and "lossy_inv c sz s" and "c \<le> Suc W"
  shows "lossy_inv c sz s'"
proof -
  note w = assms(2) [unfolded lossy_inv_def, THEN conjunct1]
  note rd = assms(2) [unfolded lossy_inv_def, THEN conjunct2, rule_format]
  note wI = w [unfolded lwriter_inv_def]
  have le: "l_pub s \<le> length (l_log s)" using lwriter_inv_pub [OF w] by simp
  from assms(1) show ?thesis
  proof cases
    case (begin_write v)
    have "lwriter_inv c sz s'" using wI begin_write le
      by (auto simp: lwriter_inv_def stored_begin partial_def)
    then show ?thesis using rd le begin_write by (simp add: lossy_inv_def lreader_inv_begin)
  next
    case (store_unit D j)
    have "length (l_log s ! l_pub s) = sz" using wI store_unit by (auto intro: nth_mem)
    then have "lwriter_inv c sz s'" using wI store_unit
      by (auto simp: lwriter_inv_def slots_wf_store stored_store partial_store)
    then show ?thesis using rd store_unit by (simp add: lossy_inv_def)
  next
    case (publish D)
    have "length (l_log s ! l_pub s) = sz" using wI publish by (auto intro: nth_mem)
    then have "lwriter_inv c sz s'" using wI publish by (auto simp: lwriter_inv_def stored_finish)
    then show ?thesis using rd le publish by (simp add: lossy_inv_def lreader_inv_publish)
  next
    case (poll r m)
    then show ?thesis using assms(2,3) rd by (simp add: lossy_inv_def l_poll_inv)
  next
    case (load_unit r buf i j)
    have "copied c sz (l_log s) (lr_read (l_readers s r)) buf" "lr_read (l_readers s r) + length buf \<le> l_pub s"
      using rd [of r] load_unit by (auto simp: lreader_inv_def)
    with copied_load [of c sz "l_log s" "lr_read (l_readers s r)" buf "l_pub s" "l_slots s" i j] load_unit wI
    show ?thesis using rd w by (simp add: lossy_inv_def lreader_inv_def lgot_inv_def)
  next
    case (finish r buf intact)
    then show ?thesis using assms(2) rd wI le by (simp add: lossy_inv_def l_finish_inv)
  next
    case skip
    then show ?thesis using assms(2) by simp
  qed
qed

section \<open>Polls in machine arithmetic\<close>

text \<open>
  The snap forward and the count of lost records as the rings compute them on
  64-bit words: exact as long as the reader is not ahead of the writer.
\<close>

lemma l_snap_words:
  fixes c R d W :: u64
  assumes le: "unat R \<le> unat c" "unat d \<le> unat R"
    and R': "R' = (if W < c - R then c - W else R)"
    and d': "d' = (if W < c - R then d + ((c - W) - R) else d)"
  shows "unat R' = l_snap (unat W) (unat c) (unat R) \<and> unat d' = unat d + (unat R' - unat R) \<and>
         unat (c - R') = unat c - unat R' \<and> unat R' \<le> unat c \<and> unat d' \<le> unat R'"
proof -
  have diff: "unat (c - R) = unat c - unat R" using le(1) by (rule unat_sub64)
  show ?thesis
  proof (cases "W < c - R")
    case True
    then have lt: "unat W < unat c - unat R" by (simp add: word_less_nat_alt diff)
    then have snap: "unat (c - W) = unat c - unat W" by (intro unat_sub64) linarith
    have skip: "unat ((c - W) - R) = unat c - unat W - unat R"
      using lt by (subst unat_sub64) (simp_all add: snap)
    have "unat d + (unat c - unat W - unat R) < 2 ^ 64" using le unat_u64_less [of c] by linarith
    then have "unat (d + ((c - W) - R)) = unat d + (unat c - unat W - unat R)"
      unfolding skip [symmetric] by (rule unat_add64)
    moreover have "unat (c - (c - W)) = unat c - (unat c - unat W)"
      by (subst unat_sub64) (simp_all only: snap diff_le_self)
    ultimately show ?thesis using True lt snap le by (simp add: R' d' l_snap_def)
  next
    case False
    then have "\<not> unat W < unat c - unat R" by (simp add: word_less_nat_alt diff)
    then have "l_snap (unat W) (unat c) (unat R) = unat R" by (simp add: l_snap_def)
    with False diff le show ?thesis by (simp add: R' d')
  qed
qed

lemma l_count_words:
  "unat (if a < m then a else m :: u64) = min (unat a) (unat m)"
  by (simp add: word_less_nat_alt)

lemma l_lost_words:
  "unat (if first < I then (if I - first < n then I - first else n) else 0 :: u64) = min (unat n) (unat I - unat first)"
  by (auto simp: word_less_nat_alt unat_sub64 less_imp_le)

section \<open>What a refinement inherits\<close>

text \<open>
  A concrete ring refines the machine when its steps, on states that are locally
  well formed and while its counters have not wrapped, are steps of the machine.
\<close>

locale lossy_refinement =
  fixes c W sz :: nat
    and step :: "'s \<Rightarrow> 's \<Rightarrow> bool"
    and abs :: "'s \<Rightarrow> 'b lossy"
    and ok start bounded :: "'s \<Rightarrow> bool"
  assumes window: "c \<le> Suc W"
    and start_ok: "start s \<Longrightarrow> ok s \<and> lossy_inv c sz (abs s)"
    and bounded_back: "step s s' \<Longrightarrow> bounded s' \<Longrightarrow> bounded s"
    and simulates: "step s s' \<Longrightarrow> ok s \<Longrightarrow> lossy_inv c sz (abs s) \<Longrightarrow> bounded s' \<Longrightarrow>
           ok s' \<and> lossy_step c W sz (abs s) (abs s')"
begin

lemma reachable_inv:
  "step\<^sup>*\<^sup>* s0 s \<Longrightarrow> start s0 \<Longrightarrow> bounded s \<Longrightarrow> ok s \<and> lossy_inv c sz (abs s)"
proof (induction rule: rtranclp_induct)
  case base
  then show ?case using start_ok by blast
next
  case (step s s')
  then have "ok s \<and> lossy_inv c sz (abs s)" using bounded_back by blast
  with step simulates lossy_step_inv [OF _ _ window] show ?case by blast
qed

lemma reader_safe:
  assumes "step\<^sup>*\<^sup>* s0 s" and "start s0" and "bounded s"
  shows "lgot_inv c (l_log (abs s)) (l_pub (abs s)) (l_readers (abs s) r)"
  using reachable_inv [OF assms] by (auto simp: lossy_inv_def lreader_inv_def)

end

end
