(* ===== verification/Broadcast_Ring.thy ===== *)
theory Broadcast_Ring
  imports Lossy_Ring Ring_Common
begin

text \<open>
  Model of \<^verbatim>\<open>include/animus/broadcast_ring.hpp\<close>: the lossy ring of the telemetry and
  market-tick paths, one writer and any number of readers that never write the
  shared block. A record is the list of the units \<^verbatim>\<open>memcpy\<close> moves. The operations are
  modelled as they run alone and as interleaved accesses to the shared block; the
  interleaved ring refines the machine of \<^verbatim>\<open>Lossy_Ring\<close>.
\<close>

section \<open>Layout and attachment\<close>

record 'b br_mem =
  br_magic :: u64
  br_capacity :: u64
  br_mask :: u64
  br_payload_size :: u64
  br_cursor :: u64
  br_slots :: "'b list list"

record br_view =
  br_read :: u64
  br_dropped :: u64

definition sizeof_BroadcastHeader :: u64 where
  "sizeof_BroadcastHeader = 2 * ANIMUS_CACHE_LINE_SIZE"

definition br_kMagic :: u64 where
  "br_kMagic = 0x42524F4144434153"

definition br_required_bytes :: "u64 \<Rightarrow> u64 \<Rightarrow> u64" where
  "br_required_bytes sizeof_T capacity = sizeof_BroadcastHeader + capacity * sizeof_T"

definition br_new_view :: br_view where
  "br_new_view = \<lparr>br_read = 0, br_dropped = 0\<rparr>"

definition br_init :: "u64 \<Rightarrow> u64 \<Rightarrow> u64 \<Rightarrow> u64 \<Rightarrow> 'b list list \<Rightarrow> ('b br_mem \<times> br_view) option" where
  "br_init sizeof_T mem bytes capacity old =
     (if mem = 0 \<or> \<not> is_pow2 capacity \<or> \<not> aligned mem \<or> bytes < br_required_bytes sizeof_T capacity
      then None
      else Some (\<lparr>br_magic = br_kMagic, br_capacity = capacity, br_mask = capacity - 1,
                  br_payload_size = sizeof_T, br_cursor = 0, br_slots = old\<rparr>,
                 br_new_view))"

definition br_attach :: "u64 \<Rightarrow> u64 \<Rightarrow> u64 \<Rightarrow> 'b br_mem \<Rightarrow> br_view option" where
  "br_attach sizeof_T mem bytes h =
     (if mem = 0 \<or> \<not> aligned mem \<or> bytes < sizeof_BroadcastHeader then None
      else if br_magic h \<noteq> br_kMagic \<or> br_payload_size h \<noteq> sizeof_T \<or> \<not> is_pow2 (br_capacity h) \<or>
              br_mask h \<noteq> br_capacity h - 1 \<or> bytes < br_required_bytes sizeof_T (br_capacity h)
      then None
      else Some br_new_view)"

section \<open>Operations, run alone\<close>

definition br_publish :: "'b list \<Rightarrow> 'b br_mem \<Rightarrow> 'b br_mem" where
  "br_publish value m =
     (let w = br_cursor m
      in m\<lparr>br_slots := (br_slots m)[unat (w AND br_mask m) := value], br_cursor := w + 1\<rparr>)"

text \<open>
  \<^verbatim>\<open>poll\<close> up to the copy loop: one load of the cursor, the snap forward, and the
  number of records to copy.
\<close>

definition br_poll_begin :: "'b br_mem \<Rightarrow> u64 \<Rightarrow> br_view \<Rightarrow> br_view \<times> u64" where
  "br_poll_begin m max_count v =
     (let cap = br_capacity m;
          c = br_cursor m;
          v = (if cap - 1 < c - br_read v
               then v\<lparr>br_dropped := br_dropped v + ((c - (cap - 1)) - br_read v), br_read := c - (cap - 1)\<rparr>
               else v);
          avail = c - br_read v
      in (v, if avail < max_count then avail else max_count))"

text \<open>\<^verbatim>\<open>poll\<close> after the copy loop: the second load of the cursor decides how many were lost.\<close>

definition br_poll_finish :: "'b br_mem \<Rightarrow> u64 \<Rightarrow> br_view \<Rightarrow> u64 \<times> br_view" where
  "br_poll_finish m n v =
     (let cap = br_capacity m;
          first = br_read v;
          c2 = br_cursor m;
          oldest_intact = (if cap \<le> c2 then c2 - cap + 1 else 0);
          lost = (if first < oldest_intact
                  then (if oldest_intact - first < n then oldest_intact - first else n) else 0)
      in (lost, v\<lparr>br_read := first + n, br_dropped := br_dropped v + lost\<rparr>))"

definition br_poll :: "'b br_mem \<Rightarrow> u64 \<Rightarrow> br_view \<Rightarrow> 'b list list \<times> br_view" where
  "br_poll m max_count v =
     (case br_poll_begin m max_count v of (v, n) \<Rightarrow>
        if n = 0 then ([], v)
        else (let out = map (\<lambda>i. br_slots m ! unat ((br_read v + of_nat i) AND br_mask m)) [0..<unat n]
              in case br_poll_finish m n v of (lost, v') \<Rightarrow> (drop (unat lost) out, v')))"

section \<open>Writer and readers interleaved\<close>

text \<open>
  \<^verbatim>\<open>brs_log\<close> records every value whose write has begun and \<^verbatim>\<open>brr_got\<close> the records a
  reader has returned, with their numbers; no step reads them.
\<close>

datatype 'b br_wpc = WIdle | WCopy u64 "'b list" "nat set"

datatype 'b br_rpc = RIdle | RCopy u64 "'b option list list"

record 'b br_reader =
  brr_view :: br_view
  brr_pc :: "'b br_rpc"
  brr_got :: "(nat \<times> 'b list) list"

record 'b br_sys =
  brs_mem :: "'b br_mem"
  brs_wpc :: "'b br_wpc"
  brs_log :: "'b list list"
  brs_readers :: "nat \<Rightarrow> 'b br_reader"

definition br_store_unit :: "u64 \<Rightarrow> 'b list \<Rightarrow> nat \<Rightarrow> 'b br_mem \<Rightarrow> 'b br_mem" where
  "br_store_unit w value j m =
     m\<lparr>br_slots := store_unit (unat (w AND br_mask m)) j (value ! j) (br_slots m)\<rparr>"

definition br_reader_poll :: "nat \<Rightarrow> 'b br_mem \<Rightarrow> u64 \<Rightarrow> 'b br_reader \<Rightarrow> 'b br_reader" where
  "br_reader_poll sz m max_count r =
     (case br_poll_begin m max_count (brr_view r) of (v, n) \<Rightarrow>
        r\<lparr>brr_view := v, brr_pc := (if n = 0 then RIdle else RCopy n (blank (unat n) sz))\<rparr>)"

definition br_reader_load :: "'b br_mem \<Rightarrow> u64 \<Rightarrow> 'b option list list \<Rightarrow> nat \<Rightarrow> nat \<Rightarrow> 'b br_reader \<Rightarrow> 'b br_reader" where
  "br_reader_load m n buf i j r =
     r\<lparr>brr_pc := RCopy n (put_unit i j
         (load_unit (unat ((br_read (brr_view r) + of_nat i) AND br_mask m)) j (br_slots m)) buf)\<rparr>"

definition br_reader_finish :: "'b br_mem \<Rightarrow> u64 \<Rightarrow> 'b option list list \<Rightarrow> 'b br_reader \<Rightarrow> 'b br_reader" where
  "br_reader_finish m n buf r =
     (let first = unat (br_read (brr_view r))
      in case br_poll_finish m n (brr_view r) of (lost, v) \<Rightarrow>
        r\<lparr>brr_view := v, brr_pc := RIdle,
          brr_got := brr_got r @ map (\<lambda>i. (first + i, copy_result buf ! i)) [unat lost..<unat n]\<rparr>)"

inductive br_step :: "nat \<Rightarrow> 'b br_sys \<Rightarrow> 'b br_sys \<Rightarrow> bool" for sz where
  publish_load: "brs_wpc s = WIdle \<Longrightarrow> length value = sz \<Longrightarrow>
     br_step sz s (s\<lparr>brs_wpc := WCopy (br_cursor (brs_mem s)) value {}, brs_log := brs_log s @ [value]\<rparr>)"
| publish_copy: "brs_wpc s = WCopy w value D \<Longrightarrow> j < sz \<Longrightarrow>
     br_step sz s (s\<lparr>brs_mem := br_store_unit w value j (brs_mem s), brs_wpc := WCopy w value (insert j D)\<rparr>)"
| publish_store: "brs_wpc s = WCopy w value D \<Longrightarrow> {..< sz} \<subseteq> D \<Longrightarrow>
     br_step sz s (s\<lparr>brs_mem := (brs_mem s)\<lparr>br_cursor := w + 1\<rparr>, brs_wpc := WIdle\<rparr>)"
| poll_load: "brr_pc (brs_readers s r) = RIdle \<Longrightarrow>
     br_step sz s (s\<lparr>brs_readers :=
       (brs_readers s)(r := br_reader_poll sz (brs_mem s) max_count (brs_readers s r))\<rparr>)"
| poll_copy: "brr_pc (brs_readers s r) = RCopy n buf \<Longrightarrow> i < length buf \<Longrightarrow> j < sz \<Longrightarrow>
     br_step sz s (s\<lparr>brs_readers :=
       (brs_readers s)(r := br_reader_load (brs_mem s) n buf i j (brs_readers s r))\<rparr>)"
| poll_check: "brr_pc (brs_readers s r) = RCopy n buf \<Longrightarrow> full_copy buf \<Longrightarrow>
     br_step sz s (s\<lparr>brs_readers :=
       (brs_readers s)(r := br_reader_finish (brs_mem s) n buf (brs_readers s r))\<rparr>)"

definition br_start :: "'b br_mem \<Rightarrow> 'b br_sys" where
  "br_start m = \<lparr>brs_mem = m, brs_wpc = WIdle, brs_log = [],
     brs_readers = (\<lambda>_. \<lparr>brr_view = br_new_view, brr_pc = RIdle, brr_got = []\<rparr>)\<rparr>"

text \<open>The step relation as a function of a named action; \<^term>\<open>None\<close> when it is not enabled.\<close>

datatype 'b br_action =
    Publish_load "'b list" | Publish_copy nat | Publish_store
  | Poll_load nat u64 | Poll_copy nat nat nat | Poll_check nat

fun br_exec :: "nat \<Rightarrow> 'b br_action \<Rightarrow> 'b br_sys \<Rightarrow> 'b br_sys option" where
  "br_exec sz (Publish_load val) s =
     (case brs_wpc s of
        WIdle \<Rightarrow> if length val = sz
          then Some (s\<lparr>brs_wpc := WCopy (br_cursor (brs_mem s)) val {}, brs_log := brs_log s @ [val]\<rparr>)
          else None
      | WCopy _ _ _ \<Rightarrow> None)"
| "br_exec sz (Publish_copy j) s =
     (case brs_wpc s of
        WIdle \<Rightarrow> None
      | WCopy w val D \<Rightarrow> if j < sz
          then Some (s\<lparr>brs_mem := br_store_unit w val j (brs_mem s), brs_wpc := WCopy w val (insert j D)\<rparr>)
          else None)"
| "br_exec sz Publish_store s =
     (case brs_wpc s of
        WIdle \<Rightarrow> None
      | WCopy w val D \<Rightarrow> if list_all (\<lambda>j. j \<in> D) [0..< sz]
          then Some (s\<lparr>brs_mem := (brs_mem s)\<lparr>br_cursor := w + 1\<rparr>, brs_wpc := WIdle\<rparr>) else None)"
| "br_exec sz (Poll_load r max_count) s =
     (case brr_pc (brs_readers s r) of
        RIdle \<Rightarrow> Some (s\<lparr>brs_readers :=
          (brs_readers s)(r := br_reader_poll sz (brs_mem s) max_count (brs_readers s r))\<rparr>)
      | RCopy _ _ \<Rightarrow> None)"
| "br_exec sz (Poll_copy r i j) s =
     (case brr_pc (brs_readers s r) of
        RIdle \<Rightarrow> None
      | RCopy n buf \<Rightarrow> if i < length buf \<and> j < sz
          then Some (s\<lparr>brs_readers :=
            (brs_readers s)(r := br_reader_load (brs_mem s) n buf i j (brs_readers s r))\<rparr>)
          else None)"
| "br_exec sz (Poll_check r) s =
     (case brr_pc (brs_readers s r) of
        RIdle \<Rightarrow> None
      | RCopy n buf \<Rightarrow> if full_copy buf
          then Some (s\<lparr>brs_readers :=
            (brs_readers s)(r := br_reader_finish (brs_mem s) n buf (brs_readers s r))\<rparr>)
          else None)"

fun br_run :: "nat \<Rightarrow> 'b br_action list \<Rightarrow> 'b br_sys \<Rightarrow> 'b br_sys option" where
  "br_run sz [] s = Some s"
| "br_run sz (a # as) s = Option.bind (br_exec sz a s) (br_run sz as)"

text \<open>A two-slot ring of one-unit records, freshly initialised.\<close>

definition br_demo :: "nat br_sys" where
  "br_demo = br_start (fst (the (br_init 8 64 144 2 [[0], [0]])))"

text \<open>The states a ring of \<^term>\<open>2 ^ k\<close> slots can start in: \<^verbatim>\<open>init\<close> has just succeeded.\<close>

definition br_fresh :: "nat \<Rightarrow> nat \<Rightarrow> 'b br_sys \<Rightarrow> bool" where
  "br_fresh k sz s \<longleftrightarrow> k < 64 \<and>
     (\<exists>sizeof_T mem bytes old m v. br_init sizeof_T mem bytes (2 ^ k) old = Some (m, v) \<and>
        slots_wf (2 ^ k) sz old \<and> s = br_start m)"

section \<open>Abstraction\<close>

fun br_abs_pc :: "'b br_rpc \<Rightarrow> 'b lreader_pc" where
  "br_abs_pc RIdle = LIdle"
| "br_abs_pc (RCopy n buf) = LCopy buf"

definition br_abs_reader :: "'b br_reader \<Rightarrow> 'b lreader" where
  "br_abs_reader r = \<lparr>lr_read = unat (br_read (brr_view r)), lr_dropped = unat (br_dropped (brr_view r)),
     lr_pc = br_abs_pc (brr_pc r), lr_got = brr_got r\<rparr>"

fun br_abs_wpc :: "'b br_wpc \<Rightarrow> nat set option" where
  "br_abs_wpc WIdle = None"
| "br_abs_wpc (WCopy w v D) = Some D"

definition br_abs :: "'b br_sys \<Rightarrow> 'b lossy" where
  "br_abs s = \<lparr>l_log = brs_log s, l_pub = unat (br_cursor (brs_mem s)), l_slots = br_slots (brs_mem s),
     l_writing = br_abs_wpc (brs_wpc s), l_readers = (\<lambda>r. br_abs_reader (brs_readers s r))\<rparr>"

fun br_wpc_ok :: "u64 \<Rightarrow> 'b list list \<Rightarrow> 'b br_wpc \<Rightarrow> bool" where
  "br_wpc_ok c log WIdle \<longleftrightarrow> True"
| "br_wpc_ok c log (WCopy w v D) \<longleftrightarrow> w = c \<and> v = log ! unat c"

fun br_rpc_ok :: "'b br_rpc \<Rightarrow> bool" where
  "br_rpc_ok RIdle \<longleftrightarrow> True"
| "br_rpc_ok (RCopy n buf) \<longleftrightarrow> length buf = unat n"

definition br_ok :: "nat \<Rightarrow> 'b br_sys \<Rightarrow> bool" where
  "br_ok k s \<longleftrightarrow> 0 < k \<and> k < 64 \<and> br_capacity (brs_mem s) = 2 ^ k \<and> br_mask (brs_mem s) = 2 ^ k - 1 \<and>
     br_wpc_ok (br_cursor (brs_mem s)) (brs_log s) (brs_wpc s) \<and>
     (\<forall>r. br_rpc_ok (brr_pc (brs_readers s r)))"

definition br_bounded :: "'b br_sys \<Rightarrow> bool" where
  "br_bounded s \<longleftrightarrow> length (brs_log s) < 2 ^ 64"

section \<open>The ring refines the contract\<close>

lemma br_poll_begin_abs:
  assumes k: "0 < k" "k < 64" "br_capacity m = 2 ^ k"
    and le: "unat (br_read v) \<le> unat (br_cursor m)" "unat (br_dropped v) \<le> unat (br_read v)"
    and op: "br_poll_begin m max_count v = (v', n)"
  shows "unat (br_read v') = l_snap (2 ^ k - 1) (unat (br_cursor m)) (unat (br_read v)) \<and>
         unat (br_dropped v') = unat (br_dropped v) + (unat (br_read v') - unat (br_read v)) \<and>
         unat n = min (unat (br_cursor m) - unat (br_read v')) (unat max_count)"
proof -
  have cap: "unat ((2::u64) ^ k - 1) = 2 ^ k - 1"
    using k unat_sub64 [of 1 "2 ^ k"] by (simp add: unat_pow2)
  let ?c = "br_cursor m" and ?W = "2 ^ k - 1 :: u64"
  have r: "br_read v' = (if ?W < ?c - br_read v then ?c - ?W else br_read v)"
      "br_dropped v' = (if ?W < ?c - br_read v then br_dropped v + ((?c - ?W) - br_read v) else br_dropped v)"
      "n = (if ?c - br_read v' < max_count then ?c - br_read v' else max_count)"
    using op by (auto simp: br_poll_begin_def Let_def k)
  from l_snap_words [OF le r(1,2)] show ?thesis by (simp only: r(3) cap l_count_words)
qed

text \<open>The oldest record the second look at the cursor vouches for.\<close>

definition br_intact :: "nat \<Rightarrow> nat \<Rightarrow> nat" where
  "br_intact k P = (if 2 ^ k \<le> P then P + 1 - 2 ^ k else 0)"

lemma br_poll_finish_abs:
  assumes k: "0 < k" "k < 64" "br_capacity m = 2 ^ k"
    and le: "unat (br_read v) + unat n \<le> unat (br_cursor m)" "unat (br_dropped v) \<le> unat (br_read v)"
    and op: "br_poll_finish m n v = (lost, v')"
  shows "unat lost = min (unat n) (br_intact k (unat (br_cursor m)) - unat (br_read v)) \<and>
         unat (br_read v') = unat (br_read v) + unat n \<and>
         unat (br_dropped v') = unat (br_dropped v) + unat lost"
proof -
  let ?c = "br_cursor m" and ?R = "br_read v"
  define I where "I = (if 2 ^ k \<le> ?c then ?c - 2 ^ k + 1 else 0)"
  have I: "unat I = br_intact k (unat ?c)"
  proof (cases "2 ^ k \<le> unat ?c")
    case True
    then have d: "unat (?c - 2 ^ k) = unat ?c - 2 ^ k" using k by (subst unat_sub64) (simp_all add: unat_pow2)
    moreover have "unat ?c - 2 ^ k + 1 < 2 ^ 64"
      using unat_u64_less [of ?c] True one_le_power [of "2::nat" k] by linarith
    ultimately have "unat (?c - 2 ^ k + 1) = Suc (unat ?c - 2 ^ k)" by (metis unat_succ64)
    with True k show ?thesis by (simp add: I_def br_intact_def word_le_nat_alt unat_pow2)
  qed (use k in \<open>simp add: I_def br_intact_def word_le_nat_alt unat_pow2\<close>)
  have lost: "lost = (if ?R < I then if I - ?R < n then I - ?R else n else 0)"
    and v': "v' = v\<lparr>br_read := ?R + n, br_dropped := br_dropped v + lost\<rparr>"
    using op by (auto simp: br_poll_finish_def Let_def k I_def)
  have "unat lost = min (unat n) (unat I - unat ?R)"
    unfolding lost by (rule l_lost_words)
  moreover have "unat (?R + n) = unat ?R + unat n"
    using le unat_u64_less [of ?c] by (intro unat_add64) linarith
  moreover have "unat (br_dropped v + lost) = unat (br_dropped v) + unat lost"
    using le unat_u64_less [of ?c] calculation(1) by (intro unat_add64) linarith
  ultimately show ?thesis by (simp add: v' I)
qed

lemma br_intact_bounds:
  "length log \<le> Suc P \<Longrightarrow> length log \<le> br_intact k P + 2 ^ k" "br_intact k P \<le> P + 1 - 2 ^ k"
  by (auto simp: br_intact_def)

lemma br_reader_views:
  assumes "lossy_inv c sz (br_abs s)"
  shows "unat (br_read (brr_view (brs_readers s r))) \<le> unat (br_cursor (brs_mem s))"
    and "unat (br_dropped (brr_view (brs_readers s r))) \<le> unat (br_read (brr_view (brs_readers s r)))"
    and "brr_pc (brs_readers s r) = RCopy n buf \<Longrightarrow>
           unat (br_read (brr_view (brs_readers s r))) + length buf \<le> unat (br_cursor (brs_mem s))"
  using assms [unfolded lossy_inv_def, THEN conjunct2, rule_format, of r]
  by (auto simp: lreader_inv_def lgot_inv_def br_abs_def br_abs_reader_def)


lemma br_abs_readers:
  "br_abs (s\<lparr>brs_readers := (brs_readers s)(r := x)\<rparr>) =
     (br_abs s)\<lparr>l_readers := (l_readers (br_abs s))(r := br_abs_reader x)\<rparr>"
  by (auto simp: br_abs_def fun_eq_iff)

lemma br_reader_poll_abs:
  assumes ok: "br_ok k s" and inv: "lossy_inv (2 ^ k) sz (br_abs s)"
  shows "br_abs_reader (br_reader_poll sz (brs_mem s) max_count (brs_readers s r)) =
           l_poll (2 ^ k - 1) sz (l_pub (br_abs s)) (unat max_count) (l_readers (br_abs s) r) \<and>
         br_rpc_ok (brr_pc (br_reader_poll sz (brs_mem s) max_count (brs_readers s r)))"
proof -
  obtain v n where op: "br_poll_begin (brs_mem s) max_count (brr_view (brs_readers s r)) = (v, n)"
    by (rule prod.exhaust)
  have k: "0 < k" "k < 64" "br_capacity (brs_mem s) = 2 ^ k" using ok by (auto simp: br_ok_def)
  have "n = 0 \<longleftrightarrow> unat n = 0" by (simp add: unat_eq_zero)
  with br_poll_begin_abs [OF k br_reader_views(1,2) [OF inv] op] show ?thesis
    by (auto simp: br_reader_poll_def op br_abs_reader_def l_poll_def br_abs_def Let_def)
qed

lemma br_reader_load_abs:
  assumes ok: "br_ok k s"
  shows "br_abs_reader (br_reader_load (brs_mem s) n buf i j (brs_readers s r)) =
           (l_readers (br_abs s) r)\<lparr>lr_pc := LCopy (put_unit i j
              (load_unit ((lr_read (l_readers (br_abs s) r) + i) mod 2 ^ k) j (l_slots (br_abs s))) buf)\<rparr>"
  using ok by (simp add: br_reader_load_def br_abs_reader_def br_abs_def br_ok_def slot_of_sum)

lemma br_reader_finish_abs:
  assumes ok: "br_ok k s" and inv: "lossy_inv (2 ^ k) sz (br_abs s)"
    and pc: "brr_pc (brs_readers s r) = RCopy n buf"
  shows "br_abs_reader (br_reader_finish (brs_mem s) n buf (brs_readers s r)) =
           l_finish (br_intact k (l_pub (br_abs s))) buf (l_readers (br_abs s) r)"
proof -
  obtain v lost where op: "br_poll_finish (brs_mem s) n (brr_view (brs_readers s r)) = (lost, v)"
    by (rule prod.exhaust)
  have k: "0 < k" "k < 64" "br_capacity (brs_mem s) = 2 ^ k" using ok by (auto simp: br_ok_def)
  have len: "length buf = unat n" using ok pc by (auto simp: br_ok_def dest!: spec [of _ r])
  then have "unat (br_read (brr_view (brs_readers s r))) + unat n \<le> unat (br_cursor (brs_mem s))"
    using br_reader_views(3) [OF inv pc] by simp
  from br_poll_finish_abs [OF k this br_reader_views(2) [OF inv] op] show ?thesis
    by (simp add: br_reader_finish_def op br_abs_reader_def l_finish_def br_abs_def Let_def len)
qed

lemma br_step_simulates:
  assumes st: "br_step sz s s'" and ok: "br_ok k s" and inv: "lossy_inv (2 ^ k) sz (br_abs s)"
    and bd: "br_bounded s'"
  shows "br_ok k s' \<and> lossy_step (2 ^ k) (2 ^ k - 1) sz (br_abs s) (br_abs s')"
proof -
  have w: "lwriter_inv (2 ^ k) sz (br_abs s)" using inv by (simp add: lossy_inv_def)
  note pub = lwriter_inv_pub [OF w]
  from st show ?thesis
  proof cases
    case (publish_load val)
    have "br_abs s' = (br_abs s)\<lparr>l_log := l_log (br_abs s) @ [val], l_writing := Some {}\<rparr>"
      by (simp add: publish_load br_abs_def)
    then have "lossy_step (2 ^ k) (2 ^ k - 1) sz (br_abs s) (br_abs s')"
      using publish_load by (simp only:) (rule lossy_step.begin_write, simp_all add: br_abs_def)
    moreover have "brs_log s' ! unat (br_cursor (brs_mem s)) = val"
      using w publish_load by (auto simp: lwriter_inv_def br_abs_def nth_append)
    ultimately show ?thesis using ok publish_load by (simp add: br_ok_def)
  next
    case (publish_copy c val D j)
    have "br_abs s' = (br_abs s)\<lparr>l_slots := store_unit (l_pub (br_abs s) mod 2 ^ k) j
        (l_log (br_abs s) ! l_pub (br_abs s) ! j) (l_slots (br_abs s)), l_writing := Some (insert j D)\<rparr>"
      using ok publish_copy by (simp add: br_abs_def br_store_unit_def br_ok_def slot_of_word)
    then have "lossy_step (2 ^ k) (2 ^ k - 1) sz (br_abs s) (br_abs s')"
      using publish_copy by (simp only:) (rule lossy_step.store_unit, simp_all add: br_abs_def)
    then show ?thesis using ok publish_copy by (simp add: br_ok_def br_store_unit_def)
  next
    case (publish_store c val D)
    have "unat (br_cursor (brs_mem s)) + 1 < 2 ^ 64"
      using bd w publish_store by (simp add: br_bounded_def br_abs_def lwriter_inv_def)
    then have "br_abs s' = (br_abs s)\<lparr>l_pub := Suc (l_pub (br_abs s)), l_writing := None\<rparr>"
      using ok publish_store by (simp add: br_abs_def br_ok_def unat_succ64)
    then have "lossy_step (2 ^ k) (2 ^ k - 1) sz (br_abs s) (br_abs s')"
      using publish_store by (simp only:) (rule lossy_step.publish, simp_all add: br_abs_def)
    then show ?thesis using ok publish_store by (simp add: br_ok_def)
  next
    case (poll_load r max_count)
    note p = br_reader_poll_abs [OF ok inv, of max_count r]
    have "lossy_step (2 ^ k) (2 ^ k - 1) sz (br_abs s) (br_abs s')"
      unfolding poll_load(1) br_abs_readers p [THEN conjunct1]
      using poll_load by (intro lossy_step.poll) (simp add: br_abs_def br_abs_reader_def)
    then show ?thesis using ok poll_load p by (simp add: br_ok_def)
  next
    case (poll_copy r n buf i j)
    have "lossy_step (2 ^ k) (2 ^ k - 1) sz (br_abs s) (br_abs s')"
      unfolding poll_copy(1) br_abs_readers br_reader_load_abs [OF ok]
      using poll_copy by (intro lossy_step.load_unit) (simp_all add: br_abs_def br_abs_reader_def)
    moreover have "br_rpc_ok (RCopy n buf)" using ok poll_copy(2) by (auto simp: br_ok_def dest!: spec [of _ r])
    ultimately show ?thesis using ok poll_copy by (simp add: br_ok_def br_reader_load_def)
  next
    case (poll_check r n buf)
    have "lossy_step (2 ^ k) (2 ^ k - 1) sz (br_abs s) (br_abs s')"
      unfolding poll_check(1) br_abs_readers br_reader_finish_abs [OF ok inv poll_check(2)]
      using poll_check pub by (intro lossy_step.finish br_intact_bounds) (simp_all add: br_abs_def br_abs_reader_def)
    with ok poll_check show ?thesis
      by (auto simp: br_ok_def br_reader_finish_def Let_def split: prod.splits)
  qed
qed

lemma br_fresh_ok:
  assumes "br_fresh k sz s"
  shows "br_ok k s \<and> lossy_inv (2 ^ k) sz (br_abs s)"
proof -
  obtain sizeof_T mem bytes old m v where k: "k < 64"
    and i: "br_init sizeof_T mem bytes (2 ^ k) old = Some (m, v)" "slots_wf (2 ^ k) sz old" "s = br_start m"
    using assms by (auto simp: br_fresh_def)
  have "is_pow2 (2 ^ k)" using i(1) by (auto simp: br_init_def split: if_splits)
  then have "0 < k" by (cases k) (auto simp: is_pow2_def word_le_nat_alt)
  moreover have "br_abs s = lossy_start old"
    using i by (auto simp: br_init_def br_start_def br_abs_def lossy_start_def br_abs_reader_def br_new_view_def
        split: if_splits)
  moreover have "lossy_inv (2 ^ k) sz (lossy_start old)" by (rule lossy_start_inv [OF i(2)])
  ultimately show ?thesis
    using k i by (auto simp: br_ok_def br_start_def br_init_def split: if_splits)
qed

interpretation br: lossy_refinement "2 ^ k" "2 ^ k - 1" sz "br_step sz" br_abs "br_ok k" "br_fresh k sz" br_bounded
  for k sz :: nat
proof unfold_locales
  show "br_fresh k sz s \<Longrightarrow> br_ok k s \<and> lossy_inv (2 ^ k) sz (br_abs s)" for s :: "'a br_sys"
    by (rule br_fresh_ok)
  show "br_step sz s s' \<Longrightarrow> br_bounded s' \<Longrightarrow> br_bounded s" for s s' :: "'a br_sys"
    by (erule br_step.cases) (auto simp: br_bounded_def)
  show "br_step sz s s' \<Longrightarrow> br_ok k s \<Longrightarrow> lossy_inv (2 ^ k) sz (br_abs s) \<Longrightarrow> br_bounded s' \<Longrightarrow>
      br_ok k s' \<and> lossy_step (2 ^ k) (2 ^ k - 1) sz (br_abs s) (br_abs s')" for s s' :: "'a br_sys"
    by (rule br_step_simulates)
qed simp

lemma br_exec_step: "br_exec sz a s = Some s' \<Longrightarrow> br_step sz s s'"
  by (cases a) (auto intro: br_step.intros simp: list_all_iff subset_iff split: br_wpc.splits br_rpc.splits if_splits)

lemma br_run_steps: "br_run sz as s = Some s' \<Longrightarrow> (br_step sz)\<^sup>*\<^sup>* s s'"
proof (induction "as" arbitrary: s)
  case (Cons a "as")
  then obtain t where "br_exec sz a s = Some t" "br_run sz as t = Some s'"
    by (auto simp: bind_eq_Some_conv)
  with Cons.IH [of t] br_exec_step show ?case by (blast intro: converse_rtranclp_into_rtranclp)
qed simp

lemma br_demo_fresh: "br_fresh 1 1 br_demo"
proof -
  obtain m v where "br_init 8 64 144 (2 ^ 1) [[0], [0::nat]] = Some (m, v)" "br_demo = br_start m"
    by (simp add: br_demo_def br_init_def is_pow2_def aligned_def ANIMUS_CACHE_LINE_SIZE_def
        br_required_bytes_def sizeof_BroadcastHeader_def)
  moreover have "slots_wf (2 ^ 1) 1 [[0], [0::nat]]" by (auto simp: slots_wf_def less_Suc_eq numeral_2_eq_2)
  moreover have "(1::nat) < 64" by simp
  ultimately show ?thesis unfolding br_fresh_def by blast
qed

section \<open>Theorems\<close>

text \<open>
  C6: no reader of a broadcast ring ever returns a torn, stale or invented record.
  In every interleaving of the writer's and the readers' accesses (unit by unit,
  in any order), what a reader has returned is a list of records with strictly
  increasing numbers, each equal to what the writer published under that number.
\<close>

theorem br_no_torn_reads:
  assumes "(br_step sz)\<^sup>*\<^sup>* s0 s" and "br_fresh k sz s0" and "length (brs_log s) < 2 ^ 64"
  shows "sorted_wrt (<) (map fst (brr_got (brs_readers s r))) \<and>
         (\<forall>(i, v)\<in>set (brr_got (brs_readers s r)). i < unat (br_cursor (brs_mem s)) \<and> v = brs_log s ! i)"
proof -
  have "br_bounded s" using assms(3) by (simp add: br_bounded_def)
  from br.reader_safe [OF assms(1,2) this, of r] show ?thesis
    by (fastforce simp: lgot_inv_def br_abs_def br_abs_reader_def)
qed

theorem br_no_torn_reads_witness:
  "\<exists>s. (br_step 1)\<^sup>*\<^sup>* br_demo s \<and> map fst (brr_got (brs_readers s 3)) = [0::nat] \<and>
       (\<forall>(i, v)\<in>set (brr_got (brs_readers s 3)). v = brs_log s ! i)"
proof -
  let ?run = "br_run 1 [Publish_load [7], Publish_copy 0, Publish_store, Poll_load 3 5, Poll_copy 3 0 0, Poll_check 3] br_demo"
  have "map_option (\<lambda>s. (map fst (brr_got (brs_readers s 3)), length (brs_log s))) ?run = Some ([0], 1)"
    by code_simp
  then obtain s where s: "?run = Some s" "map fst (brr_got (brs_readers s 3)) = [0]" "length (brs_log s) < 2 ^ 64"
    by (auto simp: map_option_eq_Some)
  note st = br_run_steps [OF s(1)]
  from br_no_torn_reads [OF st br_demo_fresh s(3), of 3] s(2) show ?thesis
    by (intro exI [of _ s] conjI st) auto
qed

text \<open>
  C10: the conservation law of \<^verbatim>\<open>dropped()\<close>: for every reader at every moment, records
  delivered plus records counted as dropped plus records not read yet equal the
  writer's cursor; and a record is only ever dropped when it is at least the
  capacity behind the cursor, so the newest capacity - 1 records are never lost.
\<close>

theorem br_conservation:
  assumes "(br_step sz)\<^sup>*\<^sup>* s0 s" and "br_fresh k sz s0" and "length (brs_log s) < 2 ^ 64"
  shows "let C = unat (br_cursor (brs_mem s)); v = brr_view (brs_readers s r); got = brr_got (brs_readers s r)
         in unat (br_read v) \<le> C \<and>
            length got + unat (br_dropped v) + (C - unat (br_read v)) = C \<and>
            (\<forall>i<unat (br_read v). i \<notin> fst ` set got \<longrightarrow> i + 2 ^ k \<le> C)"
proof -
  have "br_bounded s" using assms(3) by (simp add: br_bounded_def)
  from br.reader_safe [OF assms(1,2) this, of r] show ?thesis
    by (auto simp: lgot_inv_def br_abs_def br_abs_reader_def Let_def)
qed

theorem br_conservation_witness:
  "\<exists>s. (br_step 1)\<^sup>*\<^sup>* br_demo s \<and> br_dropped (brr_view (brs_readers s 0)) = 2 \<and>
       length (brr_got (brs_readers s 0)) + 2 + (unat (br_cursor (brs_mem s)) - unat (br_read (brr_view (brs_readers s 0)))) =
         unat (br_cursor (brs_mem s))"
proof -
  let ?pub = "\<lambda>v. [Publish_load [v], Publish_copy 0, Publish_store]"
  let ?run = "br_run 1 (?pub 7 @ ?pub 8 @ ?pub 9 @ [Poll_load 0 1]) br_demo"
  have "map_option (\<lambda>s. (br_dropped (brr_view (brs_readers s 0)), length (brs_log s))) ?run = Some (2, 3)"
    by code_simp
  then obtain s where s: "?run = Some s" "br_dropped (brr_view (brs_readers s 0)) = 2" "length (brs_log s) < 2 ^ 64"
    by (auto simp: map_option_eq_Some)
  from br_conservation [OF br_run_steps [OF s(1)] br_demo_fresh s(3), of 0] br_run_steps [OF s(1)] s(2)
  show ?thesis by (auto simp: Let_def)
qed

text \<open>
  A poll that the writer does not overlap delivers, in order and without loss,
  the oldest unread records among the newest capacity - 1, up to the size of the
  caller's buffer.
\<close>

theorem br_poll_alone:
  assumes "0 < k" and "k < 64" and "br_capacity m = 2 ^ k" and "br_mask m = 2 ^ k - 1"
    and "unat (br_dropped v) \<le> unat (br_read v)" and "unat (br_read v) \<le> unat (br_cursor m)"
    and "br_poll m max_count v = (out, v')"
  shows "let P = unat (br_cursor m); R = max (unat (br_read v)) (P - (2 ^ k - 1)); n = min (P - R) (unat max_count)
         in out = ring_contents (2 ^ k) (br_slots m) R (R + n) \<and> unat (br_read v') = R + n \<and>
            unat (br_dropped v') = unat (br_dropped v) + (R - unat (br_read v))"
proof -
  let ?P = "unat (br_cursor m)"
  obtain v1 n where b: "br_poll_begin m max_count v = (v1, n)" by (rule prod.exhaust)
  define R where "R = l_snap (2 ^ k - 1) ?P (unat (br_read v))"
  have R: "unat (br_read v1) = R" "unat (br_dropped v1) = unat (br_dropped v) + (R - unat (br_read v))"
      "unat n = min (?P - R) (unat max_count)"
    using br_poll_begin_abs [OF assms(1,2,3,6,5) b] by (simp_all add: R_def)
  have le: "unat (br_read v) \<le> R" "R \<le> ?P"
    using assms(6) one_le_power [of "2::nat" k] unfolding R_def l_snap_def by linarith+
  have le3: "br_intact k ?P \<le> R"
    using one_le_power [of "2::nat" k] by (auto simp: R_def l_snap_def br_intact_def)
  have cnt: "ring_contents (2 ^ k) (br_slots m) R (R + unat n) =
      map (\<lambda>i. br_slots m ! unat ((br_read v1 + of_nat i) AND br_mask m)) [0..<unat n]"
    by (rule nth_equalityI) (auto simp: ring_contents_def assms(4) R(1) slot_of_sum [OF assms(2)])
  obtain lost v2 where f: "br_poll_finish m n v1 = (lost, v2)" by (rule prod.exhaust)
  have "unat (br_read v1) + unat n \<le> ?P" "unat (br_dropped v1) \<le> unat (br_read v1)"
    using R le assms(5) by linarith+
  from br_poll_finish_abs [OF assms(1,2,3) this f] le3 R(1)
  have v2: "unat lost = 0" "unat (br_read v2) = R + unat n" "unat (br_dropped v2) = unat (br_dropped v1)"
    by simp_all
  have z: "n = 0 \<longleftrightarrow> unat n = 0" by (simp add: unat_eq_zero)
  have "out = ring_contents (2 ^ k) (br_slots m) R (R + unat n) \<and> unat (br_read v') = R + unat n \<and>
      unat (br_dropped v') = unat (br_dropped v1)"
  proof (cases "n = 0")
    case True
    then show ?thesis using assms(7) R(1) z by (simp add: br_poll_def b)
  next
    case False
    then show ?thesis using assms(7) v2 by (simp add: br_poll_def b f cnt Let_def)
  qed
  with R(2) show ?thesis
    unfolding Let_def l_snap_def [symmetric] R_def [symmetric] R(3) [symmetric] by metis
qed

theorem br_poll_alone_witness:
  "fst (br_poll (br_publish [9] (br_publish [8] (br_publish [7::nat] (brs_mem br_demo)))) 5 br_new_view) = [[9]]"
proof -
  let ?m = "br_publish [9] (br_publish [8] (br_publish [7] (brs_mem br_demo)))"
  obtain out v' where p: "br_poll ?m 5 br_new_view = (out, v')" by (rule prod.exhaust)
  have m: "br_capacity ?m = 2 ^ 1" "br_mask ?m = 2 ^ 1 - 1" "br_cursor ?m = 3" "br_slots ?m = [[9], [8]]"
    by code_simp+
  have v: "br_read br_new_view = 0" "br_dropped br_new_view = 0" by (simp_all add: br_new_view_def)
  from br_poll_alone [of 1, OF _ _ m(1,2) _ _ p] show ?thesis
    by (simp add: p m v Let_def ring_contents_def)
qed

end
