(* ===== verification/Seqlock.thy ===== *)
theory Seqlock
  imports Ring_Common
begin

text \<open>
  Model of namespace \<^verbatim>\<open>seqlock\<close> of \<^verbatim>\<open>include/animus/shm_ipc.hpp\<close>: one ring-wide counter
  that codes the index of the write in flight, and the test by which a reader
  decides whether the slot it copied has begun to be recycled.
\<close>

definition begin_value :: "u64 \<Rightarrow> u64" where
  "begin_value write_index = push_bit 1 write_index OR 1"

definition end_value :: "u64 \<Rightarrow> u64" where
  "end_value write_index = push_bit 1 (write_index + 1)"

definition oldest_intact :: "u64 \<Rightarrow> u64 \<Rightarrow> u64" where
  "oldest_intact seq capacity =
     (let begun = drop_bit 1 (seq + 1) in if capacity < begun then begun - capacity else 0)"

definition lapped :: "u64 \<Rightarrow> u64 \<Rightarrow> u64 \<Rightarrow> bool" where
  "lapped seq record_index capacity \<longleftrightarrow> record_index < oldest_intact seq capacity"

text \<open>The width in bytes of the atomic words a slot is copied in.\<close>

definition slot_word_width :: "nat \<Rightarrow> nat \<Rightarrow> nat" where
  "slot_word_width alignof_T sizeof_T =
     (if 8 \<le> alignof_T \<and> sizeof_T mod 8 = 0 then 8
      else if 4 \<le> alignof_T \<and> sizeof_T mod 4 = 0 then 4
      else if 2 \<le> alignof_T \<and> sizeof_T mod 2 = 0 then 2 else 1)"

text \<open>
  \<^verbatim>\<open>store_slot\<close> and \<^verbatim>\<open>load_slot\<close> move the \<^verbatim>\<open>sizeof(T)\<close> bytes of a record in words of that
  width: the record as a list of units is its bytes in groups of the width.
\<close>

fun to_words :: "nat \<Rightarrow> nat \<Rightarrow> u8 list \<Rightarrow> u8 list list" where
  "to_words width 0 bytes = []"
| "to_words width (Suc n) bytes = take width bytes # to_words width n (drop width bytes)"

definition slot_words :: "nat \<Rightarrow> u8 list \<Rightarrow> u8 list list" where
  "slot_words alignof_T bytes =
     (let width = slot_word_width alignof_T (length bytes) in to_words width (length bytes div width) bytes)"

text \<open>How many writes have begun, as the counter tells it.\<close>

definition seq_begun :: "u64 \<Rightarrow> nat" where
  "seq_begun seq = (unat seq + 1) div 2"

section \<open>The counter codes the write index\<close>

lemma unat_double: "unat w < 2 ^ 63 \<Longrightarrow> unat (push_bit 1 w :: u64) = 2 * unat w"
  using unat_of_nat64 [of "2 * unat w"] by (simp add: push_bit_eq_mult mult.commute)

lemma unat_begin_value: "unat w < 2 ^ 63 \<Longrightarrow> unat (begin_value w) = 2 * unat w + 1"
proof -
  assume w: "unat w < 2 ^ 63"
  have "even (push_bit 1 w :: u64)" by (simp add: even_push_bit_iff)
  then have "begin_value w = push_bit 1 w + 1" by (simp add: begin_value_def or_one_eq)
  moreover have "unat (push_bit 1 w) + 1 < 2 ^ 64" using w unat_double [OF w] by simp
  ultimately show ?thesis using w by (simp only: unat_succ64 unat_double Suc_eq_plus1)
qed

lemma unat_end_value: "unat w + 1 < 2 ^ 63 \<Longrightarrow> unat (end_value w) = 2 * (unat w + 1)"
  using unat_double [of "w + 1"] unat_succ64 [of w] by (simp add: end_value_def)

lemma seq_begun_zero [simp]: "seq_begun 0 = 0"
  by (simp add: seq_begun_def)

lemma seq_begun_begin: "unat w < 2 ^ 63 \<Longrightarrow> seq_begun (begin_value w) = Suc (unat w)"
  by (simp add: seq_begun_def unat_begin_value)

lemma seq_begun_end: "unat w + 1 < 2 ^ 63 \<Longrightarrow> seq_begun (end_value w) = Suc (unat w)"
  by (simp add: seq_begun_def unat_end_value)

lemma unat_oldest_intact:
  assumes "unat seq + 1 < 2 ^ 64"
  shows "unat (oldest_intact seq cap) = seq_begun seq - unat cap"
proof -
  have "unat (drop_bit 1 (seq + 1)) = seq_begun seq"
    using unat_succ64 [OF assms] by (simp add: seq_begun_def drop_bit_eq_div unat_div)
  then show ?thesis
    by (auto simp: oldest_intact_def Let_def word_less_nat_alt unat_sub64)
qed

lemma lapped_iff:
  "unat seq + 1 < 2 ^ 64 \<Longrightarrow> lapped seq i cap \<longleftrightarrow> unat i + unat cap < seq_begun seq"
  by (auto simp: lapped_def word_less_nat_alt unat_oldest_intact)

section \<open>Word copies\<close>

lemma slot_word_width_dvd: "slot_word_width a n dvd n" "0 < slot_word_width a n"
  by (auto simp: slot_word_width_def mod_eq_0_iff_dvd)

lemma slot_word_width_le: "0 < a \<Longrightarrow> slot_word_width a n \<le> a"
  by (auto simp: slot_word_width_def)

lemma concat_to_words: "length bytes = n * width \<Longrightarrow> concat (to_words width n bytes) = bytes"
  by (induction width n bytes rule: to_words.induct) auto

lemma concat_slot_words: "concat (slot_words a bytes) = bytes"
proof -
  obtain n where "length bytes = n * slot_word_width a (length bytes)"
    using slot_word_width_dvd(1) [of a "length bytes"] by (metis dvdE mult.commute)
  moreover have "length bytes div slot_word_width a (length bytes) = n"
    using calculation slot_word_width_dvd(2) [of a "length bytes"] by (metis nonzero_mult_div_cancel_right less_numeral_extra(3))
  ultimately show ?thesis by (simp add: slot_words_def Let_def concat_to_words)
qed

section \<open>Theorems\<close>

text \<open>
  the counter test is exact: as of the value the counter has during and after
  write number \<^term>\<open>w\<close>, a record is reported lapped exactly when the write that
  recycles its slot, \<^term>\<open>capacity\<close> later, has begun; and copying a record word by
  word, whatever the word width its alignment allows, moves all of its bytes.
\<close>

theorem seqlock_exact:
  "(unat w + 1 < 2 ^ 63 \<longrightarrow>
      (lapped (begin_value w) i cap \<longleftrightarrow> unat i + unat cap \<le> unat w) \<and>
      (lapped (end_value w) i cap \<longleftrightarrow> unat i + unat cap \<le> unat w)) \<and>
   concat (slot_words alignof_T bytes) = bytes"
proof (intro conjI impI)
  assume w: "unat w + 1 < 2 ^ 63"
  then have "unat (begin_value w) + 1 < 2 ^ 64" "unat (end_value w) + 1 < 2 ^ 64"
    by (simp_all add: unat_begin_value unat_end_value)
  with w show "lapped (begin_value w) i cap \<longleftrightarrow> unat i + unat cap \<le> unat w"
      and "lapped (end_value w) i cap \<longleftrightarrow> unat i + unat cap \<le> unat w"
    by (simp_all add: lapped_iff seq_begun_begin seq_begun_end less_Suc_eq_le)
qed (rule concat_slot_words)

theorem seqlock_exact_witness:
  "lapped (begin_value 9) 1 8 \<and> \<not> lapped (begin_value 9) 2 8"
  using seqlock_exact [of 9 1 8] seqlock_exact [of 9 2 8] by simp

end
