(* ===== verification/Shm_Region.thy ===== *)
theory Shm_Region
  imports Prelude "HOL-Library.Monad_Syntax"
begin

text \<open>
  Model of class \<^verbatim>\<open>SharedMemoryRegion\<close> of \<^verbatim>\<open>include/animus/shm_ipc.hpp\<close> (its POSIX
  branch): the owner of one named shared-memory mapping. The operating system is
  a parameter, a record of the calls the class makes, each a function of the
  world; what the code relies on of them is the predicate \<^verbatim>\<open>posix_laws\<close>. The world is
  passed explicitly, in the order in which the code makes the calls.
\<close>

text \<open>A failed \<^verbatim>\<open>mmap\<close> is \<^term>\<open>None\<close>; \<^verbatim>\<open>px_fstat\<close> gives \<^term>\<open>None\<close> for an error and \<^verbatim>\<open>st_size\<close> otherwise.\<close>

record 'w posix =
  px_shm_open_excl :: "string \<Rightarrow> 'w \<Rightarrow> int \<times> 'w"
  px_shm_open_rw :: "string \<Rightarrow> 'w \<Rightarrow> int \<times> 'w"
  px_fallocate :: "int \<Rightarrow> u64 \<Rightarrow> 'w \<Rightarrow> int \<times> 'w"
  px_ftruncate :: "int \<Rightarrow> u64 \<Rightarrow> 'w \<Rightarrow> int \<times> 'w"
  px_mmap :: "bool \<Rightarrow> int \<Rightarrow> u64 \<Rightarrow> 'w \<Rightarrow> u64 option \<times> 'w"
  px_munmap :: "u64 \<Rightarrow> u64 \<Rightarrow> 'w \<Rightarrow> 'w"
  px_close :: "int \<Rightarrow> 'w \<Rightarrow> 'w"
  px_shm_unlink :: "string \<Rightarrow> 'w \<Rightarrow> int \<times> 'w"
  px_fstat :: "int \<Rightarrow> 'w \<Rightarrow> int option \<times> 'w"
  px_madvise_populate :: "u64 \<Rightarrow> u64 \<Rightarrow> 'w \<Rightarrow> (int \<times> int) \<times> 'w"
  px_pagesize :: "'w \<Rightarrow> int"
  px_fetch_or_zero :: "u64 \<Rightarrow> 'w \<Rightarrow> 'w"

definition EINTR :: int where "EINTR = 4"
definition ENOMEM :: int where "ENOMEM = 12"
definition EINVAL :: int where "EINVAL = 22"
definition EFBIG :: int where "EFBIG = 27"
definition ENOSPC :: int where "ENOSPC = 28"
definition EDQUOT :: int where "EDQUOT = 122"

text \<open>The null pointer is address \<^term>\<open>0\<close>.\<close>

record region =
  rg_data :: u64
  rg_size :: u64

definition rg_empty :: region where
  "rg_empty = \<lparr>rg_data = 0, rg_size = 0\<rparr>"

definition region_close :: "'w posix \<Rightarrow> region \<Rightarrow> 'w \<Rightarrow> region \<times> 'w" where
  "region_close os r w =
     (if rg_data r \<noteq> 0 then (rg_empty, px_munmap os (rg_data r) (rg_size r) w) else (r, w))"

definition region_move :: "'w posix \<Rightarrow> region \<Rightarrow> region \<Rightarrow> 'w \<Rightarrow> region \<times> region \<times> 'w" where
  "region_move os this other w =
     (case region_close os this w of (_, w) \<Rightarrow> (\<lparr>rg_data = rg_data other, rg_size = rg_size other\<rparr>, rg_empty, w))"

text \<open>The loop \<^verbatim>\<open>do \<dots> while (rc == EINTR)\<close>; being interrupted forever is \<^term>\<open>None\<close>.\<close>

partial_function (option) fallocate_loop :: "'w posix \<Rightarrow> int \<Rightarrow> u64 \<Rightarrow> 'w \<Rightarrow> (int \<times> 'w) option" where
  "fallocate_loop os fd sz w =
     (case px_fallocate os fd sz w of (rc, w) \<Rightarrow>
        if rc = EINTR then fallocate_loop os fd sz w else Some (rc, w))"

definition reserve_backing :: "'w posix \<Rightarrow> int \<Rightarrow> u64 \<Rightarrow> 'w \<Rightarrow> (bool \<times> 'w) option" where
  "reserve_backing os fd sz w =
     Option.bind (fallocate_loop os fd sz w) (\<lambda>(rc, w).
        if rc = 0 then Some (True, w)
        else if rc = ENOSPC \<or> rc = ENOMEM \<or> rc = EFBIG \<or> rc = EDQUOT then Some (False, w)
        else (case px_ftruncate os fd sz w of (rc, w) \<Rightarrow> Some (rc = 0, w)))"

definition map_shared :: "'w posix \<Rightarrow> int \<Rightarrow> u64 \<Rightarrow> bool \<Rightarrow> 'w \<Rightarrow> u64 option \<times> 'w" where
  "map_shared os fd sz populate w =
     (if populate
      then (case px_mmap os True fd sz w of
              (Some addr, w) \<Rightarrow> (Some addr, w)
            | (None, w) \<Rightarrow> px_mmap os False fd sz w)
      else px_mmap os False fd sz w)"

text \<open>\<^verbatim>\<open>for (off = 0; off < sz; off += page)\<close>: one identity read-modify-write per page.\<close>

partial_function (option) touch_pages :: "'w posix \<Rightarrow> u64 \<Rightarrow> u64 \<Rightarrow> u64 \<Rightarrow> u64 \<Rightarrow> 'w \<Rightarrow> 'w option" where
  "touch_pages os base page sz off w =
     (if off < sz then touch_pages os base page sz (off + page) (px_fetch_or_zero os (base + off) w)
      else Some w)"

definition prefault_pages :: "'w posix \<Rightarrow> u64 \<Rightarrow> u64 \<Rightarrow> bool \<Rightarrow> 'w \<Rightarrow> 'w option" where
  "prefault_pages os base sz fresh w =
     (if base = 0 \<or> sz = 0 then Some w
      else (case px_madvise_populate os base sz w of ((rc, errno), w) \<Rightarrow>
        if rc = 0 \<or> errno \<noteq> EINVAL \<or> \<not> fresh then Some w
        else (let ps = px_pagesize os w; page = (if 0 < ps then of_int ps else 4096)
              in touch_pages os base page sz 0 w)))"

definition region_create :: "'w posix \<Rightarrow> string option \<Rightarrow> u64 \<Rightarrow> region \<Rightarrow> bool \<Rightarrow> 'w \<Rightarrow> (bool \<times> region \<times> 'w) option" where
  "region_create os name sz out prefault w =
     (case region_close os out w of (out, w) \<Rightarrow>
      case name of
        None \<Rightarrow> Some (False, out, w)
      | Some name \<Rightarrow>
          if sz = 0 then Some (False, out, w)
          else (case px_shm_open_excl os name w of (fd, w) \<Rightarrow>
            if fd < 0 then Some (False, out, w)
            else Option.bind (reserve_backing os fd sz w) (\<lambda>(ok, w).
              if \<not> ok
              then (case px_shm_unlink os name (px_close os fd w) of (_, w) \<Rightarrow> Some (False, out, w))
              else (case map_shared os fd sz prefault w of (addr, w) \<Rightarrow>
                (let w = px_close os fd w
                 in case addr of
                      None \<Rightarrow> (case px_shm_unlink os name w of (_, w) \<Rightarrow> Some (False, out, w))
                    | Some addr \<Rightarrow>
                        map_option (\<lambda>w. (True, \<lparr>rg_data = addr, rg_size = sz\<rparr>, w))
                          (if prefault then prefault_pages os addr sz True w else Some w))))))"

definition region_open :: "'w posix \<Rightarrow> string option \<Rightarrow> region \<Rightarrow> bool \<Rightarrow> 'w \<Rightarrow> (bool \<times> region \<times> 'w) option" where
  "region_open os name out prefault w =
     (case region_close os out w of (out, w) \<Rightarrow>
      case name of
        None \<Rightarrow> Some (False, out, w)
      | Some name \<Rightarrow>
          (case px_shm_open_rw os name w of (fd, w) \<Rightarrow>
            if fd < 0 then Some (False, out, w)
            else (case px_fstat os fd w of (st, w) \<Rightarrow>
              case st of
                None \<Rightarrow> Some (False, out, px_close os fd w)
              | Some st_size \<Rightarrow>
                  if st_size \<le> 0 then Some (False, out, px_close os fd w)
                  else (let sz = of_int st_size
                    in case map_shared os fd sz prefault w of (addr, w) \<Rightarrow>
                      (let w = px_close os fd w
                       in case addr of
                            None \<Rightarrow> Some (False, out, w)
                          | Some addr \<Rightarrow>
                              map_option (\<lambda>w. (True, \<lparr>rg_data = addr, rg_size = sz\<rparr>, w))
                                (if prefault then prefault_pages os addr sz False w else Some w))))))"

definition region_unlink :: "'w posix \<Rightarrow> string option \<Rightarrow> 'w \<Rightarrow> bool \<times> 'w" where
  "region_unlink os name w =
     (case name of
        None \<Rightarrow> (False, w)
      | Some name \<Rightarrow> (case px_shm_unlink os name w of (rc, w) \<Rightarrow> (rc = 0, w)))"

section \<open>What the code relies on of the operating system\<close>

text \<open>
  An observer of the world sees the names that exist, the descriptors that are
  open and the mappings of this process. The laws are the documented effects of
  the calls on these: exclusive creation, unlinking an existing name, closing.
\<close>

type_synonym os_view = "string set \<times> int set \<times> (u64 \<times> u64) set"

definition posix_laws :: "'w posix \<Rightarrow> ('w \<Rightarrow> os_view) \<Rightarrow> bool" where
  "posix_laws os view \<longleftrightarrow>
     (\<forall>n w fd w' N F M. px_shm_open_excl os n w = (fd, w') \<longrightarrow> view w = (N, F, M) \<longrightarrow>
        (if fd < 0 then view w' = (N, F, M)
         else n \<notin> N \<and> fd \<notin> F \<and> view w' = (insert n N, insert fd F, M))) \<and>
     (\<forall>n w fd w' N F M. px_shm_open_rw os n w = (fd, w') \<longrightarrow> view w = (N, F, M) \<longrightarrow>
        (if fd < 0 then view w' = (N, F, M)
         else n \<in> N \<and> fd \<notin> F \<and> view w' = (N, insert fd F, M))) \<and>
     (\<forall>fd sz w. view (snd (px_fallocate os fd sz w)) = view w) \<and>
     (\<forall>fd sz w. view (snd (px_ftruncate os fd sz w)) = view w) \<and>
     (\<forall>fd w. view (snd (px_fstat os fd w)) = view w) \<and>
     (\<forall>a sz w. view (snd (px_madvise_populate os a sz w)) = view w) \<and>
     (\<forall>a w. view (px_fetch_or_zero os a w) = view w) \<and>
     (\<forall>p fd sz w r w' N F M. px_mmap os p fd sz w = (r, w') \<longrightarrow> view w = (N, F, M) \<longrightarrow>
        (case r of None \<Rightarrow> view w' = (N, F, M)
         | Some a \<Rightarrow> a \<noteq> 0 \<and> (a, sz) \<notin> M \<and> view w' = (N, F, insert (a, sz) M))) \<and>
     (\<forall>a sz w N F M. view w = (N, F, M) \<longrightarrow> view (px_munmap os a sz w) = (N, F, M - {(a, sz)})) \<and>
     (\<forall>fd w N F M. view w = (N, F, M) \<longrightarrow> view (px_close os fd w) = (N, F - {fd}, M)) \<and>
     (\<forall>n w rc w' N F M. px_shm_unlink os n w = (rc, w') \<longrightarrow> view w = (N, F, M) \<longrightarrow>
        (rc = 0 \<longleftrightarrow> n \<in> N) \<and> view w' = (N - {n}, F, M))"

text \<open>The mappings that remain when a region is closed.\<close>

definition without :: "region \<Rightarrow> (u64 \<times> u64) set \<Rightarrow> (u64 \<times> u64) set" where
  "without r M = (if rg_data r \<noteq> 0 then M - {(rg_data r, rg_size r)} else M)"

text \<open>A small operating system that meets the laws: the world is the view itself.\<close>

definition demo_os :: "os_view posix" where
  "demo_os = \<lparr>
     px_shm_open_excl = (\<lambda>n (N, F, M). if n \<in> N \<or> 3 \<in> F then (- 1, (N, F, M)) else (3, (insert n N, insert 3 F, M))),
     px_shm_open_rw = (\<lambda>n (N, F, M). if n \<notin> N \<or> 3 \<in> F then (- 1, (N, F, M)) else (3, (N, insert 3 F, M))),
     px_fallocate = (\<lambda>fd sz w. (if sz \<le> 4096 then 0 else ENOSPC, w)),
     px_ftruncate = (\<lambda>fd sz w. (0, w)),
     px_mmap = (\<lambda>p fd sz (N, F, M). if (4096, sz) \<in> M then (None, (N, F, M)) else (Some 4096, (N, F, insert (4096, sz) M))),
     px_munmap = (\<lambda>a sz (N, F, M). (N, F, M - {(a, sz)})),
     px_close = (\<lambda>fd (N, F, M). (N, F - {fd}, M)),
     px_shm_unlink = (\<lambda>n (N, F, M). (if n \<in> N then 0 else - 1, (N - {n}, F, M))),
     px_fstat = (\<lambda>fd w. (Some 4096, w)),
     px_madvise_populate = (\<lambda>a sz w. ((0, 0), w)),
     px_pagesize = (\<lambda>w. 4096),
     px_fetch_or_zero = (\<lambda>a w. w)\<rparr>"

section \<open>Effects of the helpers\<close>

lemmas open_excl_law = posix_laws_def [THEN iffD1, THEN conjunct1, rule_format]
lemmas open_rw_law = posix_laws_def [THEN iffD1, THEN conjunct2, THEN conjunct1, rule_format]
lemmas fallocate_law = posix_laws_def [THEN iffD1, THEN conjunct2, THEN conjunct2, THEN conjunct1, rule_format]
lemmas ftruncate_law = posix_laws_def [THEN iffD1, THEN conjunct2, THEN conjunct2, THEN conjunct2, THEN conjunct1, rule_format]
lemmas fstat_law = posix_laws_def [THEN iffD1, THEN conjunct2, THEN conjunct2, THEN conjunct2, THEN conjunct2, THEN conjunct1, rule_format]
lemmas madvise_law = posix_laws_def [THEN iffD1, THEN conjunct2, THEN conjunct2, THEN conjunct2, THEN conjunct2, THEN conjunct2, THEN conjunct1, rule_format]
lemmas fetch_or_law = posix_laws_def [THEN iffD1, THEN conjunct2, THEN conjunct2, THEN conjunct2, THEN conjunct2, THEN conjunct2, THEN conjunct2, THEN conjunct1, rule_format]
lemmas mmap_law = posix_laws_def [THEN iffD1, THEN conjunct2, THEN conjunct2, THEN conjunct2, THEN conjunct2, THEN conjunct2, THEN conjunct2, THEN conjunct2, THEN conjunct1, rule_format]
lemmas munmap_law = posix_laws_def [THEN iffD1, THEN conjunct2, THEN conjunct2, THEN conjunct2, THEN conjunct2, THEN conjunct2, THEN conjunct2, THEN conjunct2, THEN conjunct2, THEN conjunct1, rule_format]
lemmas close_law = posix_laws_def [THEN iffD1, THEN conjunct2, THEN conjunct2, THEN conjunct2, THEN conjunct2, THEN conjunct2, THEN conjunct2, THEN conjunct2, THEN conjunct2, THEN conjunct2, THEN conjunct1, rule_format]
lemmas unlink_law = posix_laws_def [THEN iffD1, THEN conjunct2, THEN conjunct2, THEN conjunct2, THEN conjunct2, THEN conjunct2, THEN conjunct2, THEN conjunct2, THEN conjunct2, THEN conjunct2, THEN conjunct2, rule_format]

lemma region_close_view:
  assumes "posix_laws os view" and "view w = (N, F, M)" and "region_close os r w = (r', w')"
  shows "rg_data r' = 0 \<and> view w' = (N, F, without r M)"
  using assms munmap_law [OF assms(1,2)]
  by (auto simp: region_close_def without_def rg_empty_def split: if_splits)

lemma fallocate_loop_view:
  assumes laws: "posix_laws os view" and "fallocate_loop os fd sz w = Some r"
  shows "view (snd r) = view w"
proof -
  let ?P = "\<lambda>os' (fd::int) (sz::u64) w r. os' = os \<longrightarrow> view (snd r :: 'a) = view w"
  have "?P os fd sz w r"
  proof (rule fallocate_loop.raw_induct [where P = ?P, OF _ assms(2)], rule impI)
    fix loop os' fd sz w r
    assume IH: "\<And>os' fd sz w r. loop os' fd sz w = Some r \<Longrightarrow> ?P os' fd sz w r" and [simp]: "os' = os"
      and r: "(case px_fallocate os' fd sz w of (rc, w) \<Rightarrow> if rc = EINTR then loop os' fd sz w else Some (rc, w)) = Some r"
    obtain rc w1 where p: "px_fallocate os fd sz w = (rc, w1)" by (rule prod.exhaust)
    have "view w1 = view w" using fallocate_law [OF laws, of fd sz w] p by simp
    then show "view (snd r) = view w" using r IH [of os fd sz w1 r] by (cases "rc = EINTR") (auto simp: p)
  qed
  then show ?thesis by simp
qed

lemma touch_pages_view:
  assumes laws: "posix_laws os view" and "touch_pages os base page sz off w = Some w'"
  shows "view w' = view w"
proof -
  let ?P = "\<lambda>os' (base::u64) (page::u64) (sz::u64) (off::u64) w w'. os' = os \<longrightarrow> view (w' :: 'a) = view w"
  have "?P os base page sz off w w'"
  proof (rule touch_pages.raw_induct [where P = ?P, OF _ assms(2)], rule impI)
    fix loop os' base page sz off w w'
    assume IH: "\<And>os' base page sz off w w'. loop os' base page sz off w = Some w' \<Longrightarrow> ?P os' base page sz off w w'"
      and [simp]: "os' = os"
      and r: "(if off < sz then loop os' base page sz (off + page) (px_fetch_or_zero os' (base + off) w) else Some w) = Some w'"
    show "view w' = view w"
      using r IH [of os base page sz "off + page" "px_fetch_or_zero os (base + off) w" w']
      by (auto simp: fetch_or_law [OF laws] split: if_splits)
  qed
  then show ?thesis by simp
qed

lemma reserve_backing_view:
  assumes "posix_laws os view" and "reserve_backing os fd sz w = Some (ok, w')"
  shows "view w' = view w"
  using assms fallocate_loop_view [OF assms(1), of fd sz w] ftruncate_law [OF assms(1)]
  by (auto simp: reserve_backing_def bind_eq_Some_conv split: if_splits prod.splits) (metis snd_conv)+

lemma prefault_pages_view:
  assumes "posix_laws os view" and "prefault_pages os a sz fresh w = Some w'"
  shows "view w' = view w"
  using assms touch_pages_view [OF assms(1)] madvise_law [OF assms(1), of a sz w]
  by (auto simp: prefault_pages_def Let_def split: if_splits prod.splits)

lemma map_shared_view:
  assumes laws: "posix_laws os view" and v: "view w = (N, F, M)" and m: "map_shared os fd sz populate w = (r, w')"
  shows "case r of None \<Rightarrow> view w' = (N, F, M)
         | Some a \<Rightarrow> a \<noteq> 0 \<and> (a, sz) \<notin> M \<and> view w' = (N, F, insert (a, sz) M)"
proof -
  obtain r1 w1 where p: "px_mmap os True fd sz w = (r1, w1)" by (rule prod.exhaust)
  from mmap_law [OF laws p v] m p v mmap_law [OF laws, of False fd sz] show ?thesis
    by (cases populate; cases r1) (auto simp: map_shared_def)
qed

lemma region_create_view:
  assumes laws: "posix_laws os view" and v: "view w = (N, F, M)"
    and c: "region_create os (Some n) sz out prefault w = Some (ok, r, w')"
  shows "if ok then n \<notin> N \<and> rg_data r \<noteq> 0 \<and> rg_size r = sz \<and> (rg_data r, sz) \<notin> without out M \<and>
                    view w' = (insert n N, F, insert (rg_data r, sz) (without out M))
         else rg_data r = 0 \<and> view w' = (N, F, without out M)"
proof -
  obtain out1 w1 where cl: "region_close os out w = (out1, w1)" by (rule prod.exhaust)
  note v1 = region_close_view [OF laws v cl]
  obtain fd w2 where op: "px_shm_open_excl os n w1 = (fd, w2)" by (rule prod.exhaust)
  note v2 = open_excl_law [OF laws op v1 [THEN conjunct2]]
  show ?thesis
  proof (cases "sz = 0 \<or> fd < 0")
    case True
    then show ?thesis using c cl op v1 v2 by (auto simp: region_create_def split: if_splits)
  next
    case False
    then have v2': "view w2 = (insert n N, insert fd F, without out M)" "n \<notin> N" "fd \<notin> F" using v2 by auto
    obtain b w3 where rb: "reserve_backing os fd sz w2 = Some (b, w3)"
      using c cl op False by (auto simp: region_create_def bind_eq_Some_conv)
    have v3: "view w3 = (insert n N, insert fd F, without out M)"
      using reserve_backing_view [OF laws rb] v2' by simp
    obtain a w4 where ms: "map_shared os fd sz prefault w3 = (a, w4)" by (rule prod.exhaust)
    note v4 = map_shared_view [OF laws v3 ms]
    note step = close_law [OF laws] unlink_law [OF laws] prefault_pages_view [OF laws]
    show ?thesis
    proof (cases "b \<and> a \<noteq> None")
      case True
      then obtain addr where "a = Some addr" by blast
      with True show ?thesis using c cl op False rb ms v4 v2'(2,3) step(1) [of w4 _ _ _ fd]
        by (auto simp: region_create_def Let_def dest: step(3) split: if_splits)
    next
      case nope: False
      obtain rc w5 where ul: "px_shm_unlink os n (px_close os fd (if b then w4 else w3)) = (rc, w5)"
        by (rule prod.exhaust)
      have "view (if b then w4 else w3) = (insert n N, insert fd F, without out M)" using v3 v4 nope by auto
      from step(2) [OF ul step(1) [OF this]] have "view w5 = (N, F, without out M)" using v2'(2,3) by auto
      moreover have "ok = False \<and> r = out1 \<and> w' = w5"
        using c cl op False rb ms ul nope by (auto simp: region_create_def Let_def split: if_splits)
      ultimately show ?thesis using v1 by simp
    qed
  qed
qed

section \<open>Theorems\<close>

text \<open>
  C27: creating a segment is all or nothing. If \<^verbatim>\<open>create\<close> succeeds the name is new, the
  region maps exactly the requested number of bytes, and the descriptor used on
  the way is closed; if it fails (name taken, no room, mapping refused) the name
  space and the open descriptors are as before and the region is empty. Either
  way the region's previous mapping is released first.
\<close>

theorem region_create_all_or_nothing:
  assumes laws: "posix_laws os view" and v: "view w = (N, F, M)"
    and c: "region_create os (Some n) sz out prefault w = Some (ok, r, w')"
  shows "if ok then n \<notin> N \<and> rg_data r \<noteq> 0 \<and> rg_size r = sz \<and>
                    view w' = (insert n N, F, insert (rg_data r, sz) (without out M))
         else rg_data r = 0 \<and> view w' = (N, F, without out M)"
  using region_create_view [OF assms] by (auto split: if_splits)

lemma demo_os_laws: "posix_laws demo_os (\<lambda>w. w)"
  by (auto simp: posix_laws_def demo_os_def split: if_splits)

theorem region_create_all_or_nothing_witness:
  "\<exists>r w'. region_create demo_os (Some ''ring'') 4096 rg_empty True ({}, {}, {}) = Some (True, r, w') \<and>
     w' = ({''ring''}, {}, {(rg_data r, 4096)})"
proof -
  obtain r w' where c: "region_create demo_os (Some ''ring'') 4096 rg_empty True ({}, {}, {}) = Some (True, r, w')"
    by (simp add: region_create_def region_close_def rg_empty_def demo_os_def reserve_backing_def
        fallocate_loop.simps map_shared_def prefault_pages_def EINTR_def)
  from region_create_all_or_nothing [OF demo_os_laws _ c] have "w' = ({''ring''}, {}, {(rg_data r, 4096)})"
    by (simp add: without_def rg_empty_def)
  with c show ?thesis by blast
qed

text \<open>The loop from page \<^term>\<open>i\<close> on, counted down by the pages left.\<close>

lemma touch_pages_from:
  assumes pg: "0 < unat page" and bd: "unat sz + unat page \<le> 2 ^ 64"
    and n: "n = (unat sz + unat page - 1) div unat page" and "i \<le> n"
  shows "touch_pages os base page sz (of_nat i * page) w =
           Some (fold (\<lambda>j. px_fetch_or_zero os (base + of_nat j * page)) [i..<n] w)"
  using \<open>i \<le> n\<close>
proof (induction "n - i" arbitrary: i w)
  have off: "unat (of_nat i * page) = i * unat page" if "i \<le> n" for i
  proof -
    have "i * unat page \<le> n * unat page" using that by simp
    also have "\<dots> \<le> unat sz + unat page - 1" unfolding n by (rule div_times_less_eq_dividend)
    finally have "i * unat page < 2 ^ 64" using bd pg by linarith
    then show ?thesis using unat_of_nat64 [of "i * unat page"] by (simp add: of_nat_mult)
  qed
  have lt: "i * unat page < unat sz \<longleftrightarrow> i < n" for i
  proof -
    have "i < n \<longleftrightarrow> Suc i * unat page \<le> unat sz + unat page - 1"
      unfolding n Suc_le_eq [symmetric] using pg by (simp only: less_eq_div_iff_mult_less_eq)
    then show ?thesis using pg by auto
  qed
  {
    case 0
    then have "\<not> of_nat i * page < sz" using lt [of i] by (simp add: word_less_nat_alt off)
    with 0 show ?case by (subst touch_pages.simps) simp
  next
    case (Suc m)
    then have "of_nat i * page < sz" using lt [of i] by (simp add: word_less_nat_alt off)
    moreover have "of_nat i * page + page = of_nat (Suc i) * page" by (simp add: algebra_simps)
    moreover have "[i..<n] = i # [Suc i..<n]" using Suc by (simp add: upt_conv_Cons)
    moreover have "touch_pages os base page sz (of_nat (Suc i) * page) w' =
        Some (fold (\<lambda>j. px_fetch_or_zero os (base + of_nat j * page)) [Suc i..<n] w')" for w'
      using Suc(2,3) by (intro Suc(1)) auto
    ultimately show ?case by (subst touch_pages.simps) (simp only: if_True fold_simps)
  }
qed

text \<open>
  prefaulting ends: for any mapping that does not reach the last page of the
  address space, the loop touches each page exactly once, in order, at its first
  byte, and stops.
\<close>

theorem touch_pages_terminates:
  assumes "0 < unat page" and "unat sz + unat page \<le> 2 ^ 64"
  shows "touch_pages os base page sz 0 w =
           Some (fold (\<lambda>i. px_fetch_or_zero os (base + of_nat i * page))
                      [0..<(unat sz + unat page - 1) div unat page] w)"
  using touch_pages_from [OF assms refl, of 0] by simp

theorem touch_pages_terminates_witness:
  "touch_pages (demo_os\<lparr>px_fetch_or_zero := (\<lambda>a (N, F, M). (N, F, insert (a, 1) M))\<rparr>) 8192 4096 5000 0 ({}, {}, {}) =
     Some ({}, {}, {(8192, 1), (12288, 1)})"
  by (subst touch_pages_terminates) (auto simp: upt_rec)

end
