(* ===== verification/Schema.thy ===== *)
theory Schema
  imports Prelude
begin

text \<open>
  Model of \<^verbatim>\<open>include/animus/schema.hpp\<close> and \<^verbatim>\<open>include/animus/execution_event.hpp\<close>: the
  identity of a record type that the shared-memory rings stamp into a segment at
  creation and compare when another process attaches. A C string is the list of
  its characters in front of the terminating NUL.
\<close>

definition kFnvOffsetBasis :: u64 where
  "kFnvOffsetBasis = 14695981039346656037"

definition kFnvPrime :: u64 where
  "kFnvPrime = 1099511628211"

fun fnv1a :: "string \<Rightarrow> u64 \<Rightarrow> u64" where
  "fnv1a [] hash = hash"
| "fnv1a (c # s) hash = fnv1a s ((hash XOR of_char c) * kFnvPrime)"

definition fnv1a_mix_byte :: "u64 \<Rightarrow> u64 \<Rightarrow> nat \<Rightarrow> u64" where
  "fnv1a_mix_byte value hash byte = (hash XOR (drop_bit (byte * 8) value AND 0xFF)) * kFnvPrime"

definition fnv1a_mix_u64 :: "u64 \<Rightarrow> u64 \<Rightarrow> u64" where
  "fnv1a_mix_u64 hash value = foldl (fnv1a_mix_byte value) hash [0, 1, 2, 3, 4, 5, 6, 7]"

definition schema_version_hash :: "string \<Rightarrow> string \<Rightarrow> u64 \<Rightarrow> u64" where
  "schema_version_hash name wire_format payload_size =
     fnv1a_mix_u64 (fnv1a wire_format (fnv1a name kFnvOffsetBasis)) payload_size"

text \<open>\<^verbatim>\<open>Traits<T>\<close>, the compile-time identity of a record type.\<close>

record traits =
  kName :: string
  kWireFormat :: string
  tr_sizeof :: u64
  kVersionHash :: u64

definition Traits :: "u64 \<Rightarrow> traits" where
  "Traits sizeof_T = \<lparr>kName = ''<unregistered>'', kWireFormat = '''', tr_sizeof = sizeof_T,
     kVersionHash = schema_version_hash ''<unregistered>'' '''' sizeof_T\<rparr>"

definition ANIMUS_DEFINE_SCHEMA :: "string \<Rightarrow> string \<Rightarrow> u64 \<Rightarrow> traits" where
  "ANIMUS_DEFINE_SCHEMA TypeName WireFormatString sizeof_T =
     \<lparr>kName = TypeName, kWireFormat = WireFormatString, tr_sizeof = sizeof_T,
      kVersionHash = schema_version_hash TypeName WireFormatString sizeof_T\<rparr>"

record ExecutionEvent =
  ee_sequence :: u64
  ee_dispatch_ts_raw :: u64
  ee_price_ticks :: "64 word"
  ee_quantity :: "64 word"
  ee_instrument_id :: u32
  ee_flags :: u32

definition kExecutionEventWireFormat :: string where
  "kExecutionEventWireFormat = ''<QQqqII''"

record OrderBookL2 =
  ob_sequence :: u64
  ob_dispatch_ts_raw :: u64
  ob_instrument_id :: u32
  ob_level :: u32
  ob_bid_price_ticks :: "64 word"
  ob_ask_price_ticks :: "64 word"
  ob_bid_quantity :: "64 word"
  ob_ask_quantity :: "64 word"
  ob_flags :: u64

definition Traits_ExecutionEvent :: traits where
  "Traits_ExecutionEvent = ANIMUS_DEFINE_SCHEMA ''animus::ExecutionEvent'' kExecutionEventWireFormat 40"

definition Traits_OrderBookL2 :: traits where
  "Traits_OrderBookL2 = ANIMUS_DEFINE_SCHEMA ''animus::schema::OrderBookL2'' ''<QQIIqqqqQ'' 64"

text \<open>The size \<^verbatim>\<open>struct.calcsize\<close> gives a little-endian format string, which has no padding.\<close>

fun calcsize :: "string \<Rightarrow> nat option" where
  "calcsize [] = Some 0"
| "calcsize (c # s) =
     (let n = (if c = CHR ''Q'' \<or> c = CHR ''q'' then Some 8
               else if c = CHR ''I'' \<or> c = CHR ''i'' then Some (4::nat)
               else if c = CHR ''<'' then Some 0 else None)
      in case (n, calcsize s) of (Some a, Some b) \<Rightarrow> Some (a + b) | _ \<Rightarrow> None)"

section \<open>Collisions\<close>

lemma kFnvPrime_inverse: "kFnvPrime * 14886173955864302971 = 1"
  by (simp add: kFnvPrime_def)

lemma kFnvPrime_cancel:
  assumes "a * kFnvPrime = b * kFnvPrime"
  shows "a = b"
proof -
  have "a * (kFnvPrime * 14886173955864302971) = b * (kFnvPrime * 14886173955864302971)"
    using assms by (simp only: mult.assoc [symmetric])
  then show ?thesis by (simp only: kFnvPrime_inverse mult_1_right)
qed

lemma xor_cancel:
  assumes "(a::u64) XOR c = b XOR c"
  shows "a = b"
proof -
  have "(a XOR c) XOR c = (b XOR c) XOR c" using assms by (rule arg_cong)
  then show ?thesis by (simp add: xor.assoc)
qed

lemma fnv1a_seed: "fnv1a s h = fnv1a s h' \<longleftrightarrow> h = h'"
  by (induction s arbitrary: h h') (auto dest!: kFnvPrime_cancel xor_cancel)

lemma foldl_mix_seed: "foldl (fnv1a_mix_byte v) h bs = foldl (fnv1a_mix_byte v) h' bs \<longleftrightarrow> h = h'"
  by (induction bs arbitrary: h h') (auto simp: fnv1a_mix_byte_def dest!: kFnvPrime_cancel xor_cancel)

lemma fnv1a_mix_seed: "fnv1a_mix_u64 h v = fnv1a_mix_u64 h' v \<longleftrightarrow> h = h'"
  by (simp only: fnv1a_mix_u64_def foldl_mix_seed)

lemma high_byte_zero:
  assumes "unat (v::u64) < 256" and "0 < byte"
  shows "drop_bit (byte * 8) v AND 0xFF = 0"
proof -
  have "take_bit 8 v = v"
    using assms(1) by (simp add: word_eq_iff_unsigned [where ?'a = nat] unsigned_take_bit_eq take_bit_nat_eq_self)
  moreover have "drop_bit (byte * 8) (take_bit 8 v) = 0"
    using assms(2) by (simp add: drop_bit_take_bit)
  ultimately show ?thesis by simp
qed

section \<open>Theorems\<close>

lemma mix_small:
  assumes "unat v < 256"
  shows "fnv1a_mix_u64 h v =
    foldl (\<lambda>hash _. hash * kFnvPrime) ((h XOR (v AND 0xFF)) * kFnvPrime) [1::nat, 2, 3, 4, 5, 6, 7]"
  using high_byte_zero [OF assms, of 1] high_byte_zero [OF assms, of 2] high_byte_zero [OF assms, of 3]
    high_byte_zero [OF assms, of 4] high_byte_zero [OF assms, of 5] high_byte_zero [OF assms, of 6]
    high_byte_zero [OF assms, of 7]
  by (simp add: fnv1a_mix_u64_def fnv1a_mix_byte_def)

lemma foldl_prime_cancel:
  "foldl (\<lambda>hash _. hash * kFnvPrime) a bs = foldl (\<lambda>hash _. hash * kFnvPrime) b bs \<longleftrightarrow> a = b"
  by (induction bs arbitrary: a b) (auto dest!: kFnvPrime_cancel)

text \<open>
  The version hash tells record types apart where it must: two schemas with
  the same name and format but different sizes below 256 bytes never have the same
  hash, and appending the same text to two different hashes never merges them.
\<close>

theorem schema_hash_separates:
  assumes "unat s < 256" and "unat s' < 256"
  shows "(schema_version_hash n f s = schema_version_hash n f s' \<longleftrightarrow> s = s') \<and>
         (schema_version_hash n f s = schema_version_hash n' f s \<longleftrightarrow>
            fnv1a n kFnvOffsetBasis = fnv1a n' kFnvOffsetBasis)"
proof -
  have low: "v AND 0xFF = v" if "unat v < 256" for v :: u64
  proof -
    have "take_bit 8 v = v"
      using that by (simp add: word_eq_iff_unsigned [where ?'a = nat] unsigned_take_bit_eq take_bit_nat_eq_self)
    moreover have "mask 8 = (0xFF :: u64)" by (simp add: mask_eq_exp_minus_1)
    ultimately show ?thesis by (simp add: take_bit_eq_mask)
  qed
  have "h XOR s = h XOR s' \<longleftrightarrow> s = s'" for h
    using xor_cancel [of s h s'] by (auto simp: xor.commute)
  moreover have "a * kFnvPrime = b * kFnvPrime \<longleftrightarrow> a = b" for a b using kFnvPrime_cancel by blast
  ultimately have "fnv1a_mix_u64 h s = fnv1a_mix_u64 h s' \<longleftrightarrow> s = s'" for h
    using assms by (simp only: mix_small foldl_prime_cancel low)
  then show ?thesis by (simp only: schema_version_hash_def fnv1a_mix_seed fnv1a_seed simp_thms)
qed

theorem schema_hash_separates_witness:
  "schema_version_hash ''animus::ExecutionEvent'' ''<QQqqII'' 40 \<noteq>
   schema_version_hash ''animus::ExecutionEvent'' ''<QQqqII'' 64"
  using schema_hash_separates [of 40 64 "''animus::ExecutionEvent''" "''<QQqqII''"] by simp

lemma hash_ExecutionEvent: "kVersionHash Traits_ExecutionEvent = 1140565721459364420"
  by (simp add: Traits_ExecutionEvent_def ANIMUS_DEFINE_SCHEMA_def schema_version_hash_def fnv1a_mix_u64_def
      fnv1a_mix_byte_def kExecutionEventWireFormat_def kFnvPrime_def kFnvOffsetBasis_def)

lemma fnv1a_OrderBookL2:
  "fnv1a ''animus::schema::OrderBookL2'' kFnvOffsetBasis = 11803023932120004818" "fnv1a ''<QQIIqqqqQ'' 11803023932120004818 = 9468534508977958841"
  by (simp_all add: kFnvPrime_def kFnvOffsetBasis_def)

lemma hash_OrderBookL2: "kVersionHash Traits_OrderBookL2 = 15176804450650269977"
  unfolding Traits_OrderBookL2_def ANIMUS_DEFINE_SCHEMA_def schema_version_hash_def traits.select_convs
    fnv1a_OrderBookL2
  by (simp add: mix_small kFnvPrime_def)


end
