(* ===== verification/Shm_Layout.thy ===== *)
theory Shm_Layout
  imports Shm_Region Schema Ring_Common
begin

text \<open>
  The wire headers of the three shared-memory rings of \<^verbatim>\<open>include/animus/shm_ipc.hpp\<close>
  (\<^verbatim>\<open>ShmRing\<close>, \<^verbatim>\<open>SpmcRing\<close>, \<^verbatim>\<open>ShmRingMpmc\<close>) and of \<^verbatim>\<open>RawSchemaView\<close>: how \<^verbatim>\<open>create\<close> stamps a
  segment and what \<^verbatim>\<open>open\<close> checks before it trusts one. The layout is that of a
  64-byte cache line. Mapped memory is reached through two parameters, a reader
  and a writer of the header at an address.
\<close>

section \<open>Headers\<close>

datatype RingKind = Spsc | SpmcBroadcast | Mpmc

fun ring_kind_value :: "RingKind \<Rightarrow> u64" where
  "ring_kind_value Spsc = 0"
| "ring_kind_value SpmcBroadcast = 1"
| "ring_kind_value Mpmc = 2"

text \<open>The prefix that all three headers share, at the same offsets.\<close>

record wire_descriptor =
  wd_capacity :: u64
  wd_mask :: u64
  wd_ring_kind :: u64
  wd_schema_version_hash :: u64
  wd_payload_size :: u64
  wd_stride :: u64
  wd_wire_format :: string

record RingHeader = wire_descriptor +
  rh_head :: u64
  rh_dropped_count :: u64
  rh_producer_pid :: u64
  rh_producer_heartbeat :: u64
  rh_write_seq :: u64
  rh_tail :: u64
  rh_consumer_pid :: u64
  rh_consumer_heartbeat :: u64
  rh_overwrite_active :: u64

record SpmcRingHeader = wire_descriptor +
  sh_head :: u64
  sh_producer_pid :: u64
  sh_producer_heartbeat :: u64
  sh_write_seq :: u64

record MpmcRingHeader = wire_descriptor +
  mh_ready :: u64
  mh_enqueue_pos :: u64
  mh_dequeue_pos :: u64

definition sizeof_RingHeader :: u64 where "sizeof_RingHeader = 256"
definition sizeof_SpmcRingHeader :: u64 where "sizeof_SpmcRingHeader = 192"
definition sizeof_MpmcRingHeader :: u64 where "sizeof_MpmcRingHeader = 256"

definition ring_kWireFormatBufSize :: nat where "ring_kWireFormatBufSize = 80"
definition mpmc_kWireFormatBufSize :: nat where "mpmc_kWireFormatBufSize = 72"
definition kReadyMagic :: u64 where "kReadyMagic = 0x4D504D4352494E47"

definition NUL :: char where "NUL = CHR 0x00"

text \<open>\<^verbatim>\<open>set_wire_format\<close>: copy up to the terminator or the last byte but one, then terminate.\<close>

fun set_wire_format_loop :: "nat \<Rightarrow> string \<Rightarrow> nat \<Rightarrow> string \<Rightarrow> string" where
  "set_wire_format_loop bufsize [] i buf = buf[i := NUL]"
| "set_wire_format_loop bufsize (c # src) i buf =
     (if c \<noteq> NUL \<and> i + 1 < bufsize then set_wire_format_loop bufsize src (i + 1) (buf[i := c])
      else buf[i := NUL])"

definition set_wire_format :: "nat \<Rightarrow> string \<Rightarrow> string" where
  "set_wire_format bufsize src = set_wire_format_loop bufsize src 0 (replicate bufsize NUL)"

definition c_str :: "string \<Rightarrow> string" where
  "c_str buf = takeWhile (\<lambda>c. c \<noteq> NUL) buf"

definition new_RingHeader :: "traits \<Rightarrow> u64 \<Rightarrow> RingHeader" where
  "new_RingHeader tr capacity = \<lparr>wd_capacity = capacity, wd_mask = capacity - 1,
     wd_ring_kind = ring_kind_value Spsc, wd_schema_version_hash = kVersionHash tr,
     wd_payload_size = tr_sizeof tr, wd_stride = tr_sizeof tr,
     wd_wire_format = set_wire_format ring_kWireFormatBufSize (kWireFormat tr),
     rh_head = 0, rh_dropped_count = 0, rh_producer_pid = 0, rh_producer_heartbeat = 0, rh_write_seq = 0,
     rh_tail = 0, rh_consumer_pid = 0, rh_consumer_heartbeat = 0, rh_overwrite_active = 0\<rparr>"

definition new_SpmcRingHeader :: "traits \<Rightarrow> u64 \<Rightarrow> SpmcRingHeader" where
  "new_SpmcRingHeader tr capacity = \<lparr>wd_capacity = capacity, wd_mask = capacity - 1,
     wd_ring_kind = ring_kind_value SpmcBroadcast, wd_schema_version_hash = kVersionHash tr,
     wd_payload_size = tr_sizeof tr, wd_stride = tr_sizeof tr,
     wd_wire_format = set_wire_format ring_kWireFormatBufSize (kWireFormat tr),
     sh_head = 0, sh_producer_pid = 0, sh_producer_heartbeat = 0, sh_write_seq = 0\<rparr>"

definition new_MpmcRingHeader :: "traits \<Rightarrow> u64 \<Rightarrow> u64 \<Rightarrow> MpmcRingHeader" where
  "new_MpmcRingHeader tr sizeof_Cell capacity = \<lparr>wd_capacity = capacity, wd_mask = capacity - 1,
     wd_ring_kind = ring_kind_value Mpmc, wd_schema_version_hash = kVersionHash tr,
     wd_payload_size = tr_sizeof tr, wd_stride = sizeof_Cell,
     wd_wire_format = set_wire_format mpmc_kWireFormatBufSize (kWireFormat tr),
     mh_ready = kReadyMagic, mh_enqueue_pos = 0, mh_dequeue_pos = 0\<rparr>"

section \<open>What open checks\<close>

definition pow2_capacity :: "u64 \<Rightarrow> bool" where
  "pow2_capacity capacity \<longleftrightarrow> capacity \<noteq> 0 \<and> capacity AND (capacity - 1) = 0"

definition shm_header_ok :: "RingKind \<Rightarrow> u64 \<Rightarrow> traits \<Rightarrow> u64 \<Rightarrow> 'a wire_descriptor_scheme \<Rightarrow> bool" where
  "shm_header_ok kind sizeof_header tr region_size h =
     (let capacity = wd_capacity h
      in if wd_ring_kind h \<noteq> ring_kind_value kind then False
         else if \<not> pow2_capacity capacity \<or> wd_mask h \<noteq> capacity - 1 then False
         else if wd_payload_size h \<noteq> tr_sizeof tr then False
         else if wd_schema_version_hash h \<noteq> kVersionHash tr then False
         else if region_size < sizeof_header + capacity * tr_sizeof tr then False
         else True)"

definition raw_view_ok :: "u64 \<Rightarrow> RingHeader \<Rightarrow> bool" where
  "raw_view_ok region_size h =
     (let capacity = wd_capacity h
      in if wd_ring_kind h \<noteq> ring_kind_value Spsc then False
         else if \<not> pow2_capacity capacity \<or> wd_mask h \<noteq> capacity - 1 then False
         else if wd_payload_size h = 0 \<or> wd_stride h = 0 then False
         else if region_size < sizeof_RingHeader + capacity * wd_stride h then False
         else True)"

definition mpmc_header_ok :: "traits \<Rightarrow> u64 \<Rightarrow> u64 \<Rightarrow> MpmcRingHeader \<Rightarrow> bool" where
  "mpmc_header_ok tr sizeof_Cell region_size h =
     (if mh_ready h \<noteq> kReadyMagic then False
      else if wd_ring_kind h \<noteq> ring_kind_value Mpmc then False
      else (let capacity = wd_capacity h
        in if \<not> is_pow2 capacity \<or> wd_mask h \<noteq> capacity - 1 then False
           else if wd_payload_size h \<noteq> tr_sizeof tr \<or> wd_stride h \<noteq> sizeof_Cell then False
           else if wd_schema_version_hash h \<noteq> kVersionHash tr then False
           else (let max_capacity = (- 1 - sizeof_MpmcRingHeader) div sizeof_Cell
             in \<not> (max_capacity < capacity \<or> region_size < sizeof_MpmcRingHeader + capacity * sizeof_Cell))))"

section \<open>Attaching and creating\<close>

text \<open>
  \<^verbatim>\<open>read\<close> and \<^verbatim>\<open>write\<close> access the header at an address of mapped memory. A region
  that is not handed to the ring is closed by its destructor.
\<close>

definition ring_open ::
  "'w posix \<Rightarrow> (u64 \<Rightarrow> 'w \<Rightarrow> 'h) \<Rightarrow> u64 \<Rightarrow> (u64 \<Rightarrow> 'h \<Rightarrow> bool) \<Rightarrow> string option \<Rightarrow> 'w \<Rightarrow> (region option \<times> 'w) option" where
  "ring_open os read sizeof_header ok name w =
     Option.bind (region_open os name rg_empty True w) (\<lambda>(opened, region, w).
       if \<not> opened then Some (None, w)
       else if rg_size region < sizeof_header then Some (None, snd (region_close os region w))
       else if \<not> ok (rg_size region) (read (rg_data region) w) then Some (None, snd (region_close os region w))
       else Some (Some region, w))"

definition ShmRing_open where
  "ShmRing_open os read tr = ring_open os read sizeof_RingHeader (shm_header_ok Spsc sizeof_RingHeader tr :: u64 \<Rightarrow> RingHeader \<Rightarrow> bool)"

definition SpmcRing_open where
  "SpmcRing_open os read tr =
     ring_open os read sizeof_SpmcRingHeader (shm_header_ok SpmcBroadcast sizeof_SpmcRingHeader tr :: u64 \<Rightarrow> SpmcRingHeader \<Rightarrow> bool)"

definition RawSchemaView_open where
  "RawSchemaView_open os read = ring_open os read sizeof_RingHeader raw_view_ok"

definition ShmRingMpmc_open where
  "ShmRingMpmc_open os read tr sizeof_Cell = ring_open os read sizeof_MpmcRingHeader (mpmc_header_ok tr sizeof_Cell)"

definition ring_create ::
  "'w posix \<Rightarrow> (u64 \<Rightarrow> 'h \<Rightarrow> 'w \<Rightarrow> 'w) \<Rightarrow> 'h \<Rightarrow> u64 \<Rightarrow> string option \<Rightarrow> 'w \<Rightarrow> (region option \<times> 'w) option" where
  "ring_create os write header total_size name w =
     Option.bind (region_create os name total_size rg_empty True w) (\<lambda>(created, region, w).
       if \<not> created then Some (None, w)
       else Some (Some region, write (rg_data region) header w))"

definition ShmRing_create ::
  "'w posix \<Rightarrow> (u64 \<Rightarrow> RingHeader \<Rightarrow> 'w \<Rightarrow> 'w) \<Rightarrow> traits \<Rightarrow> string option \<Rightarrow> u64 \<Rightarrow> 'w \<Rightarrow> (region option \<times> 'w) option" where
  "ShmRing_create os write tr name requested_capacity w =
     Option.bind (round_up_pow2 (if requested_capacity < 2 then 2 else requested_capacity)) (\<lambda>capacity.
       ring_create os write (new_RingHeader tr capacity) (sizeof_RingHeader + capacity * tr_sizeof tr) name w)"

definition SpmcRing_create ::
  "'w posix \<Rightarrow> (u64 \<Rightarrow> SpmcRingHeader \<Rightarrow> 'w \<Rightarrow> 'w) \<Rightarrow> traits \<Rightarrow> string option \<Rightarrow> u64 \<Rightarrow> 'w \<Rightarrow> (region option \<times> 'w) option" where
  "SpmcRing_create os write tr name requested_capacity w =
     Option.bind (round_up_pow2 (if requested_capacity < 2 then 2 else requested_capacity)) (\<lambda>capacity.
       ring_create os write (new_SpmcRingHeader tr capacity) (sizeof_SpmcRingHeader + capacity * tr_sizeof tr) name w)"

text \<open>The sequence words of the cells are part of what \<^verbatim>\<open>write\<close> stores: cell \<^term>\<open>i\<close> starts at \<^term>\<open>i\<close>.\<close>

definition mpmc_max_capacity :: "u64 \<Rightarrow> u64" where
  "mpmc_max_capacity sizeof_Cell = ((- 1) div 2 - sizeof_MpmcRingHeader) div sizeof_Cell"

definition ShmRingMpmc_create ::
  "'w posix \<Rightarrow> (u64 \<Rightarrow> MpmcRingHeader \<times> u64 list \<Rightarrow> 'w \<Rightarrow> 'w) \<Rightarrow> traits \<Rightarrow> u64 \<Rightarrow> string option \<Rightarrow> u64 \<Rightarrow> 'w \<Rightarrow>
   (region option \<times> 'w) option" where
  "ShmRingMpmc_create os write tr sizeof_Cell name requested_capacity w =
     (let floor_capacity = (if requested_capacity < 2 then 2 else requested_capacity);
          max_capacity = mpmc_max_capacity sizeof_Cell
      in if max_capacity < floor_capacity then Some (None, w)
         else Option.bind (round_up_pow2 floor_capacity) (\<lambda>capacity.
           if max_capacity < capacity then Some (None, w)
           else ring_create os write (new_MpmcRingHeader tr sizeof_Cell capacity, map of_nat [0..<unat capacity])
                  (sizeof_MpmcRingHeader + capacity * sizeof_Cell) name w))"

section \<open>The wire format string\<close>

lemma set_wire_format_loop_eq:
  assumes "i < bufsize" and "length buf = bufsize"
  shows "set_wire_format_loop bufsize src i buf =
    (let n = min (length (c_str src)) (bufsize - 1 - i)
     in take i buf @ take n src @ NUL # drop (i + n + 1) buf)"
  using assms
proof (induction bufsize src i buf rule: set_wire_format_loop.induct)
  case (1 bufsize i buf)
  then show ?case by (simp add: c_str_def upd_conv_take_nth_drop)
next
  case (2 bufsize c src i buf)
  show ?case
  proof (cases "c \<noteq> NUL \<and> i + 1 < bufsize")
    case True
    then have "min (length (c_str (c # src))) (bufsize - 1 - i) = Suc (min (length (c_str src)) (bufsize - 1 - (i + 1)))"
      by (auto simp: c_str_def min_def)
    with True 2 show ?thesis by (simp add: Let_def take_Suc_conv_app_nth)
  next
    case False
    then have "min (length (c_str (c # src))) (bufsize - 1 - i) = 0" using 2 by (auto simp: c_str_def)
    moreover have "set_wire_format_loop bufsize (c # src) i buf = buf[i := NUL]" using False by auto
    ultimately show ?thesis using 2(2,3) by (simp only: Let_def) (simp add: upd_conv_take_nth_drop)
  qed
qed

lemma set_wire_format_eq:
  assumes "0 < bufsize"
  shows "set_wire_format bufsize src =
    (let n = min (length (c_str src)) (bufsize - 1) in take n src @ NUL # replicate (bufsize - 1 - n) NUL)"
  using assms by (simp add: set_wire_format_def set_wire_format_loop_eq Let_def)

section \<open>Checks of open\<close>

lemma pow2_capacity_iff: "pow2_capacity c \<longleftrightarrow> (\<exists>k<64. c = 2 ^ k)"
  unfolding pow2_capacity_def by (rule pow2_word_iff)

lemma shm_header_ok_iff:
  "shm_header_ok kind hs tr rsz h \<longleftrightarrow>
     wd_ring_kind h = ring_kind_value kind \<and> (\<exists>k<64. wd_capacity h = 2 ^ k) \<and> wd_mask h = wd_capacity h - 1 \<and>
     wd_payload_size h = tr_sizeof tr \<and> wd_schema_version_hash h = kVersionHash tr \<and>
     hs + wd_capacity h * tr_sizeof tr \<le> rsz"
  by (auto simp: shm_header_ok_def Let_def pow2_capacity_iff)

lemma unat_layout: "unat hs + unat c * unat sz < 2 ^ 64 \<Longrightarrow> unat (hs + c * sz :: u64) = unat hs + unat c * unat sz"
  using unat_of_nat64 [of "unat hs + unat c * unat sz"] by simp

lemma slot_end_le:
  assumes "k < 64" and "hs + 2 ^ k * sz \<le> b"
  shows "hs + (unat (c AND (2 ^ k - 1 :: u64)) + 1) * sz \<le> b"
proof -
  have "unat (c AND (2 ^ k - 1)) < 2 ^ k" using slot_of_word [OF assms(1), of c] by simp
  then have "(unat (c AND (2 ^ k - 1)) + 1) * sz \<le> 2 ^ k * sz" by (intro mult_le_mono1) simp
  with assms(2) show ?thesis by linarith
qed

lemma mpmc_capacity_bound:
  assumes "\<not> (- 1 - sizeof_MpmcRingHeader) div c < cap" and "0 < unat c"
  shows "256 + unat cap * unat c < 2 ^ 64"
proof -
  have m: "unat (- 1 - sizeof_MpmcRingHeader) = 2 ^ 64 - 257"
    by (simp add: sizeof_MpmcRingHeader_def)
  have "unat cap \<le> (2 ^ 64 - 257) div unat c"
    using assms(1) by (simp only: word_less_nat_alt unat_div m not_less)
  then have "unat cap * unat c \<le> 2 ^ 64 - 257"
    by (meson div_times_less_eq_dividend le_trans mult_le_mono1)
  then show ?thesis by simp
qed

section \<open>Theorems\<close>

text \<open>
  The wire format written into a header is always terminated inside its buffer
  and fills it exactly, whatever the length of the string; a string that fits is
  read back unchanged, a longer one as its longest prefix that fits.
\<close>

theorem set_wire_format_roundtrip:
  "0 < bufsize \<longrightarrow>
     length (set_wire_format bufsize src) = bufsize \<and> NUL \<in> set (set_wire_format bufsize src) \<and>
     c_str (set_wire_format bufsize src) = take (bufsize - 1) (c_str src)"
proof
  assume b: "0 < bufsize"
  define n where "n = min (length (c_str src)) (bufsize - 1)"
  have eq: "set_wire_format bufsize src = take n src @ NUL # replicate (bufsize - 1 - n) NUL"
    using set_wire_format_eq [OF b] by (simp add: n_def Let_def)
  have pre: "take n src = take n (c_str src)"
    by (metis c_str_def n_def min.cobounded1 take_all takeWhile_eq_take min_def take_take)
  have "set (take n (c_str src)) \<subseteq> set (c_str src)" by (rule set_take_subset)
  then have "\<forall>c\<in>set (take n (c_str src)). c \<noteq> NUL" by (auto simp: c_str_def dest: set_takeWhileD)
  then have "c_str (set_wire_format bufsize src) = take n (c_str src)"
    by (simp add: eq pre c_str_def [of "_ @ _"] takeWhile_append2)
  moreover have "take n (c_str src) = take (bufsize - 1) (c_str src)" by (simp add: n_def min_def)
  moreover have "length (take n src) = n" using length_takeWhile_le [of "\<lambda>c. c \<noteq> NUL" src] by (simp add: c_str_def n_def)
  ultimately show "length (set_wire_format bufsize src) = bufsize \<and> NUL \<in> set (set_wire_format bufsize src) \<and>
      c_str (set_wire_format bufsize src) = take (bufsize - 1) (c_str src)"
    using b by (simp add: eq n_def)
qed

theorem set_wire_format_roundtrip_witness:
  "c_str (set_wire_format 8 ''<QQqqII'') = ''<QQqqII'' \<and> c_str (set_wire_format 4 ''<QQqqII'') = ''<QQ''"
  using set_wire_format_roundtrip [of 8 "''<QQqqII''"] set_wire_format_roundtrip [of 4 "''<QQqqII''"]
  by (simp add: c_str_def NUL_def)



text \<open>
  \<^verbatim>\<open>open\<close> accepts what \<^verbatim>\<open>create\<close> stamped, for the same record type, and nothing else
  of the kind: a header stamped for another size or another schema hash, or by
  another kind of ring, is refused by every one of the three.
\<close>

theorem shm_stamp_roundtrip:
  assumes "k < 64"
  shows "(shm_header_ok Spsc sizeof_RingHeader tr' (sizeof_RingHeader + 2 ^ k * tr_sizeof tr) (new_RingHeader tr (2 ^ k)) \<longleftrightarrow>
            tr_sizeof tr' = tr_sizeof tr \<and> kVersionHash tr' = kVersionHash tr) \<and>
         (shm_header_ok SpmcBroadcast sizeof_SpmcRingHeader tr' (sizeof_SpmcRingHeader + 2 ^ k * tr_sizeof tr)
            (new_SpmcRingHeader tr (2 ^ k)) \<longleftrightarrow>
            tr_sizeof tr' = tr_sizeof tr \<and> kVersionHash tr' = kVersionHash tr) \<and>
         \<not> shm_header_ok SpmcBroadcast hs tr' rsz (new_RingHeader tr (2 ^ k)) \<and>
         \<not> shm_header_ok Spsc hs tr' rsz (new_SpmcRingHeader tr (2 ^ k)) \<and>
         \<not> shm_header_ok Spsc hs tr' rsz (new_MpmcRingHeader tr cell (2 ^ k)) \<and>
         \<not> shm_header_ok SpmcBroadcast hs tr' rsz (new_MpmcRingHeader tr cell (2 ^ k))"
  using assms(1)
  by (auto simp: shm_header_ok_iff new_RingHeader_def new_SpmcRingHeader_def new_MpmcRingHeader_def)

theorem shm_stamp_roundtrip_witness:
  "shm_header_ok Spsc sizeof_RingHeader Traits_ExecutionEvent (sizeof_RingHeader + 2 ^ 4 * tr_sizeof Traits_ExecutionEvent)
     (new_RingHeader Traits_ExecutionEvent (2 ^ 4)) \<and>
   \<not> shm_header_ok Spsc sizeof_RingHeader Traits_OrderBookL2 (sizeof_RingHeader + 2 ^ 4 * tr_sizeof Traits_ExecutionEvent)
     (new_RingHeader Traits_ExecutionEvent (2 ^ 4))"
proof -
  have s: "tr_sizeof Traits_OrderBookL2 \<noteq> tr_sizeof Traits_ExecutionEvent"
    by (simp add: Traits_ExecutionEvent_def Traits_OrderBookL2_def ANIMUS_DEFINE_SCHEMA_def)
  from shm_stamp_roundtrip [of 4 Traits_ExecutionEvent Traits_ExecutionEvent]
    shm_stamp_roundtrip [of 4 Traits_OrderBookL2 Traits_ExecutionEvent] s show ?thesis by simp
qed

end
