(* ===== verification/Spmc_Ring.thy ===== *)
theory Spmc_Ring
  imports Lossy_Ring Seqlock Shm_Layout
begin

text \<open>
  Model of class \<^verbatim>\<open>SpmcRing\<close> of \<^verbatim>\<open>include/animus/shm_ipc.hpp\<close>: broadcast from one
  process to any number of consumers, each with a read position of its own. The
  torn-read guard is the index-coded seqlock. As for \<^verbatim>\<open>BroadcastRing\<close>, the interleaved
  ring is proved to refine the machine of \<^verbatim>\<open>Lossy_Ring\<close>.
\<close>

section \<open>Operations, run alone\<close>

record 'b spmc_mem =
  sp_header :: SpmcRingHeader
  sp_slots :: "'b list list"

record spmc_view =
  local_tail :: u64
  overrun_count :: u64
  last_poll_overran :: bool

definition spmc_new_view :: spmc_view where
  "spmc_new_view = \<lparr>local_tail = 0, overrun_count = 0, last_poll_overran = False\<rparr>"

definition spmc_broadcast :: "'b list \<Rightarrow> 'b spmc_mem \<Rightarrow> u64 \<Rightarrow> 'b spmc_mem \<times> u64" where
  "spmc_broadcast value m producer_head =
     (let w = producer_head;
          h = sp_header m
      in (m\<lparr>sp_slots := (sp_slots m)[unat (w AND wd_mask h) := value],
            sp_header := h\<lparr>sh_write_seq := end_value w, sh_head := w + 1\<rparr>\<rparr>, producer_head + 1))"

definition spmc_poll_begin :: "SpmcRingHeader \<Rightarrow> u64 \<Rightarrow> spmc_view \<Rightarrow> spmc_view \<times> u64" where
  "spmc_poll_begin h max_count v =
     (let capacity = wd_capacity h;
          head = sh_head h;
          v = v\<lparr>last_poll_overran := False\<rparr>;
          v = (if capacity < head - local_tail v
               then (let new_tail = head - capacity
                     in v\<lparr>overrun_count := overrun_count v + (new_tail - local_tail v),
                          local_tail := new_tail, last_poll_overran := True\<rparr>)
               else v);
          available = head - local_tail v
      in (v, if available < max_count then available else max_count))"

definition spmc_poll_finish :: "SpmcRingHeader \<Rightarrow> u64 \<Rightarrow> spmc_view \<Rightarrow> u64 \<times> spmc_view" where
  "spmc_poll_finish h n v =
     (let first = local_tail v;
          intact_from = oldest_intact (sh_write_seq h) (wd_capacity h);
          lapped = (if first < intact_from
                    then (let gone = intact_from - first in if gone < n then gone else n) else 0);
          v = v\<lparr>local_tail := first + n\<rparr>
      in (lapped, if 0 < lapped
                  then v\<lparr>overrun_count := overrun_count v + lapped, last_poll_overran := True\<rparr> else v))"

definition spmc_poll :: "'b spmc_mem \<Rightarrow> u64 \<Rightarrow> spmc_view \<Rightarrow> 'b list list \<times> spmc_view" where
  "spmc_poll m max_count v =
     (case spmc_poll_begin (sp_header m) max_count v of (v, n) \<Rightarrow>
        if n = 0 then ([], v)
        else (let out = map (\<lambda>i. sp_slots m ! unat ((local_tail v + of_nat i) AND wd_mask (sp_header m))) [0..<unat n]
              in case spmc_poll_finish (sp_header m) n v of (lost, v') \<Rightarrow> (drop (unat lost) out, v')))"

text \<open>\<^verbatim>\<open>poll_spin\<close> against a ring that does not change: bounded by the spins it is given.\<close>

fun spmc_poll_spin :: "'b spmc_mem \<Rightarrow> u64 \<Rightarrow> nat \<Rightarrow> spmc_view \<Rightarrow> 'b list list \<times> spmc_view" where
  "spmc_poll_spin m max_count 0 v = ([], v)"
| "spmc_poll_spin m max_count (Suc spins) v =
     (case spmc_poll m max_count v of (out, v) \<Rightarrow>
        if out \<noteq> [] then (out, v) else spmc_poll_spin m max_count spins v)"

section \<open>Producer and consumers interleaved\<close>

datatype 'b spmc_wpc = SIdle | SCopy u64 "'b list" "nat set" | SPublish u64 "'b list" "nat set"

datatype 'b spmc_rpc = RIdle | RCopy u64 "'b option list list"

record 'b spmc_reader =
  spr_view :: spmc_view
  spr_pc :: "'b spmc_rpc"
  spr_got :: "(nat \<times> 'b list) list"

record 'b spmc_sys =
  sps_mem :: "'b spmc_mem"
  sps_producer_head :: u64
  sps_wpc :: "'b spmc_wpc"
  sps_log :: "'b list list"
  sps_readers :: "nat \<Rightarrow> 'b spmc_reader"

definition spmc_set_seq :: "u64 \<Rightarrow> 'b spmc_mem \<Rightarrow> 'b spmc_mem" where
  "spmc_set_seq q m = m\<lparr>sp_header := (sp_header m)\<lparr>sh_write_seq := q\<rparr>\<rparr>"

definition spmc_set_head :: "u64 \<Rightarrow> 'b spmc_mem \<Rightarrow> 'b spmc_mem" where
  "spmc_set_head x m = m\<lparr>sp_header := (sp_header m)\<lparr>sh_head := x\<rparr>\<rparr>"

definition spmc_store_unit :: "u64 \<Rightarrow> 'b list \<Rightarrow> nat \<Rightarrow> 'b spmc_mem \<Rightarrow> 'b spmc_mem" where
  "spmc_store_unit w value j m =
     m\<lparr>sp_slots := store_unit (unat (w AND wd_mask (sp_header m))) j (value ! j) (sp_slots m)\<rparr>"

definition spmc_reader_poll :: "nat \<Rightarrow> 'b spmc_mem \<Rightarrow> u64 \<Rightarrow> 'b spmc_reader \<Rightarrow> 'b spmc_reader" where
  "spmc_reader_poll sz m max_count r =
     (case spmc_poll_begin (sp_header m) max_count (spr_view r) of (v, n) \<Rightarrow>
        r\<lparr>spr_view := v, spr_pc := (if n = 0 then RIdle else RCopy n (blank (unat n) sz))\<rparr>)"

definition spmc_reader_load :: "'b spmc_mem \<Rightarrow> u64 \<Rightarrow> 'b option list list \<Rightarrow> nat \<Rightarrow> nat \<Rightarrow> 'b spmc_reader \<Rightarrow> 'b spmc_reader" where
  "spmc_reader_load m n buf i j r =
     r\<lparr>spr_pc := RCopy n (put_unit i j
         (load_unit (unat ((local_tail (spr_view r) + of_nat i) AND wd_mask (sp_header m))) j (sp_slots m)) buf)\<rparr>"

definition spmc_reader_finish :: "'b spmc_mem \<Rightarrow> u64 \<Rightarrow> 'b option list list \<Rightarrow> 'b spmc_reader \<Rightarrow> 'b spmc_reader" where
  "spmc_reader_finish m n buf r =
     (let first = unat (local_tail (spr_view r))
      in case spmc_poll_finish (sp_header m) n (spr_view r) of (lost, v) \<Rightarrow>
        r\<lparr>spr_view := v, spr_pc := RIdle,
          spr_got := spr_got r @ map (\<lambda>i. (first + i, copy_result buf ! i)) [unat lost..<unat n]\<rparr>)"

inductive spmc_step :: "nat \<Rightarrow> 'b spmc_sys \<Rightarrow> 'b spmc_sys \<Rightarrow> bool" for sz where
  broadcast_begin: "sps_wpc s = SIdle \<Longrightarrow> length value = sz \<Longrightarrow> w = sps_producer_head s \<Longrightarrow>
     spmc_step sz s (s\<lparr>sps_mem := spmc_set_seq (begin_value w) (sps_mem s),
       sps_wpc := SCopy w value {}, sps_log := sps_log s @ [value]\<rparr>)"
| broadcast_copy: "sps_wpc s = SCopy w value D \<Longrightarrow> j < sz \<Longrightarrow>
     spmc_step sz s (s\<lparr>sps_mem := spmc_store_unit w value j (sps_mem s), sps_wpc := SCopy w value (insert j D)\<rparr>)"
| broadcast_end: "sps_wpc s = SCopy w value D \<Longrightarrow> {..< sz} \<subseteq> D \<Longrightarrow>
     spmc_step sz s (s\<lparr>sps_mem := spmc_set_seq (end_value w) (sps_mem s), sps_wpc := SPublish w value D\<rparr>)"
| broadcast_head: "sps_wpc s = SPublish w value D \<Longrightarrow>
     spmc_step sz s (s\<lparr>sps_mem := spmc_set_head (w + 1) (sps_mem s), sps_wpc := SIdle,
       sps_producer_head := sps_producer_head s + 1\<rparr>)"
| poll_load: "spr_pc (sps_readers s r) = RIdle \<Longrightarrow>
     spmc_step sz s (s\<lparr>sps_readers :=
       (sps_readers s)(r := spmc_reader_poll sz (sps_mem s) max_count (sps_readers s r))\<rparr>)"
| poll_copy: "spr_pc (sps_readers s r) = RCopy n buf \<Longrightarrow> i < length buf \<Longrightarrow> j < sz \<Longrightarrow>
     spmc_step sz s (s\<lparr>sps_readers :=
       (sps_readers s)(r := spmc_reader_load (sps_mem s) n buf i j (sps_readers s r))\<rparr>)"
| poll_check: "spr_pc (sps_readers s r) = RCopy n buf \<Longrightarrow> full_copy buf \<Longrightarrow>
     spmc_step sz s (s\<lparr>sps_readers :=
       (sps_readers s)(r := spmc_reader_finish (sps_mem s) n buf (sps_readers s r))\<rparr>)"

text \<open>The step relation as a function of a named action.\<close>

datatype 'b spmc_action =
    Broadcast_begin "'b list" | Broadcast_copy nat | Broadcast_end | Broadcast_head
  | Poll_load nat u64 | Poll_copy nat nat nat | Poll_check nat

fun spmc_exec :: "nat \<Rightarrow> 'b spmc_action \<Rightarrow> 'b spmc_sys \<Rightarrow> 'b spmc_sys option" where
  "spmc_exec sz (Broadcast_begin val) s =
     (case sps_wpc s of
        SIdle \<Rightarrow> if length val = sz
          then (let w = sps_producer_head s
                in Some (s\<lparr>sps_mem := spmc_set_seq (begin_value w) (sps_mem s),
                          sps_wpc := SCopy w val {}, sps_log := sps_log s @ [val]\<rparr>))
          else None
      | _ \<Rightarrow> None)"
| "spmc_exec sz (Broadcast_copy j) s =
     (case sps_wpc s of
        SCopy w val D \<Rightarrow> if j < sz
          then Some (s\<lparr>sps_mem := spmc_store_unit w val j (sps_mem s), sps_wpc := SCopy w val (insert j D)\<rparr>)
          else None
      | _ \<Rightarrow> None)"
| "spmc_exec sz Broadcast_end s =
     (case sps_wpc s of
        SCopy w val D \<Rightarrow> if list_all (\<lambda>j. j \<in> D) [0..< sz]
          then Some (s\<lparr>sps_mem := spmc_set_seq (end_value w) (sps_mem s), sps_wpc := SPublish w val D\<rparr>) else None
      | _ \<Rightarrow> None)"
| "spmc_exec sz Broadcast_head s =
     (case sps_wpc s of
        SPublish w val D \<Rightarrow> Some (s\<lparr>sps_mem := spmc_set_head (w + 1) (sps_mem s), sps_wpc := SIdle,
          sps_producer_head := sps_producer_head s + 1\<rparr>)
      | _ \<Rightarrow> None)"
| "spmc_exec sz (Poll_load r max_count) s =
     (case spr_pc (sps_readers s r) of
        RIdle \<Rightarrow> Some (s\<lparr>sps_readers :=
          (sps_readers s)(r := spmc_reader_poll sz (sps_mem s) max_count (sps_readers s r))\<rparr>)
      | RCopy _ _ \<Rightarrow> None)"
| "spmc_exec sz (Poll_copy r i j) s =
     (case spr_pc (sps_readers s r) of
        RIdle \<Rightarrow> None
      | RCopy n buf \<Rightarrow> if i < length buf \<and> j < sz
          then Some (s\<lparr>sps_readers :=
            (sps_readers s)(r := spmc_reader_load (sps_mem s) n buf i j (sps_readers s r))\<rparr>)
          else None)"
| "spmc_exec sz (Poll_check r) s =
     (case spr_pc (sps_readers s r) of
        RIdle \<Rightarrow> None
      | RCopy n buf \<Rightarrow> if full_copy buf
          then Some (s\<lparr>sps_readers :=
            (sps_readers s)(r := spmc_reader_finish (sps_mem s) n buf (sps_readers s r))\<rparr>)
          else None)"

fun spmc_run :: "nat \<Rightarrow> 'b spmc_action list \<Rightarrow> 'b spmc_sys \<Rightarrow> 'b spmc_sys option" where
  "spmc_run sz [] s = Some s"
| "spmc_run sz (a # as) s = Option.bind (spmc_exec sz a s) (spmc_run sz as)"

definition spmc_start :: "traits \<Rightarrow> u64 \<Rightarrow> 'b list list \<Rightarrow> 'b spmc_sys" where
  "spmc_start tr capacity slots = \<lparr>sps_mem = \<lparr>sp_header = new_SpmcRingHeader tr capacity, sp_slots = slots\<rparr>,
     sps_producer_head = 0, sps_wpc = SIdle, sps_log = [],
     sps_readers = (\<lambda>_. \<lparr>spr_view = spmc_new_view, spr_pc = RIdle, spr_got = []\<rparr>)\<rparr>"

definition spmc_fresh :: "nat \<Rightarrow> nat \<Rightarrow> 'b spmc_sys \<Rightarrow> bool" where
  "spmc_fresh k sz s \<longleftrightarrow> k < 64 \<and> (\<exists>tr slots. slots_wf (2 ^ k) sz slots \<and> s = spmc_start tr (2 ^ k) slots)"

section \<open>Abstraction\<close>

fun spmc_abs_pc :: "'b spmc_rpc \<Rightarrow> 'b lreader_pc" where
  "spmc_abs_pc RIdle = LIdle"
| "spmc_abs_pc (RCopy n buf) = LCopy buf"

definition spmc_abs_reader :: "'b spmc_reader \<Rightarrow> 'b lreader" where
  "spmc_abs_reader r = \<lparr>lr_read = unat (local_tail (spr_view r)), lr_dropped = unat (overrun_count (spr_view r)),
     lr_pc = spmc_abs_pc (spr_pc r), lr_got = spr_got r\<rparr>"

fun spmc_abs_wpc :: "'b spmc_wpc \<Rightarrow> nat set option" where
  "spmc_abs_wpc SIdle = None"
| "spmc_abs_wpc (SCopy w v D) = Some D"
| "spmc_abs_wpc (SPublish w v D) = Some D"

definition spmc_abs :: "'b spmc_sys \<Rightarrow> 'b lossy" where
  "spmc_abs s = \<lparr>l_log = sps_log s, l_pub = unat (sh_head (sp_header (sps_mem s))), l_slots = sp_slots (sps_mem s),
     l_writing = spmc_abs_wpc (sps_wpc s), l_readers = (\<lambda>r. spmc_abs_reader (sps_readers s r))\<rparr>"

fun spmc_wpc_ok :: "nat \<Rightarrow> u64 \<Rightarrow> 'b list list \<Rightarrow> 'b spmc_wpc \<Rightarrow> bool" where
  "spmc_wpc_ok sz c log SIdle \<longleftrightarrow> True"
| "spmc_wpc_ok sz c log (SCopy w v D) \<longleftrightarrow> w = c \<and> v = log ! unat c"
| "spmc_wpc_ok sz c log (SPublish w v D) \<longleftrightarrow> w = c \<and> v = log ! unat c \<and> {..< sz} \<subseteq> D"

fun spmc_rpc_ok :: "'b spmc_rpc \<Rightarrow> bool" where
  "spmc_rpc_ok RIdle \<longleftrightarrow> True"
| "spmc_rpc_ok (RCopy n buf) \<longleftrightarrow> length buf = unat n"

definition spmc_ok :: "nat \<Rightarrow> nat \<Rightarrow> 'b spmc_sys \<Rightarrow> bool" where
  "spmc_ok k sz s \<longleftrightarrow> k < 64 \<and> wd_capacity (sp_header (sps_mem s)) = 2 ^ k \<and>
     wd_mask (sp_header (sps_mem s)) = 2 ^ k - 1 \<and>
     sps_producer_head s = sh_head (sp_header (sps_mem s)) \<and>
     spmc_wpc_ok sz (sh_head (sp_header (sps_mem s))) (sps_log s) (sps_wpc s) \<and>
     seq_begun (sh_write_seq (sp_header (sps_mem s))) = length (sps_log s) \<and>
     (\<forall>r. spmc_rpc_ok (spr_pc (sps_readers s r)))"

text \<open>The seqlock counter runs at twice the speed of the head.\<close>

definition spmc_bounded :: "'b spmc_sys \<Rightarrow> bool" where
  "spmc_bounded s \<longleftrightarrow> length (sps_log s) + 1 < 2 ^ 63"

section \<open>The ring refines the contract\<close>

lemma spmc_poll_begin_abs:
  assumes k: "k < 64" "wd_capacity h = 2 ^ k"
    and le: "unat (local_tail v) \<le> unat (sh_head h)" "unat (overrun_count v) \<le> unat (local_tail v)"
    and op: "spmc_poll_begin h max_count v = (v', n)"
  shows "unat (local_tail v') = l_snap (2 ^ k) (unat (sh_head h)) (unat (local_tail v)) \<and>
         unat (overrun_count v') = unat (overrun_count v) + (unat (local_tail v') - unat (local_tail v)) \<and>
         unat n = min (unat (sh_head h) - unat (local_tail v')) (unat max_count)"
proof -
  let ?c = "sh_head h" and ?W = "2 ^ k :: u64"
  have r: "local_tail v' = (if ?W < ?c - local_tail v then ?c - ?W else local_tail v)"
      "overrun_count v' = (if ?W < ?c - local_tail v then overrun_count v + ((?c - ?W) - local_tail v) else overrun_count v)"
      "n = (if ?c - local_tail v' < max_count then ?c - local_tail v' else max_count)"
    using op by (auto simp: spmc_poll_begin_def Let_def k)
  from l_snap_words [OF le r(1,2)] k show ?thesis by (simp only: r(3) l_count_words unat_pow2)
qed

lemma spmc_poll_finish_abs:
  assumes k: "k < 64" "wd_capacity h = 2 ^ k" and seq: "unat (sh_write_seq h) + 1 < 2 ^ 64"
    and le: "unat (local_tail v) + unat n \<le> unat (sh_head h)" "unat (overrun_count v) \<le> unat (local_tail v)"
    and op: "spmc_poll_finish h n v = (lost, v')"
  shows "unat lost = min (unat n) (seq_begun (sh_write_seq h) - 2 ^ k - unat (local_tail v)) \<and>
         unat (local_tail v') = unat (local_tail v) + unat n \<and>
         unat (overrun_count v') = unat (overrun_count v) + unat lost"
proof -
  let ?I = "oldest_intact (sh_write_seq h) (wd_capacity h)" and ?R = "local_tail v"
  have lost: "lost = (if ?R < ?I then (if ?I - ?R < n then ?I - ?R else n) else 0)"
    and t: "local_tail v' = ?R + n"
    and o: "overrun_count v' = (if 0 < lost then overrun_count v + lost else overrun_count v)"
    using op by (auto simp: spmc_poll_finish_def Let_def)
  have "unat ?I = seq_begun (sh_write_seq h) - 2 ^ k" using k seq by (simp add: unat_oldest_intact unat_pow2)
  then have l: "unat lost = min (unat n) (seq_begun (sh_write_seq h) - 2 ^ k - unat ?R)"
    unfolding lost by (subst l_lost_words) (simp only:)
  moreover have "unat (?R + n) = unat ?R + unat n"
    using le unat_u64_less [of "sh_head h"] by (intro unat_add64) linarith
  moreover have "unat (overrun_count v + lost) = unat (overrun_count v) + unat lost"
    using le unat_u64_less [of "sh_head h"] l by (intro unat_add64) linarith
  moreover have "\<not> 0 < lost \<Longrightarrow> unat lost = 0" by (simp add: word_less_nat_alt)
  ultimately show ?thesis using t o by auto
qed

lemma spmc_views:
  assumes "lossy_inv c sz (spmc_abs s)"
  shows "unat (local_tail (spr_view (sps_readers s r))) \<le> unat (sh_head (sp_header (sps_mem s)))"
    and "unat (overrun_count (spr_view (sps_readers s r))) \<le> unat (local_tail (spr_view (sps_readers s r)))"
    and "spr_pc (sps_readers s r) = RCopy n buf \<Longrightarrow>
           unat (local_tail (spr_view (sps_readers s r))) + length buf \<le> unat (sh_head (sp_header (sps_mem s)))"
  using assms [unfolded lossy_inv_def, THEN conjunct2, rule_format, of r]
  by (auto simp: lreader_inv_def lgot_inv_def spmc_abs_def spmc_abs_reader_def)

lemma spmc_abs_readers:
  "spmc_abs (s\<lparr>sps_readers := (sps_readers s)(r := x)\<rparr>) =
     (spmc_abs s)\<lparr>l_readers := (l_readers (spmc_abs s))(r := spmc_abs_reader x)\<rparr>"
  by (auto simp: spmc_abs_def fun_eq_iff)

lemma spmc_reader_poll_abs:
  assumes ok: "spmc_ok k sz s" and inv: "lossy_inv (2 ^ k) sz (spmc_abs s)"
  shows "spmc_abs_reader (spmc_reader_poll sz (sps_mem s) max_count (sps_readers s r)) =
           l_poll (2 ^ k) sz (l_pub (spmc_abs s)) (unat max_count) (l_readers (spmc_abs s) r) \<and>
         spmc_rpc_ok (spr_pc (spmc_reader_poll sz (sps_mem s) max_count (sps_readers s r)))"
proof -
  obtain v n where op: "spmc_poll_begin (sp_header (sps_mem s)) max_count (spr_view (sps_readers s r)) = (v, n)"
    by (rule prod.exhaust)
  have k: "k < 64" "wd_capacity (sp_header (sps_mem s)) = 2 ^ k" using ok by (auto simp: spmc_ok_def)
  have "n = 0 \<longleftrightarrow> unat n = 0" by (simp add: unat_eq_zero)
  with spmc_poll_begin_abs [OF k spmc_views(1,2) [OF inv] op] show ?thesis
    by (auto simp: spmc_reader_poll_def op spmc_abs_reader_def l_poll_def spmc_abs_def Let_def)
qed

lemma spmc_reader_load_abs:
  assumes ok: "spmc_ok k sz s"
  shows "spmc_abs_reader (spmc_reader_load (sps_mem s) n buf i j (sps_readers s r)) =
           (l_readers (spmc_abs s) r)\<lparr>lr_pc := LCopy (put_unit i j
              (load_unit ((lr_read (l_readers (spmc_abs s) r) + i) mod 2 ^ k) j (l_slots (spmc_abs s))) buf)\<rparr>"
  using ok by (simp add: spmc_reader_load_def spmc_abs_reader_def spmc_abs_def spmc_ok_def slot_of_sum)

lemma spmc_reader_finish_abs:
  assumes ok: "spmc_ok k sz s" and inv: "lossy_inv (2 ^ k) sz (spmc_abs s)" and bd: "spmc_bounded s"
    and pc: "spr_pc (sps_readers s r) = RCopy n buf"
  shows "spmc_abs_reader (spmc_reader_finish (sps_mem s) n buf (sps_readers s r)) =
           l_finish (length (l_log (spmc_abs s)) - 2 ^ k) buf (l_readers (spmc_abs s) r)"
proof -
  let ?h = "sp_header (sps_mem s)"
  obtain v lost where op: "spmc_poll_finish ?h n (spr_view (sps_readers s r)) = (lost, v)"
    by (rule prod.exhaust)
  have k: "k < 64" "wd_capacity ?h = 2 ^ k" and b: "seq_begun (sh_write_seq ?h) = length (sps_log s)"
    using ok by (auto simp: spmc_ok_def)
  have q: "unat (sh_write_seq ?h) + 1 < 2 ^ 64"
    using bd b by (simp add: spmc_bounded_def seq_begun_def)
  have len: "length buf = unat n" using ok pc by (auto simp: spmc_ok_def dest!: spec [of _ r])
  then have "unat (local_tail (spr_view (sps_readers s r))) + unat n \<le> unat (sh_head ?h)"
    using spmc_views(3) [OF inv pc] by simp
  from spmc_poll_finish_abs [OF k q this spmc_views(2) [OF inv] op] show ?thesis
    by (simp add: spmc_reader_finish_def op spmc_abs_reader_def l_finish_def spmc_abs_def Let_def len b)
qed

lemma spmc_step_simulates:
  assumes st: "spmc_step sz s s'" and ok: "spmc_ok k sz s" and inv: "lossy_inv (2 ^ k) sz (spmc_abs s)"
    and bd: "spmc_bounded s'"
  shows "spmc_ok k sz s' \<and> lossy_step (2 ^ k) (2 ^ k) sz (spmc_abs s) (spmc_abs s')"
proof -
  let ?h = "sp_header (sps_mem s)"
  have w: "lwriter_inv (2 ^ k) sz (spmc_abs s)" using inv by (simp add: lossy_inv_def)
  note pub = lwriter_inv_pub [OF w]
  have le: "unat (sh_head ?h) \<le> length (sps_log s)" using pub by (simp add: spmc_abs_def)
  from st show ?thesis
  proof cases
    case (broadcast_begin val h)
    have eq: "spmc_abs s' = (spmc_abs s)\<lparr>l_log := l_log (spmc_abs s) @ [val], l_writing := Some {}\<rparr>"
      by (simp add: broadcast_begin spmc_abs_def spmc_set_seq_def)
    have "lossy_step (2 ^ k) (2 ^ k) sz (spmc_abs s) (spmc_abs s')"
      unfolding eq using broadcast_begin by (intro lossy_step.begin_write) (simp_all add: spmc_abs_def)
    moreover have len: "length (sps_log s) = unat (sh_head ?h)"
      using w broadcast_begin by (simp add: lwriter_inv_def spmc_abs_def)
    moreover have "seq_begun (begin_value (sh_head ?h)) = Suc (length (sps_log s))"
      using bd broadcast_begin len by (simp add: seq_begun_begin spmc_bounded_def)
    ultimately show ?thesis using ok broadcast_begin by (simp add: spmc_ok_def spmc_set_seq_def nth_append)
  next
    case (broadcast_copy h val D j)
    have eq: "spmc_abs s' = (spmc_abs s)\<lparr>l_slots := store_unit (l_pub (spmc_abs s) mod 2 ^ k) j
        (l_log (spmc_abs s) ! l_pub (spmc_abs s) ! j) (l_slots (spmc_abs s)), l_writing := Some (insert j D)\<rparr>"
      using ok broadcast_copy by (simp add: spmc_abs_def spmc_store_unit_def spmc_ok_def slot_of_word)
    have "lossy_step (2 ^ k) (2 ^ k) sz (spmc_abs s) (spmc_abs s')"
      unfolding eq using broadcast_copy by (intro lossy_step.store_unit) (simp_all add: spmc_abs_def)
    then show ?thesis using ok broadcast_copy by (simp add: spmc_ok_def spmc_store_unit_def)
  next
    case (broadcast_end h val D)
    have "spmc_abs s' = spmc_abs s" by (simp add: broadcast_end spmc_abs_def spmc_set_seq_def)
    moreover have "length (sps_log s) = Suc (unat (sh_head ?h))"
      using w broadcast_end by (simp add: lwriter_inv_def spmc_abs_def)
    moreover have "seq_begun (end_value (sh_head ?h)) = Suc (unat (sh_head ?h))"
      using bd broadcast_end calculation(2) by (simp add: seq_begun_end spmc_bounded_def)
    ultimately show ?thesis using ok broadcast_end
      by (simp add: spmc_ok_def spmc_set_seq_def lossy_step.skip)
  next
    case (broadcast_head h val D)
    have D: "{..< sz} \<subseteq> D" "h = sh_head ?h" using ok broadcast_head by (simp_all add: spmc_ok_def)
    have len: "length (sps_log s) = Suc (unat (sh_head ?h))"
      using w broadcast_head by (simp add: lwriter_inv_def spmc_abs_def)
    then have "unat (sh_head ?h) + 1 < 2 ^ 64" using bd broadcast_head by (simp add: spmc_bounded_def)
    then have eq: "spmc_abs s' = (spmc_abs s)\<lparr>l_pub := Suc (l_pub (spmc_abs s)), l_writing := None\<rparr>"
      using D broadcast_head by (simp add: spmc_abs_def spmc_set_head_def unat_succ64)
    have "lossy_step (2 ^ k) (2 ^ k) sz (spmc_abs s) (spmc_abs s')"
      unfolding eq using broadcast_head D by (intro lossy_step.publish) (simp_all add: spmc_abs_def)
    then show ?thesis using ok broadcast_head D by (simp add: spmc_ok_def spmc_set_head_def)
  next
    case (poll_load r max_count)
    note p = spmc_reader_poll_abs [OF ok inv, of max_count r]
    have "lossy_step (2 ^ k) (2 ^ k) sz (spmc_abs s) (spmc_abs s')"
      unfolding poll_load(1) spmc_abs_readers p [THEN conjunct1]
      using poll_load by (intro lossy_step.poll) (simp add: spmc_abs_def spmc_abs_reader_def)
    then show ?thesis using ok poll_load p by (simp add: spmc_ok_def)
  next
    case (poll_copy r n buf i j)
    have "lossy_step (2 ^ k) (2 ^ k) sz (spmc_abs s) (spmc_abs s')"
      unfolding poll_copy(1) spmc_abs_readers spmc_reader_load_abs [OF ok]
      using poll_copy by (intro lossy_step.load_unit) (simp_all add: spmc_abs_def spmc_abs_reader_def)
    moreover have "spmc_rpc_ok (RCopy n buf)" using ok poll_copy(2) by (auto simp: spmc_ok_def dest!: spec [of _ r])
    ultimately show ?thesis using ok poll_copy by (simp add: spmc_ok_def spmc_reader_load_def)
  next
    case (poll_check r n buf)
    have "spmc_bounded s" using bd poll_check by (simp add: spmc_bounded_def)
    note f = spmc_reader_finish_abs [OF ok inv this poll_check(2)]
    have "lossy_step (2 ^ k) (2 ^ k) sz (spmc_abs s) (spmc_abs s')"
      unfolding poll_check(1) spmc_abs_readers f
      using poll_check pub by (intro lossy_step.finish) (auto simp: spmc_abs_def spmc_abs_reader_def)
    with ok poll_check show ?thesis
      by (auto simp: spmc_ok_def spmc_reader_finish_def Let_def split: prod.splits)
  qed
qed

lemma spmc_fresh_ok:
  assumes "spmc_fresh k sz s"
  shows "spmc_ok k sz s \<and> lossy_inv (2 ^ k) sz (spmc_abs s)"
proof -
  obtain tr slots where k: "k < 64" and wf: "slots_wf (2 ^ k) sz slots" and s: "s = spmc_start tr (2 ^ k) slots"
    using assms by (auto simp: spmc_fresh_def)
  have "spmc_abs s = lossy_start slots"
    by (simp add: s spmc_start_def spmc_abs_def lossy_start_def spmc_abs_reader_def spmc_new_view_def new_SpmcRingHeader_def)
  with lossy_start_inv [OF wf] k show ?thesis
    by (simp add: spmc_ok_def s spmc_start_def new_SpmcRingHeader_def)
qed

interpretation spmc: lossy_refinement "2 ^ k" "2 ^ k" sz "spmc_step sz" spmc_abs "spmc_ok k sz" "spmc_fresh k sz" spmc_bounded
  for k sz :: nat
proof unfold_locales
  show "spmc_fresh k sz s \<Longrightarrow> spmc_ok k sz s \<and> lossy_inv (2 ^ k) sz (spmc_abs s)" for s :: "'a spmc_sys"
    by (rule spmc_fresh_ok)
  show "spmc_step sz s s' \<Longrightarrow> spmc_bounded s' \<Longrightarrow> spmc_bounded s" for s s' :: "'a spmc_sys"
    by (erule spmc_step.cases) (auto simp: spmc_bounded_def)
  show "spmc_step sz s s' \<Longrightarrow> spmc_ok k sz s \<Longrightarrow> lossy_inv (2 ^ k) sz (spmc_abs s) \<Longrightarrow> spmc_bounded s' \<Longrightarrow>
      spmc_ok k sz s' \<and> lossy_step (2 ^ k) (2 ^ k) sz (spmc_abs s) (spmc_abs s')" for s s' :: "'a spmc_sys"
    by (rule spmc_step_simulates)
qed simp

lemma spmc_exec_step: "spmc_exec sz a s = Some s' \<Longrightarrow> spmc_step sz s s'"
  by (cases a) (auto intro: spmc_step.intros simp: list_all_iff subset_iff Let_def
      split: spmc_wpc.splits spmc_rpc.splits if_splits)

lemma spmc_run_steps: "spmc_run sz as s = Some s' \<Longrightarrow> (spmc_step sz)\<^sup>*\<^sup>* s s'"
proof (induction "as" arbitrary: s)
  case (Cons a "as")
  then obtain t where "spmc_exec sz a s = Some t" "spmc_run sz as t = Some s'"
    by (auto simp: bind_eq_Some_conv)
  with Cons.IH [of t] spmc_exec_step show ?case by (blast intro: converse_rtranclp_into_rtranclp)
qed simp

section \<open>Theorems\<close>

text \<open>
  C11: no consumer of the broadcast ring ever returns a torn, stale or invented
  record, and its accounting is exact: what it has returned has strictly
  increasing record numbers and the published contents, and records returned plus
  \<^verbatim>\<open>overrun_count()\<close> plus records not looked at yet equal the producer's head.
\<close>

theorem spmc_consumer_safe:
  assumes "(spmc_step sz)\<^sup>*\<^sup>* s0 s" and "spmc_fresh k sz s0" and "length (sps_log s) + 1 < 2 ^ 63"
  shows "let H = unat (sh_head (sp_header (sps_mem s))); v = spr_view (sps_readers s r); got = spr_got (sps_readers s r)
         in sorted_wrt (<) (map fst got) \<and> (\<forall>(i, rec)\<in>set got. i < H \<and> rec = sps_log s ! i) \<and>
            unat (local_tail v) \<le> H \<and> length got + unat (overrun_count v) + (H - unat (local_tail v)) = H"
proof -
  have "spmc_bounded s" using assms(3) by (simp add: spmc_bounded_def)
  from spmc.reader_safe [OF assms(1,2) this, of r] show ?thesis
    by (fastforce simp: lgot_inv_def spmc_abs_def spmc_abs_reader_def Let_def)
qed

theorem spmc_consumer_safe_witness:
  "\<exists>s. (spmc_step 1)\<^sup>*\<^sup>* (spmc_start Traits_ExecutionEvent 2 [[0], [0::nat]]) s \<and>
       map fst (spr_got (sps_readers s 4)) = [0] \<and> (\<forall>(i, rec)\<in>set (spr_got (sps_readers s 4)). rec = sps_log s ! i)"
proof -
  let ?s0 = "spmc_start Traits_ExecutionEvent 2 [[0], [0::nat]]"
  let ?run = "spmc_run 1 [Broadcast_begin [7], Broadcast_copy 0, Broadcast_end, Broadcast_head,
    Poll_load 4 5, Poll_copy 4 0 0, Poll_check 4] ?s0"
  have fresh: "spmc_fresh 1 1 ?s0"
    unfolding spmc_fresh_def by (intro conjI exI [of _ Traits_ExecutionEvent] exI [of _ "[[0], [0::nat]]"])
      (auto simp: slots_wf_def less_Suc_eq numeral_2_eq_2)
  have "map_option (\<lambda>s. (map fst (spr_got (sps_readers s 4)), length (sps_log s))) ?run = Some ([0], 1)"
    by code_simp
  then obtain s where s: "?run = Some s" "map fst (spr_got (sps_readers s 4)) = [0]" "length (sps_log s) + 1 < 2 ^ 63"
    by (auto simp: map_option_eq_Some)
  note st = spmc_run_steps [OF s(1)]
  from spmc_consumer_safe [OF st fresh s(3), of 4] s(2) show ?thesis
    by (intro exI [of _ s] conjI st) (auto simp: Let_def)
qed

end
