(* ===== verification/Shm_Ring.thy ===== *)
theory Shm_Ring
  imports Fifo_Interface Seqlock Shm_Layout
begin

text \<open>
  Model of class \<^verbatim>\<open>ShmRing\<close> of \<^verbatim>\<open>include/animus/shm_ipc.hpp\<close>: the one-producer
  one-consumer ring in a named segment, with strict backpressure (\<^verbatim>\<open>try_push\<close>) or
  overwrite of the oldest record (\<^verbatim>\<open>push_overwrite\<close>), and the process liveness
  fields. This theory has the operations as they run alone.
\<close>

section \<open>Operations\<close>

record 'a shm_ring =
  sr_header :: RingHeader
  sr_slots :: "'a list"

abbreviation sr_head :: "'a shm_ring \<Rightarrow> u64" where "sr_head m \<equiv> rh_head (sr_header m)"
abbreviation sr_tail :: "'a shm_ring \<Rightarrow> u64" where "sr_tail m \<equiv> rh_tail (sr_header m)"
abbreviation sr_seq :: "'a shm_ring \<Rightarrow> u64" where "sr_seq m \<equiv> rh_write_seq (sr_header m)"
abbreviation sr_capacity :: "'a shm_ring \<Rightarrow> u64" where "sr_capacity m \<equiv> wd_capacity (sr_header m)"
abbreviation sr_mask :: "'a shm_ring \<Rightarrow> u64" where "sr_mask m \<equiv> wd_mask (sr_header m)"

definition sr_slot :: "u64 \<Rightarrow> 'a shm_ring \<Rightarrow> nat" where
  "sr_slot i m = unat (i AND sr_mask m)"

definition shm_try_push :: "'a \<Rightarrow> 'a shm_ring \<Rightarrow> bool \<times> 'a shm_ring" where
  "shm_try_push value m =
     (let head = sr_head m; tail = sr_tail m
      in if sr_capacity m \<le> head - tail then (False, m)
         else (True, m\<lparr>sr_slots := (sr_slots m)[sr_slot head m := value],
                       sr_header := (sr_header m)\<lparr>rh_head := head + 1\<rparr>\<rparr>))"

definition kMaxSeqlockAttempts :: nat where "kMaxSeqlockAttempts = 64"
definition kMaxReclaimAttempts :: nat where "kMaxReclaimAttempts = 4"
definition kDefaultMaxSpins :: nat where "kDefaultMaxSpins = 200000000"

text \<open>
  The compare-exchange loop of \<^verbatim>\<open>push_overwrite\<close>, with the attempts left; \<^verbatim>\<open>spurious\<close>
  says at which attempts the weak compare-exchange fails although it need not.
\<close>

fun shm_reclaim :: "(nat \<Rightarrow> bool) \<Rightarrow> u64 \<Rightarrow> u64 \<Rightarrow> nat \<Rightarrow> RingHeader \<Rightarrow> RingHeader" where
  "shm_reclaim spurious floor tail 0 h = h"
| "shm_reclaim spurious floor tail (Suc tries) h =
     (if tail < floor
      then (if rh_tail h = tail \<and> \<not> spurious tries
            then h\<lparr>rh_tail := floor, rh_dropped_count := rh_dropped_count h + 1\<rparr>
            else shm_reclaim spurious floor (rh_tail h) tries h)
      else h)"

definition shm_push_overwrite :: "(nat \<Rightarrow> bool) \<Rightarrow> 'a \<Rightarrow> 'a shm_ring \<Rightarrow> 'a shm_ring" where
  "shm_push_overwrite spurious value m =
     (let head = sr_head m; tail = sr_tail m
      in if head - tail < sr_capacity m
         then m\<lparr>sr_slots := (sr_slots m)[sr_slot head m := value],
                sr_header := (sr_header m)\<lparr>rh_head := head + 1\<rparr>\<rparr>
         else (let h = sr_header m;
                   h = (if rh_write_seq h = 0 then h\<lparr>rh_overwrite_active := 1\<rparr> else h);
                   h = h\<lparr>rh_write_seq := begin_value head\<rparr>;
                   floor = head - sr_capacity m + 1;
                   h = shm_reclaim spurious floor tail kMaxReclaimAttempts h;
                   slots = (sr_slots m)[sr_slot head m := value];
                   h = h\<lparr>rh_write_seq := end_value head\<rparr>;
                   h = h\<lparr>rh_head := head + 1\<rparr>
               in \<lparr>sr_header = h, sr_slots = slots\<rparr>))"

fun shm_seqlock_loop :: "nat \<Rightarrow> u64 \<Rightarrow> 'a shm_ring \<Rightarrow> 'a option \<times> 'a shm_ring" where
  "shm_seqlock_loop 0 tail m = (None, m)"
| "shm_seqlock_loop (Suc attempts) tail m =
     (let capacity = sr_capacity m;
          head = sr_head m;
          tail = (if capacity < head - tail then head - capacity else tail)
      in if tail = head then (None, m)
         else (let snapshot = sr_slots m ! sr_slot tail m
               in if \<not> lapped (sr_seq m) tail capacity
                  then (Some snapshot, m\<lparr>sr_header := (sr_header m)\<lparr>rh_tail := tail + 1\<rparr>\<rparr>)
                  else shm_seqlock_loop attempts (tail + 1) m))"

definition shm_try_pop_seqlock :: "'a shm_ring \<Rightarrow> 'a option \<times> 'a shm_ring" where
  "shm_try_pop_seqlock m = shm_seqlock_loop kMaxSeqlockAttempts (sr_tail m) m"

text \<open>
  Run alone, the re-read of the tail in the fast route finds it unchanged.
\<close>

definition shm_try_pop :: "'a shm_ring \<Rightarrow> 'a option \<times> 'a shm_ring" where
  "shm_try_pop m =
     (let tail = sr_tail m; head = sr_head m
      in if rh_overwrite_active (sr_header m) = 0
         then (if tail = head then (None, m)
               else (let snapshot = sr_slots m ! sr_slot tail m
                     in (Some snapshot, m\<lparr>sr_header := (sr_header m)\<lparr>rh_tail := tail + 1\<rparr>\<rparr>)))
         else shm_try_pop_seqlock m)"

text \<open>The spin loops; \<^verbatim>\<open>peer\<close> is what the other side does during \<^verbatim>\<open>cpu_relax\<close>.\<close>

fun shm_push_spin :: "('a shm_ring \<Rightarrow> 'a shm_ring) \<Rightarrow> 'a \<Rightarrow> nat \<Rightarrow> 'a shm_ring \<Rightarrow> bool \<times> 'a shm_ring" where
  "shm_push_spin peer value 0 m = (False, m)"
| "shm_push_spin peer value (Suc spins) m =
     (case shm_try_push value m of
        (True, m) \<Rightarrow> (True, m)
      | (False, m) \<Rightarrow> shm_push_spin peer value spins (peer m))"

fun shm_pop_spin :: "('a shm_ring \<Rightarrow> 'a shm_ring) \<Rightarrow> nat \<Rightarrow> 'a shm_ring \<Rightarrow> 'a option \<times> 'a shm_ring" where
  "shm_pop_spin peer 0 m = (None, m)"
| "shm_pop_spin peer (Suc spins) m =
     (case shm_try_pop m of
        (Some x, m) \<Rightarrow> (Some x, m)
      | (None, m) \<Rightarrow> shm_pop_spin peer spins (peer m))"

section \<open>Liveness of the peer process\<close>

definition mark_producer_attached :: "u64 \<Rightarrow> RingHeader \<Rightarrow> RingHeader" where
  "mark_producer_attached pid h = h\<lparr>rh_producer_pid := pid, rh_producer_heartbeat := 1\<rparr>"

definition mark_consumer_attached :: "u64 \<Rightarrow> RingHeader \<Rightarrow> RingHeader" where
  "mark_consumer_attached pid h = h\<lparr>rh_consumer_pid := pid, rh_consumer_heartbeat := 1\<rparr>"

definition producer_heartbeat :: "RingHeader \<Rightarrow> RingHeader" where
  "producer_heartbeat h = h\<lparr>rh_producer_heartbeat := rh_producer_heartbeat h + 1\<rparr>"

definition consumer_heartbeat :: "RingHeader \<Rightarrow> RingHeader" where
  "consumer_heartbeat h = h\<lparr>rh_consumer_heartbeat := rh_consumer_heartbeat h + 1\<rparr>"

text \<open>
  \<^verbatim>\<open>peer_alive\<close> with \<^verbatim>\<open>is_process_alive\<close> as a parameter; the pair is the caller's own
  \<^verbatim>\<open>last_seen\<close> and \<^verbatim>\<open>stall_count\<close>.
\<close>

definition peer_alive :: "(u64 \<Rightarrow> bool) \<Rightarrow> u64 \<Rightarrow> u64 \<Rightarrow> u64 \<Rightarrow> u64 \<times> u64 \<Rightarrow> bool \<times> u64 \<times> u64" where
  "peer_alive is_process_alive pid hb stale_after = (\<lambda>(last_seen, stall_count).
     if pid = 0 then (True, last_seen, stall_count)
     else if \<not> is_process_alive pid then (False, last_seen, stall_count)
     else if stale_after = 0 then (True, last_seen, stall_count)
     else if hb \<noteq> last_seen then (True, hb, 0)
     else (stall_count + 1 < stale_after, last_seen, stall_count + 1))"

definition is_producer_alive :: "(u64 \<Rightarrow> bool) \<Rightarrow> RingHeader \<Rightarrow> u64 \<Rightarrow> u64 \<times> u64 \<Rightarrow> bool \<times> u64 \<times> u64" where
  "is_producer_alive alive h stale_after = peer_alive alive (rh_producer_pid h) (rh_producer_heartbeat h) stale_after"

definition is_consumer_alive :: "(u64 \<Rightarrow> bool) \<Rightarrow> RingHeader \<Rightarrow> u64 \<Rightarrow> u64 \<times> u64 \<Rightarrow> bool \<times> u64 \<times> u64" where
  "is_consumer_alive alive h stale_after = peer_alive alive (rh_consumer_pid h) (rh_consumer_heartbeat h) stale_after"

text \<open>Polling \<^verbatim>\<open>is_producer_alive(stale_after)\<close> again and again while the heartbeat stands still.\<close>

fun peer_alive_polls :: "(u64 \<Rightarrow> bool) \<Rightarrow> u64 \<Rightarrow> u64 \<Rightarrow> u64 \<Rightarrow> nat \<Rightarrow> u64 \<times> u64 \<Rightarrow> bool list" where
  "peer_alive_polls alive pid hb stale_after 0 c = []"
| "peer_alive_polls alive pid hb stale_after (Suc n) c =
     (case peer_alive alive pid hb stale_after c of (b, c) \<Rightarrow> b # peer_alive_polls alive pid hb stale_after n c)"

section \<open>Invariant and abstraction\<close>

text \<open>\<^term>\<open>T\<close> records consumed or reclaimed, \<^term>\<open>H\<close> records pushed.\<close>

definition shm_cursors :: "nat \<Rightarrow> nat \<Rightarrow> nat \<Rightarrow> 'a shm_ring \<Rightarrow> bool" where
  "shm_cursors k T H m \<longleftrightarrow> k < 64 \<and> sr_capacity m = 2 ^ k \<and> sr_mask m = 2 ^ k - 1 \<and> length (sr_slots m) = 2 ^ k \<and>
     sr_head m = of_nat H \<and> sr_tail m = of_nat T \<and> T \<le> H \<and> H \<le> T + 2 ^ k"

definition shm_strict :: "'a shm_ring \<Rightarrow> bool" where
  "shm_strict m \<longleftrightarrow> rh_overwrite_active (sr_header m) = 0 \<and> (\<exists>k T H. shm_cursors k T H m)"

definition shm_cap :: "'a shm_ring \<Rightarrow> nat" where
  "shm_cap m = unat (sr_capacity m)"

definition shm_contents :: "'a shm_ring \<Rightarrow> 'a list" where
  "shm_contents m = map (\<lambda>i. sr_slots m ! sr_slot (sr_tail m + of_nat i) m) [0..<unat (sr_head m - sr_tail m)]"

lemma shm_slot: "shm_cursors k T H m \<Longrightarrow> sr_slot (of_nat i) m = i mod 2 ^ k"
  by (simp add: shm_cursors_def sr_slot_def slot_of_cursor)

lemma shm_contents_eq:
  assumes "shm_cursors k T H m"
  shows "shm_contents m = ring_contents (2 ^ k) (sr_slots m) T H"
proof -
  have c: "k < 64" "sr_head m = of_nat H" "sr_tail m = of_nat T" "T \<le> H" "H \<le> T + 2 ^ k"
    using assms by (auto simp: shm_cursors_def)
  have d: "unat (sr_head m - sr_tail m) = H - T"
    using c pow_less_64 [OF c(1)] by (simp only: c(2,3)) (intro cursor_diff, linarith+)
  have s: "sr_slot (sr_tail m + of_nat i) m = (T + i) mod 2 ^ k" for i
    using shm_slot [OF assms, of "T + i"] by (simp add: c(3))
  show ?thesis by (simp add: shm_contents_def ring_contents_def d s list_eq_iff_nth_eq)
qed

lemma shm_cursors_cap: "shm_cursors k T H m \<Longrightarrow> shm_cap m = 2 ^ k"
  by (simp add: shm_cap_def shm_cursors_def unat_pow2)

lemma length_shm_contents: "shm_cursors k T H m \<Longrightarrow> length (shm_contents m) = H - T"
  by (simp add: shm_contents_eq)

lemma shm_full_test: "shm_cursors k T H m \<Longrightarrow> sr_capacity m \<le> sr_head m - sr_tail m \<longleftrightarrow> H = T + 2 ^ k"
  by (auto simp: shm_cursors_def cursor_full_test)

lemma shm_empty_test: "shm_cursors k T H m \<Longrightarrow> sr_tail m = sr_head m \<longleftrightarrow> T = H"
  by (auto simp: shm_cursors_def cursor_empty_test)

text \<open>A record stored in the free slot at the head, and the oldest record taken away.\<close>

lemma shm_cursors_push:
  assumes "shm_cursors k T H m" and "H < T + 2 ^ k"
    and "m' = m\<lparr>sr_slots := (sr_slots m)[sr_slot (sr_head m) m := x], sr_header := (sr_header m)\<lparr>rh_head := sr_head m + 1\<rparr>\<rparr>"
  shows "shm_cursors k T (Suc H) m' \<and> shm_contents m' = shm_contents m @ [x]"
proof -
  have c: "shm_cursors k T (Suc H) m'" using assms by (auto simp: shm_cursors_def)
  have "sr_slot (sr_head m) m = H mod 2 ^ k"
    using shm_slot [OF assms(1), of H] assms(1) by (simp add: shm_cursors_def)
  then have "sr_slots m' = (sr_slots m)[H mod 2 ^ k := x]" by (simp add: assms(3))
  moreover have "T \<le> H" "length (sr_slots m) = 2 ^ k" using assms(1) by (auto simp: shm_cursors_def)
  ultimately have "shm_contents m' = shm_contents m @ [x]"
    using ring_contents_push [of T H "2 ^ k" "sr_slots m" x] assms(2)
    unfolding shm_contents_eq [OF c] shm_contents_eq [OF assms(1)] by auto
  with c show ?thesis by blast
qed

lemma shm_cursors_pop:
  assumes "shm_cursors k T H m" and "T < H" and "m' = m\<lparr>sr_header := (sr_header m)\<lparr>rh_tail := sr_tail m + 1\<rparr>\<rparr>"
  shows "shm_cursors k (Suc T) H m' \<and> shm_contents m = sr_slots m ! sr_slot (sr_tail m) m # shm_contents m'"
proof -
  have c: "shm_cursors k (Suc T) H m'" using assms by (auto simp: shm_cursors_def)
  have "sr_slot (sr_tail m) m = T mod 2 ^ k"
    using shm_slot [OF assms(1), of T] assms(1) by (simp add: shm_cursors_def)
  moreover have "sr_slots m' = sr_slots m" by (simp add: assms(3))
  ultimately have "shm_contents m = sr_slots m ! sr_slot (sr_tail m) m # shm_contents m'"
    unfolding shm_contents_eq [OF c] shm_contents_eq [OF assms(1)] using assms(2) by (simp add: ring_contents_pop)
  with c show ?thesis by blast
qed

section \<open>Strict mode meets the queue contract\<close>

lemma shm_strictE:
  assumes "shm_strict m"
  obtains k T H where "shm_cursors k T H m" and "rh_overwrite_active (sr_header m) = 0"
  using assms by (auto simp: shm_strict_def)

lemma shm_try_push_cases:
  assumes c: "shm_cursors k T H m" and op: "shm_try_push x m = (b, m')"
  shows "(\<not> b \<and> H = T + 2 ^ k \<and> m' = m) \<or>
         (b \<and> H < T + 2 ^ k \<and> shm_cursors k T (Suc H) m' \<and> shm_contents m' = shm_contents m @ [x] \<and>
          rh_overwrite_active (sr_header m') = rh_overwrite_active (sr_header m))"
proof (cases "sr_capacity m \<le> sr_head m - sr_tail m")
  case True
  then show ?thesis using op shm_full_test [OF c] by (auto simp: shm_try_push_def)
next
  case False
  moreover have "H \<le> T + 2 ^ k" using c by (simp add: shm_cursors_def)
  ultimately have "H < T + 2 ^ k" using shm_full_test [OF c] by simp
  with False op shm_cursors_push [OF c, of m' x] show ?thesis by (auto simp: shm_try_push_def Let_def)
qed

lemma shm_try_pop_cases:
  assumes c: "shm_cursors k T H m" and a: "rh_overwrite_active (sr_header m) = 0" and op: "shm_try_pop m = (r, m')"
  shows "(r = None \<and> T = H \<and> m' = m) \<or>
         (\<exists>x. r = Some x \<and> T < H \<and> shm_cursors k (Suc T) H m' \<and> shm_contents m = x # shm_contents m' \<and>
          rh_overwrite_active (sr_header m') = 0)"
proof (cases "sr_tail m = sr_head m")
  case True
  then show ?thesis using op a shm_empty_test [OF c] by (auto simp: shm_try_pop_def)
next
  case False
  then have "T < H" using shm_empty_test [OF c] c by (auto simp: shm_cursors_def)
  with False op a shm_cursors_pop [OF c, of m'] show ?thesis by (auto simp: shm_try_pop_def Let_def)
qed

interpretation shm: bounded_fifo shm_strict shm_contents shm_cap shm_try_push shm_try_pop
proof (unfold_locales, goal_cases)
  case (1 m)
  then obtain k T H where c: "shm_cursors k T H m" by (rule shm_strictE)
  then show ?case using length_shm_contents [OF c] shm_cursors_cap [OF c] by (auto simp: shm_cursors_def)
next
  case (2 m x m')
  then obtain k T H where c: "shm_cursors k T H m" by (elim shm_strictE)
  from shm_try_push_cases [OF c 2(2)] 2(1) show ?case
    using length_shm_contents [OF c] shm_cursors_cap [OF c] by simp
next
  case (3 m x m')
  then obtain k T H where c: "shm_cursors k T H m" "rh_overwrite_active (sr_header m) = 0" by (elim shm_strictE)
  from shm_try_push_cases [OF c(1) 3(2)] have c': "H < T + 2 ^ k" "shm_cursors k T (Suc H) m'"
    "shm_contents m' = shm_contents m @ [x]" "rh_overwrite_active (sr_header m') = 0"
    using c(2) by auto
  moreover have "T \<le> H" using c(1) by (simp add: shm_cursors_def)
  ultimately show ?case
    using length_shm_contents [OF c(1)] shm_cursors_cap [OF c(1)] shm_cursors_cap [OF c'(2)]
    unfolding shm_strict_def by auto
next
  case (4 m m')
  then obtain k T H where c: "shm_cursors k T H m" "rh_overwrite_active (sr_header m) = 0" by (elim shm_strictE)
  from shm_try_pop_cases [OF c 4(2)] 4(1) show ?case using length_shm_contents [OF c(1)] by simp
next
  case (5 m x m')
  then obtain k T H where c: "shm_cursors k T H m" "rh_overwrite_active (sr_header m) = 0" by (elim shm_strictE)
  from shm_try_pop_cases [OF c 5(2)] shm_cursors_cap [OF c(1)] show ?case
    by (auto simp: shm_strict_def shm_cursors_cap)
qed

section \<open>Overwrite mode is a drop-oldest queue\<close>

datatype 'a shm_op = Push 'a | Overwrite 'a | Pop
datatype 'a shm_res = Pushed bool | Stored | Popped "'a option"

text \<open>A caller using one handle: a sequence of operations and their results.\<close>

fun shm_exec :: "(nat \<Rightarrow> bool) \<Rightarrow> 'a shm_op \<Rightarrow> 'a shm_ring \<Rightarrow> 'a shm_res \<times> 'a shm_ring" where
  "shm_exec spurious (Push x) m = (case shm_try_push x m of (b, m) \<Rightarrow> (Pushed b, m))"
| "shm_exec spurious (Overwrite x) m = (Stored, shm_push_overwrite spurious x m)"
| "shm_exec spurious Pop m = (case shm_try_pop m of (r, m) \<Rightarrow> (Popped r, m))"

fun shm_run :: "(nat \<Rightarrow> bool) \<Rightarrow> 'a shm_op list \<Rightarrow> 'a shm_ring \<Rightarrow> 'a shm_res list \<times> 'a shm_ring" where
  "shm_run spurious [] m = ([], m)"
| "shm_run spurious (a # as) m =
     (case shm_exec spurious a m of (r, m) \<Rightarrow> case shm_run spurious as m of (rs, m) \<Rightarrow> (r # rs, m))"

text \<open>The specification: a bounded list and the number of records dropped from its front.\<close>

fun queue_exec :: "nat \<Rightarrow> 'a shm_op \<Rightarrow> 'a list \<times> nat \<Rightarrow> 'a shm_res \<times> 'a list \<times> nat" where
  "queue_exec c (Push x) (q, d) = (if length q < c then (Pushed True, q @ [x], d) else (Pushed False, q, d))"
| "queue_exec c (Overwrite x) (q, d) = (if length q < c then (Stored, q @ [x], d) else (Stored, tl q @ [x], Suc d))"
| "queue_exec c Pop (q, d) = (case q of [] \<Rightarrow> (Popped None, [], d) | x # q' \<Rightarrow> (Popped (Some x), q', d))"

fun queue_run :: "nat \<Rightarrow> 'a shm_op list \<Rightarrow> 'a list \<times> nat \<Rightarrow> 'a shm_res list \<times> 'a list \<times> nat" where
  "queue_run c [] s = ([], s)"
| "queue_run c (a # as) s = (case queue_exec c a s of (r, s) \<Rightarrow> case queue_run c as s of (rs, s) \<Rightarrow> (r # rs, s))"

definition shm_ok :: "nat \<Rightarrow> nat \<Rightarrow> nat \<Rightarrow> 'a shm_ring \<Rightarrow> bool" where
  "shm_ok k T H m \<longleftrightarrow> shm_cursors k T H m \<and> seq_begun (sr_seq m) \<le> H"

lemma shm_reclaim_alone:
  "tail < floor \<Longrightarrow> rh_tail h = tail \<Longrightarrow> \<exists>i<n. \<not> spurious i \<Longrightarrow>
   shm_reclaim spurious floor tail n h = h\<lparr>rh_tail := floor, rh_dropped_count := rh_dropped_count h + 1\<rparr>"
  by (induction n) (auto simp: less_Suc_eq)

lemma shm_push_overwrite_full:
  assumes c: "shm_cursors k T H m" and full: "H = T + 2 ^ k" and b: "H + 1 < 2 ^ 63"
    and sp: "\<exists>i<kMaxReclaimAttempts. \<not> spurious i"
  shows "shm_ok k (Suc T) (Suc H) (shm_push_overwrite spurious x m) \<and>
         shm_contents (shm_push_overwrite spurious x m) = tl (shm_contents m) @ [x] \<and>
         rh_dropped_count (sr_header (shm_push_overwrite spurious x m)) = rh_dropped_count (sr_header m) + 1"
proof -
  define m1 where "m1 = m\<lparr>sr_header := (sr_header m)\<lparr>rh_tail := sr_tail m + 1\<rparr>\<rparr>"
  define m2 where "m2 = m1\<lparr>sr_slots := (sr_slots m1)[sr_slot (sr_head m1) m1 := x], sr_header := (sr_header m1)\<lparr>rh_head := sr_head m1 + 1\<rparr>\<rparr>"
  let ?m = "shm_push_overwrite spurious x m"
  have hd: "sr_head m = of_nat H" "sr_tail m = of_nat T" "sr_capacity m = 2 ^ k"
    using c by (auto simp: shm_cursors_def)
  have fl: "sr_head m - sr_capacity m + 1 = sr_tail m + 1" by (simp add: hd full)
  have lt: "sr_tail m < sr_tail m + 1"
  proof -
    have "unat (of_nat (Suc T) :: u64) = Suc T" "unat (of_nat T :: u64) = T"
      using b full by (intro unat_of_nat64, simp)+
    then show ?thesis by (simp add: hd word_less_nat_alt add.commute)
  qed
  have nf: "\<not> sr_head m - sr_tail m < sr_capacity m" using shm_full_test [OF c] full by simp
  note rec = shm_reclaim_alone [OF lt, of _ kMaxReclaimAttempts spurious, OF _ sp]
  have T: "T < H" by (simp add: full)
  have s1: "shm_cursors k (Suc T) H m1 \<and> shm_contents m = sr_slots m ! sr_slot (sr_tail m) m # shm_contents m1"
    using shm_cursors_pop [OF c T m1_def] .
  have s2: "shm_cursors k (Suc T) (Suc H) m2 \<and> shm_contents m2 = shm_contents m1 @ [x]"
    using s1 full by (intro shm_cursors_push [OF _ _ m2_def]) auto
  have eq: "sr_slots ?m = sr_slots m2" "sr_head ?m = sr_head m2" "sr_tail ?m = sr_tail m2"
      "sr_capacity ?m = sr_capacity m2" "sr_mask ?m = sr_mask m2" "sr_seq ?m = end_value (sr_head m)"
      "rh_dropped_count (sr_header ?m) = rh_dropped_count (sr_header m) + 1"
    using nf by (simp_all add: shm_push_overwrite_def Let_def fl rec m1_def m2_def sr_slot_def)
  have "shm_cursors k (Suc T) (Suc H) ?m" using s2 by (simp add: shm_cursors_def eq)
  moreover have "shm_contents ?m = shm_contents m2" by (simp add: shm_contents_def sr_slot_def eq)
  moreover have "seq_begun (sr_seq ?m) \<le> Suc H" using b by (simp add: eq hd seq_begun_end unat_of_nat64)
  ultimately show ?thesis using s1 s2 eq(7) by (simp add: shm_ok_def)
qed

lemma shm_push_overwrite_free:
  assumes "shm_ok k T H m" and "H < T + 2 ^ k"
  shows "shm_ok k T (Suc H) (shm_push_overwrite spurious x m) \<and>
         shm_contents (shm_push_overwrite spurious x m) = shm_contents m @ [x] \<and>
         rh_dropped_count (sr_header (shm_push_overwrite spurious x m)) = rh_dropped_count (sr_header m)"
proof -
  have c: "shm_cursors k T H m" and q: "seq_begun (sr_seq m) \<le> H" using assms(1) by (auto simp: shm_ok_def)
  have "sr_head m - sr_tail m < sr_capacity m" using shm_full_test [OF c] assms(2) by (simp flip: not_le)
  then have eq: "shm_push_overwrite spurious x m = m\<lparr>sr_slots := (sr_slots m)[sr_slot (sr_head m) m := x],
      sr_header := (sr_header m)\<lparr>rh_head := sr_head m + 1\<rparr>\<rparr>" by (simp add: shm_push_overwrite_def Let_def)
  from shm_cursors_push [OF c assms(2) this] q show ?thesis by (simp add: shm_ok_def) (simp add: eq)
qed

lemma unat_of_seq_begun: "seq_begun w \<le> n \<Longrightarrow> unat w \<le> 2 * n"
  by (simp add: seq_begun_def)

lemma shm_try_pop_ok:
  assumes ok: "shm_ok k T H m" and b: "H + 1 < 2 ^ 63"
  shows "shm_try_pop m = (if T = H then (None, m)
           else (Some (sr_slots m ! sr_slot (sr_tail m) m), m\<lparr>sr_header := (sr_header m)\<lparr>rh_tail := sr_tail m + 1\<rparr>\<rparr>))"
proof -
  have c: "shm_cursors k T H m" and q: "seq_begun (sr_seq m) \<le> H" using ok by (auto simp: shm_ok_def)
  have hd: "sr_head m = of_nat H" "sr_tail m = of_nat T" "sr_capacity m = 2 ^ k" "k < 64" "T \<le> H" "H \<le> T + 2 ^ k"
    using c by (auto simp: shm_cursors_def)
  have noclamp: "\<not> sr_capacity m < sr_head m - sr_tail m"
  proof -
    have "unat (sr_head m - sr_tail m) = H - T" unfolding hd(1,2) using hd(5) b by (intro cursor_diff) auto
    then show ?thesis using hd by (simp add: word_less_nat_alt unat_pow2)
  qed
  have "\<not> lapped (sr_seq m) (sr_tail m) (sr_capacity m)"
  proof -
    have "unat (sr_seq m) + 1 < 2 ^ 64" using unat_of_seq_begun [OF q] b by simp
    moreover have "unat (sr_tail m) = T" unfolding hd(2) using hd(5) b by (intro unat_of_nat64) simp
    ultimately show ?thesis using q hd by (simp add: lapped_iff unat_pow2)
  qed
  with noclamp shm_empty_test [OF c] show ?thesis
    by (auto simp: shm_try_pop_def Let_def shm_try_pop_seqlock_def kMaxSeqlockAttempts_def numeral_eq_Suc)
qed

lemma shm_exec_refines:
  assumes ok: "shm_ok k T H m" and b: "H + 1 < 2 ^ 63" and sp: "\<exists>i<kMaxReclaimAttempts. \<not> spurious i"
    and ex: "shm_exec spurious a m = (r, m')"
  shows "\<exists>T' H' d. shm_ok k T' H' m' \<and> H' \<le> Suc H \<and>
           queue_exec (2 ^ k) a (shm_contents m, D) = (r, shm_contents m', D + d) \<and>
           rh_dropped_count (sr_header m') = rh_dropped_count (sr_header m) + of_nat d"
proof -
  have c: "shm_cursors k T H m" and q: "seq_begun (sr_seq m) \<le> H" using ok by (auto simp: shm_ok_def)
  have TH: "T \<le> H" "H \<le> T + 2 ^ k" using c by (auto simp: shm_cursors_def)
  have len: "length (shm_contents m) = H - T" by (rule length_shm_contents [OF c])
  have room: "length (shm_contents m) < 2 ^ k \<longleftrightarrow> H < T + 2 ^ k" using TH len by auto
  show ?thesis
  proof (cases a)
    case (Push x)
    then obtain p where p: "shm_try_push x m = (p, m')" "r = Pushed p"
      using ex by (auto split: prod.splits)
    show ?thesis
    proof (cases p)
      case False
      with shm_try_push_cases [OF c p(1)] have "H = T + 2 ^ k" "m' = m" by auto
      with False Push p room ok show ?thesis by - (rule exI [of _ T], rule exI [of _ H], rule exI [of _ 0], auto)
    next
      case True
      with shm_try_push_cases [OF c p(1)] have *: "H < T + 2 ^ k" "shm_cursors k T (Suc H) m'" "shm_contents m' = shm_contents m @ [x]"
        by auto
      have "sr_seq m' = sr_seq m" "rh_dropped_count (sr_header m') = rh_dropped_count (sr_header m)"
        using p(1) by (auto simp: shm_try_push_def Let_def split: if_splits)
      with True Push p room q * show ?thesis
        by - (rule exI [of _ T], rule exI [of _ "Suc H"], rule exI [of _ 0], auto simp: shm_ok_def)
    qed
  next
    case (Overwrite x)
    then have m': "m' = shm_push_overwrite spurious x m" "r = Stored" using ex by auto
    show ?thesis
    proof (cases "H < T + 2 ^ k")
      case True
      with shm_push_overwrite_free [OF ok True, of spurious x] Overwrite m' room show ?thesis
        by - (rule exI [of _ T], rule exI [of _ "Suc H"], rule exI [of _ 0], auto)
    next
      case False
      then have "H = T + 2 ^ k" using TH by simp
      from shm_push_overwrite_full [OF c this b sp, of x] False Overwrite m' room show ?thesis
        by - (rule exI [of _ "Suc T"], rule exI [of _ "Suc H"], rule exI [of _ 1], auto)
    qed
  next
    case Pop
    show ?thesis
    proof (cases "T = H")
      case True
      with Pop ex shm_try_pop_ok [OF ok b] len ok show ?thesis
        by - (rule exI [of _ T], rule exI [of _ H], rule exI [of _ 0], auto)
    next
      case False
      then have lt: "T < H" using TH by simp
      have e: "r = Popped (Some (sr_slots m ! sr_slot (sr_tail m) m))" "m' = m\<lparr>sr_header := (sr_header m)\<lparr>rh_tail := sr_tail m + 1\<rparr>\<rparr>"
        using False Pop ex shm_try_pop_ok [OF ok b] by auto
      from shm_cursors_pop [OF c lt e(2)] q Pop e show ?thesis
        by - (rule exI [of _ "Suc T"], rule exI [of _ H], rule exI [of _ 0], auto simp: shm_ok_def)
    qed
  qed
qed

lemma shm_run_refines:
  assumes "shm_ok k T H m" and "H + length ops < 2 ^ 63" and "\<exists>i<kMaxReclaimAttempts. \<not> spurious i"
    and "shm_run spurious ops m = (rs, m')"
  shows "\<exists>d. queue_run (2 ^ k) ops (shm_contents m, D) = (rs, shm_contents m', D + d) \<and>
             rh_dropped_count (sr_header m') = rh_dropped_count (sr_header m) + of_nat d"
  using assms
proof (induction ops arbitrary: m rs T H D)
  case Nil
  then show ?case by (intro exI [of _ 0]) simp
next
  case (Cons a ops)
  obtain r m1 where e: "shm_exec spurious a m = (r, m1)" by fastforce
  obtain rs1 where rs1: "shm_run spurious ops m1 = (rs1, m')" "rs = r # rs1"
    using Cons.prems(4) e by (auto split: prod.splits)
  have "H + 1 < 2 ^ 63 \<or> ops = []" using Cons.prems(2) by (cases ops) auto
  from Cons.prems(2) have "H + 1 < 2 ^ 63" by (simp split: if_splits)
  from shm_exec_refines [OF Cons.prems(1) this Cons.prems(3) e, of D] obtain T' H' d where
    *: "shm_ok k T' H' m1" "H' \<le> Suc H" "queue_exec (2 ^ k) a (shm_contents m, D) = (r, shm_contents m1, D + d)"
      "rh_dropped_count (sr_header m1) = rh_dropped_count (sr_header m) + of_nat d" by blast
  from Cons.IH [OF *(1) _ Cons.prems(3) rs1(1), of "D + d"] *(2) Cons.prems(2) obtain d' where
    "queue_run (2 ^ k) ops (shm_contents m1, D + d) = (rs1, shm_contents m', D + d + d')"
    "rh_dropped_count (sr_header m') = rh_dropped_count (sr_header m1) + of_nat d'" by auto
  with * rs1(2) show ?case by (intro exI [of _ "d + d'"]) (simp add: add.assoc)
qed

section \<open>Spin loops and liveness polls\<close>

lemma shm_push_spin_iff:
  "fst (shm_push_spin peer x n m) \<longleftrightarrow> (\<exists>i<n. fst (shm_try_push x ((peer ^^ i) m)))"
proof (induction n arbitrary: m)
  case 0
  show ?case by simp
next
  case (Suc n)
  obtain b m' where p: "shm_try_push x m = (b, m')" by fastforce
  show ?case
  proof (cases b)
    case True
    with p show ?thesis by (auto intro: exI [of _ 0])
  next
    case False
    then have "m' = m" using p by (auto simp: shm_try_push_def Let_def split: if_splits)
    moreover have "(\<exists>i<Suc n. fst (shm_try_push x ((peer ^^ i) m))) \<longleftrightarrow> (\<exists>i<n. fst (shm_try_push x ((peer ^^ Suc i) m)))"
      using False p by (auto simp: less_Suc_eq_0_disj)
    ultimately show ?thesis using False p Suc.IH [of "peer m"] by (simp add: funpow_swap1)
  qed
qed

lemma peer_alive_polls_stalled:
  assumes "pid \<noteq> 0" and "alive pid" and "stale_after \<noteq> 0" and "unat stall + n < 2 ^ 64"
  shows "peer_alive_polls alive pid hb stale_after n (hb, stall) =
         map (\<lambda>j. unat stall + Suc j < unat stale_after) [0..<n]"
  using assms(4)
proof (induction n arbitrary: stall)
  case 0
  show ?case by simp
next
  case (Suc n)
  then have s: "unat (stall + 1) = Suc (unat stall)" by (intro unat_succ64 [THEN trans]) auto
  have "map (\<lambda>j. unat stall + Suc j < unat stale_after) [0..<Suc n] =
        (Suc (unat stall) < unat stale_after) # map (\<lambda>j. unat (stall + 1) + Suc j < unat stale_after) [0..<n]"
    by (simp add: s upt_conv_Cons map_Suc_upt [symmetric] del: upt_Suc) 
  with Suc assms s show ?case by (simp add: peer_alive_def word_less_nat_alt)
qed

section \<open>Theorems\<close>

text \<open>
  C14: as long as fewer than \<^verbatim>\<open>2^63\<close> records are pushed, any sequence of \<^verbatim>\<open>try_push\<close>, \<^verbatim>\<open>push_overwrite\<close> and
  \<^verbatim>\<open>try_pop\<close> on one ring gives the results of the drop-oldest queue: a push refused exactly when full, an
  overwrite that discards exactly the oldest record, a pop of the oldest, whichever of its two routes it
  takes; and \<^verbatim>\<open>dropped_count\<close> grows by exactly the number of records discarded. The only assumption on the
  weak compare-exchange is that it does not fail spuriously at all four attempts.
\<close>

theorem shm_overwrite_refines_queue:
  assumes "shm_ok k T H m" and "H + length ops < 2 ^ 63" and "\<exists>i<kMaxReclaimAttempts. \<not> spurious i"
  shows "\<exists>rs m' d. shm_run spurious ops m = (rs, m') \<and>
           queue_run (2 ^ k) ops (shm_contents m, 0) = (rs, shm_contents m', d) \<and>
           rh_dropped_count (sr_header m') = rh_dropped_count (sr_header m) + of_nat d"
proof -
  obtain rs m' where r: "shm_run spurious ops m = (rs, m')" by fastforce
  with shm_run_refines [OF assms this, of 0] show ?thesis by auto
qed

definition shm_demo :: "nat shm_ring" where
  "shm_demo = \<lparr>sr_header = new_RingHeader (Traits 8) 2, sr_slots = [0, 0]\<rparr>"

theorem shm_overwrite_refines_queue_witness:
  "\<exists>rs m' d. shm_run (\<lambda>i. 0 < i) [Overwrite 5, Overwrite 6, Overwrite 7, Push 8, Pop, Pop, Pop] shm_demo = (rs, m') \<and>
     queue_run (2 ^ 1) [Overwrite 5, Overwrite 6, Overwrite 7, Push 8, Pop, Pop, Pop] (shm_contents shm_demo, 0) =
       (rs, shm_contents m', d) \<and>
     rh_dropped_count (sr_header m') = rh_dropped_count (sr_header shm_demo) + of_nat d"
proof (rule shm_overwrite_refines_queue [where T = 0 and H = 0])
  show "shm_ok 1 0 0 shm_demo" by code_simp
  show "0 + length [Overwrite 5, Overwrite 6, Overwrite 7, Push 8, Pop, Pop, Pop] < (2::nat) ^ 63" by simp
  show "\<exists>i<kMaxReclaimAttempts. \<not> 0 < i" by (auto simp: kMaxReclaimAttempts_def intro: exI [of _ 0])
qed

text \<open>
  a ring fresh from \<^verbatim>\<open>create\<close> with a power-of-two capacity, and every ring reached from it by \<^verbatim>\<open>try_push\<close>
  and \<^verbatim>\<open>try_pop\<close> alone, is in strict mode; there a batch of pushes accepts exactly as many records as there
  are free slots, in order, and a batch of pops returns the oldest records in order and leaves the rest.
\<close>

theorem shm_strict_batch_fifo:
  assumes "shm_strict m" and "push_batch shm_try_push xs m = (n, m1)" and "pop_batch shm_try_pop j m1 = (ys, m2)"
  shows "n = min (length xs) (shm_cap m - length (shm_contents m)) \<and>
         ys @ shm_contents m2 = shm_contents m @ take n xs \<and> length ys = min j (length (shm_contents m) + n) \<and>
         shm_cap m2 = shm_cap m \<and> shm_strict m2"
  using assms by (rule shm.batch_fifo)

theorem shm_strict_batch_fifo_witness:
  "\<exists>m1 m2. push_batch shm_try_push [4, 5, 6] shm_demo = (2, m1) \<and> pop_batch shm_try_pop 1 m1 = ([4], m2) \<and>
     shm_contents m2 = [5] \<and> shm_strict m2"
proof -
  have "shm_cursors 1 0 0 shm_demo" "rh_overwrite_active (sr_header shm_demo) = 0" by code_simp+
  then have s: "shm_strict shm_demo" unfolding shm_strict_def by blast
  obtain n m1 where p: "push_batch shm_try_push [4, 5, 6] shm_demo = (n, m1)" by fastforce
  obtain ys m2 where q: "pop_batch shm_try_pop 1 m1 = (ys, m2)" by fastforce
  have c: "shm_cap shm_demo = 2" "shm_contents shm_demo = []" by code_simp+
  from shm_strict_batch_fifo [OF s p q] c have "n = 2" "ys @ shm_contents m2 = [4, 5]" "length ys = 1" "shm_strict m2" by auto
  then have "ys = [4]" "shm_contents m2 = [5]" by (auto simp: append_eq_Cons_conv)
  with p q \<open>n = 2\<close> \<open>shm_strict m2\<close> show ?thesis by blast
qed

text \<open>
  a peer whose process exists but whose heartbeat stands still is reported alive for exactly the first
  \<^verbatim>\<open>stale_after_polls\<close> polls after its heartbeat was last seen to move, and dead from then on, until the
  64-bit count of polls wraps.
\<close>

theorem peer_alive_stall_bound:
  assumes "pid \<noteq> 0" and "alive pid" and "stale_after \<noteq> 0" and "hb \<noteq> last_seen" and "n < 2 ^ 64"
  shows "peer_alive_polls alive pid hb stale_after n (last_seen, stall) = map (\<lambda>j. j < unat stale_after) [0..<n]"
proof (cases n)
  case (Suc n')
  have "peer_alive alive pid hb stale_after (last_seen, stall) = (True, hb, 0)"
    using assms by (simp add: peer_alive_def)
  moreover have "0 < unat stale_after" using assms(3) by (simp add: unat_gt_0)
  moreover have "map (\<lambda>j. j < unat stale_after) [0..<Suc n'] = (0 < unat stale_after) # map (\<lambda>j. Suc j < unat stale_after) [0..<n']"
    by (simp add: upt_conv_Cons map_Suc_upt [symmetric] del: upt_Suc)
  ultimately show ?thesis
    using Suc assms(5) peer_alive_polls_stalled [of pid alive stale_after 0 n' hb] assms(1,2,3) by simp
qed simp

theorem peer_alive_stall_bound_witness:
  "peer_alive_polls (\<lambda>p. p = 7) 7 3 2 4 (0, 0) = [True, True, False, False]"
  using peer_alive_stall_bound [of 7 "\<lambda>p. p = 7" 2 3 0 4 0] by (simp add: upt_rec)

end
