(* ===== verification/Shm_Ring_Concurrent.thy ===== *)
theory Shm_Ring_Concurrent
  imports Shm_Ring Slot_Store
begin

text \<open>
  \<^verbatim>\<open>ShmRing\<close> with its producer and its consumer running at once: every access to a shared word, and
  every unit of a slot copy, is one step. The producer mixes \<^verbatim>\<open>try_push\<close> and \<^verbatim>\<open>push_overwrite\<close> as it
  likes. A record is the list of its units. \<^verbatim>\<open>ss_log\<close> and \<^verbatim>\<open>ss_got\<close> are ghost: the records whose slot
  has begun to be written, and the records returned by \<^verbatim>\<open>try_pop\<close> with their index.
\<close>

section \<open>The two processes\<close>

datatype 'b prod_pc =
    PIdle
  | PActive u64 u64 "'b list"
  | PSeq u64 u64 "'b list"
  | PCas u64 u64 "'b list" nat
  | PCopy u64 "'b list" "nat set" bool
  | PHead u64 "'b list"

datatype 'b cons_pc =
    CIdle
  | CTail u64
  | CHead u64 u64
  | CFast u64 "'b option list list"
  | SEnter
  | SLoop u64 nat
  | SCopy u64 nat "'b option list list"
  | CStore u64 "'b list"

record 'b shm_sys =
  ss_mem :: "'b list shm_ring"
  ss_prod :: "'b prod_pc"
  ss_cons :: "'b cons_pc"
  ss_log :: "'b list list"
  ss_got :: "(nat \<times> 'b list) list"

definition set_header :: "(RingHeader \<Rightarrow> RingHeader) \<Rightarrow> 'b shm_sys \<Rightarrow> 'b shm_sys" where
  "set_header f s = s\<lparr>ss_mem := (ss_mem s)\<lparr>sr_header := f (sr_header (ss_mem s))\<rparr>\<rparr>"

definition begin_copy :: "u64 \<Rightarrow> 'b list \<Rightarrow> bool \<Rightarrow> 'b shm_sys \<Rightarrow> 'b shm_sys" where
  "begin_copy head v locked s = s\<lparr>ss_prod := PCopy head v {} locked, ss_log := ss_log s @ [v]\<rparr>"

datatype 'b prod_action = TryPush "'b list" | PushOverwrite "'b list" | Announce | BeginSeq | Reclaim | Spurious
  | StoreUnit nat | EndCopy | Publish

text \<open>One access of the producer; \<^term>\<open>None\<close> when the producer is elsewhere in its code.\<close>

definition prod_load :: "nat \<Rightarrow> 'b list \<Rightarrow> bool \<Rightarrow> 'b shm_sys \<Rightarrow> 'b shm_sys option" where
  "prod_load sz v overwrite s =
     (let head = sr_head (ss_mem s); tail = sr_tail (ss_mem s)
      in if ss_prod s \<noteq> PIdle \<or> length v \<noteq> sz then None
         else if head - tail < sr_capacity (ss_mem s) then Some (begin_copy head v False s)
         else if overwrite then Some (s\<lparr>ss_prod := PActive head tail v\<rparr>) else Some s)"

definition prod_announce :: "'b shm_sys \<Rightarrow> 'b shm_sys option" where
  "prod_announce s = (case ss_prod s of
     PActive head tail v \<Rightarrow> Some ((if sr_seq (ss_mem s) = 0 then set_header (rh_overwrite_active_update (\<lambda>_. 1)) s else s)
       \<lparr>ss_prod := PSeq head tail v\<rparr>)
   | _ \<Rightarrow> None)"

definition prod_begin_seq :: "'b shm_sys \<Rightarrow> 'b shm_sys option" where
  "prod_begin_seq s = (case ss_prod s of
     PSeq head tail v \<Rightarrow> Some ((set_header (rh_write_seq_update (\<lambda>_. begin_value head)) s)\<lparr>ss_prod := PCas head tail v 0\<rparr>)
   | _ \<Rightarrow> None)"

definition prod_reclaim :: "bool \<Rightarrow> 'b shm_sys \<Rightarrow> 'b shm_sys option" where
  "prod_reclaim spurious s = (case ss_prod s of
     PCas head tail v tries \<Rightarrow>
       (let floor = head - sr_capacity (ss_mem s) + 1
        in if \<not> (tail < floor \<and> tries < kMaxReclaimAttempts) then Some (begin_copy head v True s)
           else if sr_tail (ss_mem s) = tail \<and> \<not> spurious
           then Some (begin_copy head v True (set_header (\<lambda>h. h\<lparr>rh_tail := floor, rh_dropped_count := rh_dropped_count h + 1\<rparr>) s))
           else Some (s\<lparr>ss_prod := PCas head (sr_tail (ss_mem s)) v (Suc tries)\<rparr>))
   | _ \<Rightarrow> None)"

definition prod_store_unit :: "nat \<Rightarrow> nat \<Rightarrow> 'b shm_sys \<Rightarrow> 'b shm_sys option" where
  "prod_store_unit sz j s = (case ss_prod s of
     PCopy head v D locked \<Rightarrow>
       (if j < sz
        then Some (s\<lparr>ss_mem := (ss_mem s)\<lparr>sr_slots := store_unit (sr_slot head (ss_mem s)) j (v ! j) (sr_slots (ss_mem s))\<rparr>,
                     ss_prod := PCopy head v (insert j D) locked\<rparr>)
        else None)
   | _ \<Rightarrow> None)"

definition prod_end_copy :: "nat \<Rightarrow> 'b shm_sys \<Rightarrow> 'b shm_sys option" where
  "prod_end_copy sz s = (case ss_prod s of
     PCopy head v D locked \<Rightarrow>
       (if \<forall>j\<in>{..< sz}. j \<in> D
        then Some ((if locked then set_header (rh_write_seq_update (\<lambda>_. end_value head)) s else s)\<lparr>ss_prod := PHead head v\<rparr>)
        else None)
   | _ \<Rightarrow> None)"

definition prod_publish :: "'b shm_sys \<Rightarrow> 'b shm_sys option" where
  "prod_publish s = (case ss_prod s of
     PHead head v \<Rightarrow> Some ((set_header (rh_head_update (\<lambda>_. head + 1)) s)\<lparr>ss_prod := PIdle\<rparr>)
   | _ \<Rightarrow> None)"

fun shm_prod :: "nat \<Rightarrow> 'b prod_action \<Rightarrow> 'b shm_sys \<Rightarrow> 'b shm_sys option" where
  "shm_prod sz (TryPush v) s = prod_load sz v False s"
| "shm_prod sz (PushOverwrite v) s = prod_load sz v True s"
| "shm_prod sz Announce s = prod_announce s"
| "shm_prod sz BeginSeq s = prod_begin_seq s"
| "shm_prod sz Reclaim s = prod_reclaim False s"
| "shm_prod sz Spurious s = prod_reclaim True s"
| "shm_prod sz (StoreUnit j) s = prod_store_unit sz j s"
| "shm_prod sz EndCopy s = prod_end_copy sz s"
| "shm_prod sz Publish s = prod_publish s"

text \<open>One access of the consumer; \<^term>\<open>CLoad j\<close> copies unit \<^term>\<open>j\<close>, \<^term>\<open>CNext\<close> is any other access.\<close>

datatype cons_action = CNext | CLoad nat

definition fast_end :: "u64 \<Rightarrow> 'b option list list \<Rightarrow> 'b shm_sys \<Rightarrow> 'b cons_pc" where
  "fast_end tail buf s = (if sr_tail (ss_mem s) = tail then CStore tail (copy_result buf ! 0) else SEnter)"

definition seqlock_enter :: "nat \<Rightarrow> u64 \<Rightarrow> nat \<Rightarrow> 'b shm_sys \<Rightarrow> 'b cons_pc" where
  "seqlock_enter sz tail attempt s =
     (let capacity = sr_capacity (ss_mem s); head = sr_head (ss_mem s);
          tail = (if capacity < head - tail then head - capacity else tail)
      in if \<not> attempt < kMaxSeqlockAttempts \<or> tail = head then CIdle else SCopy tail attempt (blank 1 sz))"

definition seqlock_end :: "u64 \<Rightarrow> nat \<Rightarrow> 'b option list list \<Rightarrow> 'b shm_sys \<Rightarrow> 'b cons_pc" where
  "seqlock_end tail attempt buf s =
     (if \<not> lapped (sr_seq (ss_mem s)) tail (sr_capacity (ss_mem s)) then CStore tail (copy_result buf ! 0)
      else SLoop (tail + 1) (Suc attempt))"

definition cons_next :: "nat \<Rightarrow> 'b shm_sys \<Rightarrow> 'b shm_sys option" where
  "cons_next sz s = (case ss_cons s of
     CIdle \<Rightarrow> Some (s\<lparr>ss_cons := CTail (sr_tail (ss_mem s))\<rparr>)
   | CTail tail \<Rightarrow> Some (s\<lparr>ss_cons := CHead tail (sr_head (ss_mem s))\<rparr>)
   | CHead tail head \<Rightarrow>
       Some (s\<lparr>ss_cons := (if rh_overwrite_active (sr_header (ss_mem s)) = 0
                           then (if tail = head then CIdle else CFast tail (blank 1 sz)) else SEnter)\<rparr>)
   | CFast tail buf \<Rightarrow> if full_copy buf then Some (s\<lparr>ss_cons := fast_end tail buf s\<rparr>) else None
   | SEnter \<Rightarrow> Some (s\<lparr>ss_cons := SLoop (sr_tail (ss_mem s)) 0\<rparr>)
   | SLoop tail attempt \<Rightarrow> Some (s\<lparr>ss_cons := seqlock_enter sz tail attempt s\<rparr>)
   | SCopy tail attempt buf \<Rightarrow> if full_copy buf then Some (s\<lparr>ss_cons := seqlock_end tail attempt buf s\<rparr>) else None
   | CStore tail v \<Rightarrow> Some ((set_header (rh_tail_update (\<lambda>_. tail + 1)) s)
       \<lparr>ss_cons := CIdle, ss_got := ss_got s @ [(unat tail, v)]\<rparr>))"

definition cons_load :: "nat \<Rightarrow> nat \<Rightarrow> 'b shm_sys \<Rightarrow> 'b shm_sys option" where
  "cons_load sz j s =
     (let unit = (\<lambda>tail. load_unit (sr_slot tail (ss_mem s)) j (sr_slots (ss_mem s)))
      in if \<not> j < sz then None
         else case ss_cons s of
           CFast tail buf \<Rightarrow> Some (s\<lparr>ss_cons := CFast tail (put_unit 0 j (unit tail) buf)\<rparr>)
         | SCopy tail attempt buf \<Rightarrow> Some (s\<lparr>ss_cons := SCopy tail attempt (put_unit 0 j (unit tail) buf)\<rparr>)
         | _ \<Rightarrow> None)"

fun shm_cons :: "nat \<Rightarrow> cons_action \<Rightarrow> 'b shm_sys \<Rightarrow> 'b shm_sys option" where
  "shm_cons sz CNext s = cons_next sz s"
| "shm_cons sz (CLoad j) s = cons_load sz j s"

text \<open>\<^term>\<open>weak\<close> says whether the compare-exchange may fail spuriously.\<close>

inductive shm_step :: "bool \<Rightarrow> nat \<Rightarrow> 'b shm_sys \<Rightarrow> 'b shm_sys \<Rightarrow> bool" for weak :: bool and sz :: nat where
  producer: "shm_prod sz a s = Some s' \<Longrightarrow> a = Spurious \<longrightarrow> weak \<Longrightarrow> shm_step weak sz s s'"
| consumer: "shm_cons sz a s = Some s' \<Longrightarrow> shm_step weak sz s s'"

fun shm_sched :: "nat \<Rightarrow> ('b prod_action + cons_action) list \<Rightarrow> 'b shm_sys \<Rightarrow> 'b shm_sys option" where
  "shm_sched sz [] s = Some s"
| "shm_sched sz (Inl a # as) s = Option.bind (shm_prod sz a s) (shm_sched sz as)"
| "shm_sched sz (Inr a # as) s = Option.bind (shm_cons sz a s) (shm_sched sz as)"

definition shm_start :: "traits \<Rightarrow> u64 \<Rightarrow> 'b list list \<Rightarrow> 'b shm_sys" where
  "shm_start tr capacity slots = \<lparr>ss_mem = \<lparr>sr_header = new_RingHeader tr capacity, sr_slots = slots\<rparr>,
     ss_prod = PIdle, ss_cons = CIdle, ss_log = [], ss_got = []\<rparr>"

lemma shm_sched_steps:
  "shm_sched sz as s = Some s' \<Longrightarrow> weak \<or> Inl Spurious \<notin> set as \<Longrightarrow> (shm_step weak sz)\<^sup>*\<^sup>* s s'"
proof (induction sz as s rule: shm_sched.induct)
  case (2 sz a as s)
  then obtain s1 where s1: "shm_prod sz a s = Some s1" "shm_sched sz as s1 = Some s'" by (auto simp: bind_eq_Some_conv)
  then have "shm_step weak sz s s1" using 2(3) by (intro shm_step.producer) auto
  with 2(1) [OF s1] 2(3) show ?case by (meson converse_rtranclp_into_rtranclp list.set_intros(2))
next
  case (3 sz a as s)
  then obtain s1 where s1: "shm_cons sz a s = Some s1" "shm_sched sz as s1 = Some s'" by (auto simp: bind_eq_Some_conv)
  then have "shm_step weak sz s s1" by (intro shm_step.consumer)
  with 3(1) [OF s1] 3(3) show ?case by (meson converse_rtranclp_into_rtranclp list.set_intros(2))
qed simp

section \<open>Invariant\<close>

text \<open>
  \<^term>\<open>H\<close>, \<^term>\<open>T\<close> are the cursors, \<^term>\<open>Q\<close> the number of writes announced by \<^verbatim>\<open>write_seq\<close>. A record is
  accounted for when it has been delivered or its recycling has been announced.
\<close>

definition accounted :: "nat \<Rightarrow> nat \<Rightarrow> (nat \<times> 'v) list \<Rightarrow> nat \<Rightarrow> bool" where
  "accounted c Q got n \<longleftrightarrow> (\<forall>i<n. i \<in> fst ` set got \<or> i + c < Q)"

definition shm_core :: "nat \<Rightarrow> nat \<Rightarrow> 'b list list \<Rightarrow> nat \<Rightarrow> nat \<Rightarrow> nat \<Rightarrow> bool \<Rightarrow> 'b list list \<Rightarrow> (nat \<times> 'b list) list \<Rightarrow> bool" where
  "shm_core c sz slots H T Q act log got \<longleftrightarrow>
     slots_wf c sz slots \<and> (\<forall>v\<in>set log. length v = sz) \<and> T \<le> H \<and> H \<le> length log \<and>
     length log \<le> max (T + c) Q \<and> Q \<le> Suc H \<and> (\<not> act \<longrightarrow> Q = 0) \<and> stored c log H slots \<and>
     sorted_wrt (<) (map fst got) \<and> (\<forall>(i, v)\<in>set got. i < T \<and> i < H \<and> v = log ! i) \<and> accounted c Q got T"

text \<open>What holds of the consumer's local cursor.\<close>

definition cursor_ok :: "nat \<Rightarrow> nat \<Rightarrow> nat \<Rightarrow> (nat \<times> 'v) list \<Rightarrow> nat \<Rightarrow> bool" where
  "cursor_ok c T Q got t \<longleftrightarrow> (T \<le> t \<or> T + c \<le> Q) \<and> (t \<le> T \<or> t + c \<le> Q) \<and> (\<forall>i\<in>fst ` set got. i < t) \<and> accounted c Q got t"

fun cons_inv :: "nat \<Rightarrow> nat \<Rightarrow> 'b list list \<Rightarrow> (nat \<times> 'b list) list \<Rightarrow> nat \<Rightarrow> nat \<Rightarrow> nat \<Rightarrow> 'b cons_pc \<Rightarrow> bool" where
  "cons_inv c sz log got H T Q CIdle \<longleftrightarrow> True"
| "cons_inv c sz log got H T Q (CTail t) \<longleftrightarrow> cursor_ok c T Q got (unat t) \<and> unat t \<le> T"
| "cons_inv c sz log got H T Q (CHead t h) \<longleftrightarrow> cursor_ok c T Q got (unat t) \<and> unat t \<le> T \<and> unat t \<le> unat h \<and> unat h \<le> H"
| "cons_inv c sz log got H T Q (CFast t buf) \<longleftrightarrow> cursor_ok c T Q got (unat t) \<and> unat t \<le> T \<and> unat t < H \<and>
     length buf = 1 \<and> copied c sz log (unat t) buf \<and> (T = unat t \<longrightarrow> length log \<le> unat t + c)"
| "cons_inv c sz log got H T Q SEnter \<longleftrightarrow> True"
| "cons_inv c sz log got H T Q (SLoop t a) \<longleftrightarrow> cursor_ok c T Q got (unat t) \<and> unat t \<le> H"
| "cons_inv c sz log got H T Q (SCopy t a buf) \<longleftrightarrow> cursor_ok c T Q got (unat t) \<and> unat t < H \<and>
     length buf = 1 \<and> copied c sz log (unat t) buf"
| "cons_inv c sz log got H T Q (CStore t v) \<longleftrightarrow> cursor_ok c T Q got (unat t) \<and> unat t < H \<and> v = log ! unat t"

text \<open>The consumer's pending store of \<^verbatim>\<open>tail\<close>, if any, will not leave it below \<^term>\<open>H - c\<close>.\<close>

fun fresh :: "nat \<Rightarrow> nat \<Rightarrow> 'b cons_pc \<Rightarrow> bool" where
  "fresh c H (CFast t buf) \<longleftrightarrow> H \<le> unat t + c"
| "fresh c H (SCopy t a buf) \<longleftrightarrow> H \<le> unat t + c"
| "fresh c H (CStore t v) \<longleftrightarrow> H \<le> unat t + c"
| "fresh c H _ \<longleftrightarrow> True"

fun is_fast :: "'b cons_pc \<Rightarrow> bool" where
  "is_fast (CFast t buf) \<longleftrightarrow> True"
| "is_fast _ \<longleftrightarrow> False"

fun prod_inv :: "nat \<Rightarrow> nat \<Rightarrow> 'b list list \<Rightarrow> nat \<Rightarrow> nat \<Rightarrow> nat \<Rightarrow> bool \<Rightarrow> 'b list list \<Rightarrow> 'b cons_pc \<Rightarrow> 'b prod_pc \<Rightarrow> bool" where
  "prod_inv c sz slots H T Q act log cons PIdle \<longleftrightarrow> length log = H"
| "prod_inv c sz slots H T Q act log cons (PActive h t v) \<longleftrightarrow> length log = H \<and> unat h = H \<and> unat t \<le> H \<and> c \<le> H \<and> length v = sz \<and>
     (T = unat t \<or> fresh c H cons) \<and> (is_fast cons \<or> \<not> act \<longrightarrow> unat t \<le> T)"
| "prod_inv c sz slots H T Q act log cons (PSeq h t v) \<longleftrightarrow> length log = H \<and> unat h = H \<and> unat t \<le> H \<and> c \<le> H \<and> length v = sz \<and>
     (T = unat t \<or> fresh c H cons) \<and> (is_fast cons \<longrightarrow> unat t \<le> T) \<and> act"
| "prod_inv c sz slots H T Q act log cons (PCas h t v n) \<longleftrightarrow> length log = H \<and> unat h = H \<and> unat t \<le> H \<and> c \<le> H \<and> length v = sz \<and>
     (is_fast cons \<longrightarrow> unat t \<le> T) \<and> act \<and> Q = Suc H \<and>
     (n = 0 \<longrightarrow> T = unat t \<or> fresh c H cons) \<and>
     (n = 1 \<longrightarrow> fresh c H cons \<and> (T = unat t \<or> H < T + c)) \<and> (2 \<le> n \<longrightarrow> H < unat t + c)"
| "prod_inv c sz slots H T Q act log cons (PCopy h v D locked) \<longleftrightarrow> length log = Suc H \<and> unat h = H \<and> log ! H = v \<and>
     partial c H v D slots \<and> (locked \<longrightarrow> Q = Suc H \<and> act)"
| "prod_inv c sz slots H T Q act log cons (PHead h v) \<longleftrightarrow> length log = Suc H \<and> unat h = H \<and> stored c log (Suc H) slots"

definition shm_inv :: "nat \<Rightarrow> nat \<Rightarrow> 'b shm_sys \<Rightarrow> bool" where
  "shm_inv k sz s \<longleftrightarrow>
     (let m = ss_mem s; H = unat (sr_head m); T = unat (sr_tail m); Q = seq_begun (sr_seq m);
          act = (rh_overwrite_active (sr_header m) \<noteq> 0)
      in k < 64 \<and> sr_capacity m = 2 ^ k \<and> sr_mask m = 2 ^ k - 1 \<and>
         shm_core (2 ^ k) sz (sr_slots m) H T Q act (ss_log s) (ss_got s) \<and>
         prod_inv (2 ^ k) sz (sr_slots m) H T Q act (ss_log s) (ss_cons s) (ss_prod s) \<and>
         cons_inv (2 ^ k) sz (ss_log s) (ss_got s) H T Q (ss_cons s))"

definition shm_bounded :: "'b shm_sys \<Rightarrow> bool" where
  "shm_bounded s \<longleftrightarrow> length (ss_log s) + 1 < 2 ^ 63"

section \<open>The invariant is kept\<close>

lemma cursor_ok_mono: "cursor_ok c T Q got t \<Longrightarrow> Q \<le> Q' \<Longrightarrow> cursor_ok c T Q' got t"
  by (force simp: cursor_ok_def accounted_def)

lemma cursor_ok_raise: "cursor_ok c T Q got t \<Longrightarrow> T \<le> T' \<Longrightarrow> T' + c \<le> Q \<Longrightarrow> cursor_ok c T' Q got t"
  by (auto simp: cursor_ok_def)

lemma cons_inv_log:
  assumes "cons_inv c sz log got H T Q cons" and "H \<le> length log"
    and "\<And>t buf. cons = CFast t buf \<Longrightarrow> T = unat t \<Longrightarrow> Suc (length log) \<le> unat t + c"
  shows "cons_inv c sz (log @ [v]) got H T Q cons"
  using assms by (cases cons) (auto simp: nth_append intro: copied_begin)

lemma cons_inv_Q: "cons_inv c sz log got H T Q cons \<Longrightarrow> Q \<le> Q' \<Longrightarrow> cons_inv c sz log got H T Q' cons"
  by (cases cons) (auto intro: cursor_ok_mono)

lemma cons_inv_H: "cons_inv c sz log got H T Q cons \<Longrightarrow> H \<le> H' \<Longrightarrow> cons_inv c sz log got H' T Q cons"
  by (cases cons) auto

lemma cons_inv_T:
  "cons_inv c sz log got H T Q cons \<Longrightarrow> T \<le> T' \<Longrightarrow> T' + c \<le> Q \<Longrightarrow> length log \<le> T' + c \<Longrightarrow> cons_inv c sz log got H T' Q cons"
  by (cases cons) (auto intro: cursor_ok_raise)

lemma shm_core_log:
  assumes "shm_core c sz slots H T Q act log got" and "length log = H" and "length v = sz" and "H < max (T + c) Q"
  shows "shm_core c sz slots H T Q act (log @ [v]) got"
  using assms unfolding shm_core_def by (auto simp: nth_append intro: stored_begin)

lemma shm_core_Q: "shm_core c sz slots H T Q act log got \<Longrightarrow> Q \<le> Q' \<Longrightarrow> Q' \<le> Suc H \<Longrightarrow> act' \<Longrightarrow> shm_core c sz slots H T Q' act' log got"
  by (fastforce simp: shm_core_def accounted_def)

lemma shm_core_T:
  "shm_core c sz slots H T Q act log got \<Longrightarrow> T \<le> T' \<Longrightarrow> T' \<le> H \<Longrightarrow> T' + c \<le> Q \<Longrightarrow> shm_core c sz slots H T' Q act log got"
  by (fastforce simp: shm_core_def accounted_def)

lemma shm_core_slots:
  "shm_core c sz slots H T Q act log got \<Longrightarrow> length log = Suc H \<Longrightarrow>
   shm_core c sz (store_unit (H mod c) j b slots) H T Q act log got"
  by (auto simp: shm_core_def slots_wf_store stored_store)

lemma shm_core_H:
  "shm_core c sz slots H T Q act log got \<Longrightarrow> Suc H \<le> length log \<Longrightarrow> stored c log (Suc H) slots \<Longrightarrow>
   shm_core c sz slots (Suc H) T Q act log got"
  by (fastforce simp: shm_core_def)

lemma prod_inv_cons:
  assumes "prod_inv c sz slots H T Q act log cons p"
    and "fresh c H cons \<Longrightarrow> fresh c H cons'" and "is_fast cons' \<Longrightarrow> is_fast cons \<or> \<not> act"
  shows "prod_inv c sz slots H T Q act log cons' p"
proof -
  have f: "T = x \<or> fresh c H cons \<Longrightarrow> T = x \<or> fresh c H cons'" for x using assms(2) by blast
  show ?thesis using assms(1) f assms(2,3) by (cases p; simp; blast)
qed

text \<open>The consumer's store of \<^verbatim>\<open>tail\<close>.\<close>

lemma prod_inv_tail:
  assumes "prod_inv c sz slots H T Q act log (CStore t v) p" and "\<not> act \<Longrightarrow> T \<le> Suc (unat t)"
  shows "prod_inv c sz slots H (Suc (unat t)) Q act log CIdle p"
  using assms by (cases p) auto

lemmas set_header_simps [simp] = set_header_def

lemma shm_invD:
  assumes "shm_inv k sz s"
  defines "m \<equiv> ss_mem s"
  shows "k < 64" "sr_capacity m = 2 ^ k" "sr_mask m = 2 ^ k - 1"
    "shm_core (2 ^ k) sz (sr_slots m) (unat (sr_head m)) (unat (sr_tail m)) (seq_begun (sr_seq m))
       (rh_overwrite_active (sr_header m) \<noteq> 0) (ss_log s) (ss_got s)"
    "prod_inv (2 ^ k) sz (sr_slots m) (unat (sr_head m)) (unat (sr_tail m)) (seq_begun (sr_seq m))
       (rh_overwrite_active (sr_header m) \<noteq> 0) (ss_log s) (ss_cons s) (ss_prod s)"
    "cons_inv (2 ^ k) sz (ss_log s) (ss_got s) (unat (sr_head m)) (unat (sr_tail m)) (seq_begun (sr_seq m)) (ss_cons s)"
  using assms by (simp_all add: shm_inv_def Let_def)

lemma shm_word_slot: "k < 64 \<Longrightarrow> sr_mask m = 2 ^ k - 1 \<Longrightarrow> sr_slot w m = unat w mod 2 ^ k"
  by (simp add: sr_slot_def slot_of_word)

lemma shm_distance:
  assumes "unat t \<le> unat h" and "k < 64"
  shows "(h - t < (2::u64) ^ k) = (unat h < unat t + 2 ^ k)" "((2::u64) ^ k < h - t) = (unat t + 2 ^ k < unat h)"
  using assms by (auto simp: word_less_nat_alt unat_sub64 unat_pow2)

lemma unat_floor:
  assumes "k < 64" and "2 ^ k \<le> unat h" and "unat h + 1 < 2 ^ 64"
  shows "unat (h - 2 ^ k + 1 :: u64) = unat h - 2 ^ k + 1"
proof -
  have "unat (h - 2 ^ k :: u64) = unat h - 2 ^ k" using assms by (simp add: unat_sub64 unat_pow2)
  with assms(3) unat_succ64 [of "h - 2 ^ k"] show ?thesis by simp
qed

subsection \<open>Producer\<close>

lemma shm_inv_load:
  assumes inv: "shm_inv k sz s" and st: "prod_load sz v ov s = Some s'"
  shows "shm_inv k sz s'"
proof -
  note i = shm_invD [OF inv]
  let ?m = "ss_mem s"
  have p: "ss_prod s = PIdle" "length v = sz" using st by (auto simp: prod_load_def Let_def split: if_splits)
  have B: "length (ss_log s) = unat (sr_head ?m)" using i(5) p by simp
  have TH: "unat (sr_tail ?m) \<le> unat (sr_head ?m)" using i(4) by (simp add: shm_core_def)
  note d = shm_distance(1) [OF TH i(1)]
  show ?thesis
  proof (cases "sr_head ?m - sr_tail ?m < sr_capacity ?m")
    case True
    then have lt: "unat (sr_head ?m) < unat (sr_tail ?m) + 2 ^ k" using d i(2) by simp
    have s': "s' = begin_copy (sr_head ?m) v False s" using st p True by (simp add: prod_load_def Let_def)
    have "cons_inv (2 ^ k) sz (ss_log s @ [v]) (ss_got s) (unat (sr_head ?m)) (unat (sr_tail ?m)) (seq_begun (sr_seq ?m)) (ss_cons s)"
      using lt B by (intro cons_inv_log [OF i(6)]) auto
    moreover have "shm_core (2 ^ k) sz (sr_slots ?m) (unat (sr_head ?m)) (unat (sr_tail ?m)) (seq_begun (sr_seq ?m))
       (rh_overwrite_active (sr_header ?m) \<noteq> 0) (ss_log s @ [v]) (ss_got s)"
      using lt by (intro shm_core_log [OF i(4) B p(2)]) simp
    ultimately show ?thesis
      using i(1,2,3) B by (simp add: shm_inv_def Let_def s' begin_copy_def partial_def nth_append)
  next
    case False
    then have "unat (sr_tail ?m) + 2 ^ k \<le> unat (sr_head ?m)" using d i(2) by simp
    with False st p inv i B TH show ?thesis
      by (auto simp: prod_load_def Let_def shm_inv_def split: if_splits)
  qed
qed

lemma shm_inv_announce:
  assumes inv: "shm_inv k sz s" and st: "prod_announce s = Some s'"
  shows "shm_inv k sz s'"
proof -
  note i = shm_invD [OF inv]
  obtain h t v where p: "ss_prod s = PActive h t v" using st by (auto simp: prod_announce_def split: prod_pc.splits)
  have act: "sr_seq (ss_mem s) \<noteq> 0 \<Longrightarrow> rh_overwrite_active (sr_header (ss_mem s)) \<noteq> 0"
  proof -
    assume "sr_seq (ss_mem s) \<noteq> 0"
    then have "0 < unat (sr_seq (ss_mem s))" by (simp add: unat_gt_0)
    then have "seq_begun (sr_seq (ss_mem s)) \<noteq> 0" by (simp add: seq_begun_def)
    with i(4) show ?thesis by (auto simp: shm_core_def)
  qed
  have "shm_core (2 ^ k) sz (sr_slots (ss_mem s)) (unat (sr_head (ss_mem s))) (unat (sr_tail (ss_mem s))) (seq_begun (sr_seq (ss_mem s)))
       True (ss_log s) (ss_got s)"
    using i(4) by (simp add: shm_core_def)
  with i(4) have core: "shm_core (2 ^ k) sz (sr_slots (ss_mem s)) (unat (sr_head (ss_mem s))) (unat (sr_tail (ss_mem s)))
       (seq_begun (sr_seq (ss_mem s))) True (ss_log s) (ss_got s)" by simp
  have s': "s' = (if sr_seq (ss_mem s) = 0 then set_header (rh_overwrite_active_update (\<lambda>_. 1)) s else s)\<lparr>ss_prod := PSeq h t v\<rparr>"
    using st p by (simp add: prod_announce_def)
  show ?thesis
  proof (cases "sr_seq (ss_mem s) = 0")
    case True
    then show ?thesis using i(1-3,5,6) p core by (simp add: s' shm_inv_def Let_def)
  next
    case False
    then show ?thesis using i(1-3,5,6) p core act by (simp add: s' shm_inv_def Let_def)
  qed
qed

lemma shm_inv_begin_seq:
  assumes inv: "shm_inv k sz s" and b: "shm_bounded s" and st: "prod_begin_seq s = Some s'"
  shows "shm_inv k sz s'"
proof -
  note i = shm_invD [OF inv]
  obtain h t v where p: "ss_prod s = PSeq h t v" using st by (auto simp: prod_begin_seq_def split: prod_pc.splits)
  let ?Q = "seq_begun (sr_seq (ss_mem s))" let ?H = "unat (sr_head (ss_mem s))"
  have h: "unat h = ?H" "length (ss_log s) = ?H" "?Q \<le> Suc ?H" using i(4,5) p by (auto simp: shm_core_def)
  have Q: "seq_begun (begin_value h) = Suc ?H" using b h seq_begun_begin [of h] by (simp add: shm_bounded_def)
  have act: "rh_overwrite_active (sr_header (ss_mem s)) \<noteq> 0" using i(5) p by simp
  have "s' = (set_header (rh_write_seq_update (\<lambda>_. begin_value h)) s)\<lparr>ss_prod := PCas h t v 0\<rparr>"
    using st p by (simp add: prod_begin_seq_def)
  with i(1-3,5) p Q act cons_inv_Q [OF i(6) h(3)] shm_core_Q [OF i(4) h(3) le_refl act] show ?thesis
    by (simp add: shm_inv_def Let_def)
qed

lemma shm_inv_reclaim:
  assumes inv: "shm_inv k sz s" and b: "shm_bounded s" and st: "prod_reclaim False s = Some s'"
  shows "shm_inv k sz s'"
proof -
  note i = shm_invD [OF inv]
  obtain h t v n where p: "ss_prod s = PCas h t v n" using st by (auto simp: prod_reclaim_def split: prod_pc.splits)
  let ?m = "ss_mem s"
  let ?Q = "seq_begun (sr_seq ?m)" let ?H = "unat (sr_head ?m)" let ?T = "unat (sr_tail ?m)"
  have h: "unat h = ?H" "length (ss_log s) = ?H" "?Q = Suc ?H" "2 ^ k \<le> ?H" "length v = sz" "unat t \<le> ?H" and TH: "?T \<le> ?H"
    using i(4,5) p by (auto simp: shm_core_def)
  have fl: "unat (h - 2 ^ k + 1 :: u64) = ?H - 2 ^ k + 1"
    using unat_floor [OF i(1), of h] h b by (simp add: shm_bounded_def)
  have lt: "t < h - sr_capacity ?m + 1 \<longleftrightarrow> unat t + 2 ^ k \<le> ?H"
    using h(4) by (auto simp: word_less_nat_alt fl i(2))
  have core: "shm_core (2 ^ k) sz (sr_slots ?m) ?H ?T ?Q (rh_overwrite_active (sr_header ?m) \<noteq> 0) (ss_log s @ [v]) (ss_got s)"
    using h by (intro shm_core_log [OF i(4)]) auto
  consider (exit) "\<not> (t < h - sr_capacity ?m + 1 \<and> n < kMaxReclaimAttempts)"
    | (cas) "t < h - sr_capacity ?m + 1" "n < kMaxReclaimAttempts" "sr_tail ?m = t"
    | (retry) "t < h - sr_capacity ?m + 1" "n < kMaxReclaimAttempts" "sr_tail ?m \<noteq> t" by blast
  then show ?thesis
  proof cases
    case exit
    have ge: "?H < unat t + 2 ^ k"
    proof (cases "2 \<le> n")
      case True
      then show ?thesis using i(5) p by simp
    next
      case False
      then show ?thesis using exit lt by (simp add: kMaxReclaimAttempts_def)
    qed
    have "cons_inv (2 ^ k) sz (ss_log s @ [v]) (ss_got s) ?H ?T ?Q (ss_cons s)"
    proof (intro cons_inv_log [OF i(6)])
      show "?H \<le> length (ss_log s)" by (simp add: h)
      fix t' buf assume f: "ss_cons s = CFast t' buf" "?T = unat t'"
      then have "unat t \<le> ?T" using i(5) p by simp
      with ge f h(2) show "Suc (length (ss_log s)) \<le> unat t' + 2 ^ k" by simp
    qed
    moreover have "s' = begin_copy h v True s" using st p exit by (simp add: prod_reclaim_def Let_def)
    ultimately show ?thesis
      using core i(1-3,5) h p by (simp add: shm_inv_def Let_def begin_copy_def partial_def nth_append)
  next
    case cas
    have T': "?T \<le> ?H - 2 ^ k + 1" "?H - 2 ^ k + 1 \<le> ?H" "?H - 2 ^ k + 1 + 2 ^ k = Suc ?H"
      using cas(3) lt [THEN iffD1, OF cas(1)] h(4) one_le_power [of "2::nat" k] by (hypsubst, linarith)+
    have "shm_core (2 ^ k) sz (sr_slots ?m) ?H (?H - 2 ^ k + 1) ?Q (rh_overwrite_active (sr_header ?m) \<noteq> 0) (ss_log s @ [v]) (ss_got s)"
      using T' h(3) by (intro shm_core_T [OF core]) linarith+
    moreover have "cons_inv (2 ^ k) sz (ss_log s) (ss_got s) ?H (?H - 2 ^ k + 1) ?Q (ss_cons s)"
      using T' h by (intro cons_inv_T [OF i(6)]) linarith+
    then have "cons_inv (2 ^ k) sz (ss_log s @ [v]) (ss_got s) ?H (?H - 2 ^ k + 1) ?Q (ss_cons s)"
      using T' h by (intro cons_inv_log) (assumption, linarith+)
    moreover have "s' = begin_copy h v True (set_header (\<lambda>r. r\<lparr>rh_tail := h - 2 ^ k + 1, rh_dropped_count := rh_dropped_count r + 1\<rparr>) s)"
      using st p cas i(2) by (simp add: prod_reclaim_def Let_def)
    ultimately show ?thesis
      using i(1-3,5) h p fl by (simp add: shm_inv_def Let_def begin_copy_def partial_def nth_append)
  next
    case retry
    then have ne: "?T \<noteq> unat t" by (metis word_unat_eq_iff)
    have "n = 0 \<or> n = 1" using i(5) p retry(1) lt by (auto simp: not_less numeral_2_eq_2 le_Suc_eq) 
    moreover have "s' = s\<lparr>ss_prod := PCas h (sr_tail ?m) v (Suc n)\<rparr>" using st p retry by (simp add: prod_reclaim_def Let_def)
    ultimately show ?thesis using i p ne TH by (auto simp: shm_inv_def Let_def)
  qed
qed

lemma shm_inv_store_unit:
  assumes inv: "shm_inv k sz s" and st: "prod_store_unit sz j s = Some s'"
  shows "shm_inv k sz s'"
proof -
  note i = shm_invD [OF inv]
  obtain h v D l where p: "ss_prod s = PCopy h v D l" "j < sz" using st by (auto simp: prod_store_unit_def split: prod_pc.splits if_splits)
  let ?m = "ss_mem s" let ?H = "unat (sr_head ?m)"
  have h: "unat h = ?H" "length (ss_log s) = Suc ?H" "ss_log s ! ?H = v" "partial (2 ^ k) ?H v D (sr_slots ?m)" using i(5) p by auto
  have wf: "slots_wf (2 ^ k) sz (sr_slots ?m)" and "\<forall>v\<in>set (ss_log s). length v = sz" using i(4) by (auto simp: shm_core_def)
  with h have "length v = sz" by (metis lessI nth_mem)
  note shm_core_slots [OF i(4) h(2), of j "v ! j"] partial_store [OF h(4) wf this p(2)]
  moreover have "sr_slot h ?m = ?H mod 2 ^ k" using shm_word_slot [OF i(1,3)] h by simp
  ultimately show ?thesis using i(1-3,5,6) p st by (auto simp: prod_store_unit_def shm_inv_def Let_def)
qed

lemma shm_inv_end_copy:
  assumes inv: "shm_inv k sz s" and b: "shm_bounded s" and st: "prod_end_copy sz s = Some s'"
  shows "shm_inv k sz s'"
proof -
  note i = shm_invD [OF inv]
  obtain h v D l where p: "ss_prod s = PCopy h v D l" "{..< sz} \<subseteq> D" using st by (auto simp: prod_end_copy_def split: prod_pc.splits if_splits)
  let ?m = "ss_mem s" let ?H = "unat (sr_head ?m)"
  have h: "unat h = ?H" "length (ss_log s) = Suc ?H" "ss_log s ! ?H = v" "partial (2 ^ k) ?H v D (sr_slots ?m)"
      "l \<Longrightarrow> seq_begun (sr_seq ?m) = Suc ?H" using i(5) p by auto
  have wf: "slots_wf (2 ^ k) sz (sr_slots ?m)" "stored (2 ^ k) (ss_log s) ?H (sr_slots ?m)"
    and "\<forall>v\<in>set (ss_log s). length v = sz" using i(4) by (auto simp: shm_core_def)
  with h have "length v = sz" by (metis lessI nth_mem)
  then have fin: "stored (2 ^ k) (ss_log s) (Suc ?H) (sr_slots ?m)" using wf h p by (intro stored_finish [of _ _ _ _ v D sz]) auto
  have "seq_begun (end_value h) = Suc ?H" using b h seq_begun_end [of h] by (simp add: shm_bounded_def)
  moreover have "s' = (if l then set_header (rh_write_seq_update (\<lambda>_. end_value h)) s else s)\<lparr>ss_prod := PHead h v\<rparr>"
    using st p by (auto simp: prod_end_copy_def split: if_splits)
  ultimately show ?thesis using i(1-4,6) h fin by (cases l) (simp_all add: shm_inv_def Let_def)
qed

lemma shm_inv_publish:
  assumes inv: "shm_inv k sz s" and b: "shm_bounded s" and st: "prod_publish s = Some s'"
  shows "shm_inv k sz s'"
proof -
  note i = shm_invD [OF inv]
  obtain h v where p: "ss_prod s = PHead h v" using st by (auto simp: prod_publish_def split: prod_pc.splits)
  let ?m = "ss_mem s" let ?H = "unat (sr_head ?m)"
  have h: "unat h = ?H" "length (ss_log s) = Suc ?H" "stored (2 ^ k) (ss_log s) (Suc ?H) (sr_slots ?m)" using i(5) p by auto
  have "unat (h + 1) = Suc ?H" using b h unat_succ64 [of h] by (simp add: shm_bounded_def)
  moreover note shm_core_H [OF i(4) _ h(3)] cons_inv_H [OF i(6), of "Suc ?H"]
  moreover have "s' = (set_header (rh_head_update (\<lambda>_. h + 1)) s)\<lparr>ss_prod := PIdle\<rparr>" using st p by (simp add: prod_publish_def)
  ultimately show ?thesis using i(1-3) h by (simp add: shm_inv_def Let_def)
qed

lemma shm_inv_producer:
  assumes "shm_inv k sz s" and "shm_bounded s" and "shm_prod sz a s = Some s'" and "a \<noteq> Spurious"
  shows "shm_inv k sz s'"
  using assms by (cases a)
    (auto intro: shm_inv_load shm_inv_announce shm_inv_begin_seq shm_inv_reclaim shm_inv_store_unit shm_inv_end_copy shm_inv_publish)

subsection \<open>Consumer\<close>

text \<open>A step of the consumer that only moves it within its code.\<close>

lemma shm_inv_move:
  assumes inv: "shm_inv k sz s"
    and "cons_inv (2 ^ k) sz (ss_log s) (ss_got s) (unat (sr_head (ss_mem s))) (unat (sr_tail (ss_mem s))) (seq_begun (sr_seq (ss_mem s))) pc"
    and "fresh (2 ^ k) (unat (sr_head (ss_mem s))) (ss_cons s) \<Longrightarrow> fresh (2 ^ k) (unat (sr_head (ss_mem s))) pc"
    and "is_fast pc \<Longrightarrow> is_fast (ss_cons s) \<or> rh_overwrite_active (sr_header (ss_mem s)) = 0"
  shows "shm_inv k sz (s\<lparr>ss_cons := pc\<rparr>)"
  using shm_invD [OF inv] prod_inv_cons [OF shm_invD(5) [OF inv], of pc] assms(2-4) by (simp add: shm_inv_def Let_def)

lemma cursor_ok_tail: "shm_core c sz slots H T Q act log got \<Longrightarrow> cursor_ok c T Q got T"
  by (fastforce simp: shm_core_def cursor_ok_def)

lemma shm_inv_fast_begin:
  assumes inv: "shm_inv k sz s" and p: "ss_cons s = CHead t h" "rh_overwrite_active (sr_header (ss_mem s)) = 0" "t \<noteq> h"
  shows "shm_inv k sz (s\<lparr>ss_cons := CFast t (blank 1 sz)\<rparr>)"
proof -
  note i = shm_invD [OF inv]
  let ?m = "ss_mem s" let ?H = "unat (sr_head ?m)" let ?T = "unat (sr_tail ?m)"
  have Q: "seq_begun (sr_seq ?m) = 0" "length (ss_log s) \<le> ?T + 2 ^ k" "?H \<le> length (ss_log s)"
    using i(4) p(2) by (auto simp: shm_core_def)
  have t: "cursor_ok (2 ^ k) ?T 0 (ss_got s) (unat t)" "unat t \<le> ?T" "unat t \<le> unat h" "unat h \<le> ?H"
    using i(6) p(1) Q(1) by auto
  then have "?T = unat t" by (auto simp: cursor_ok_def)
  moreover have "unat t \<noteq> unat h" using p(3) by (metis word_unat_eq_iff)
  ultimately show ?thesis using p t Q by (intro shm_inv_move [OF inv]) (auto simp: copied_blank)
qed

lemma shm_result:
  assumes inv: "shm_inv k sz s" and "copied (2 ^ k) sz (ss_log s) t buf" and "length buf = 1" and "full_copy buf"
    and "length (ss_log s) \<le> t + 2 ^ k" and "t < unat (sr_head (ss_mem s))"
  shows "copy_result buf ! 0 = ss_log s ! t"
proof -
  have "unat (sr_head (ss_mem s)) \<le> length (ss_log s)" "\<forall>v\<in>set (ss_log s). length v = sz"
    using shm_invD(4) [OF inv] by (auto simp: shm_core_def)
  with assms copy_result_nth [of "2 ^ k" sz "ss_log s" t buf 0] show ?thesis by simp
qed

lemma shm_inv_fast_end:
  assumes inv: "shm_inv k sz s" and p: "ss_cons s = CFast t buf" "full_copy buf"
  shows "shm_inv k sz (s\<lparr>ss_cons := fast_end t buf s\<rparr>)"
proof (cases "sr_tail (ss_mem s) = t")
  case True
  have f: "length buf = 1" "copied (2 ^ k) sz (ss_log s) (unat t) buf" "length (ss_log s) \<le> unat t + 2 ^ k"
     "unat t < unat (sr_head (ss_mem s))" using shm_invD(6) [OF inv] p True by auto
  from True p shm_result [OF inv f(2,1) p(2) f(3,4)] shm_invD(6) [OF inv] show ?thesis
    by (intro shm_inv_move [OF inv]) (auto simp: fast_end_def)
next
  case False
  then show ?thesis by (intro shm_inv_move [OF inv]) (auto simp: fast_end_def)
qed

lemma shm_inv_seqlock_enter:
  assumes inv: "shm_inv k sz s" and p: "ss_cons s = SLoop t a"
  shows "shm_inv k sz (s\<lparr>ss_cons := seqlock_enter sz t a s\<rparr>)"
proof -
  note i = shm_invD [OF inv]
  let ?m = "ss_mem s" let ?H = "unat (sr_head ?m)" let ?T = "unat (sr_tail ?m)" let ?Q = "seq_begun (sr_seq ?m)"
  define t' where "t' = (if sr_capacity ?m < sr_head ?m - t then sr_head ?m - sr_capacity ?m else t)"
  have t: "cursor_ok (2 ^ k) ?T ?Q (ss_got s) (unat t)" "unat t \<le> ?H" using i(6) p by auto
  have B: "length (ss_log s) \<le> max (?T + 2 ^ k) ?Q" "?H \<le> length (ss_log s)" using i(4) by (auto simp: shm_core_def)
  have *: "cursor_ok (2 ^ k) ?T ?Q (ss_got s) (unat t') \<and> unat t' \<le> ?H \<and> ?H \<le> unat t' + 2 ^ k"
  proof (cases "unat t + 2 ^ k < ?H")
    case False
    then have "t' = t" by (simp add: t'_def i(2) shm_distance(2) [OF t(2) i(1)])
    with t False show ?thesis by simp
  next
    case True
    then have "t' = sr_head ?m - 2 ^ k" by (simp add: t'_def i(2) shm_distance(2) [OF t(2) i(1)])
    then have u: "unat t' = ?H - 2 ^ k" using True i(1) by (simp add: unat_sub64 unat_pow2)
    have "?H \<le> ?Q" using B True t(1) by (auto simp: cursor_ok_def)
    with t(1) u True show ?thesis by (fastforce simp: cursor_ok_def accounted_def)
  qed
  have e: "seqlock_enter sz t a s = (if \<not> a < kMaxSeqlockAttempts \<or> t' = sr_head ?m then CIdle else SCopy t' a (blank 1 sz))"
    by (simp add: seqlock_enter_def t'_def Let_def)
  have "t' \<noteq> sr_head ?m \<Longrightarrow> unat t' < ?H" using * by (metis le_neq_implies_less word_unat_eq_iff)
  with * show ?thesis unfolding e by (intro shm_inv_move [OF inv]) (auto simp: copied_blank split: if_splits)
qed

lemma shm_inv_seqlock_end:
  assumes inv: "shm_inv k sz s" and b: "shm_bounded s" and p: "ss_cons s = SCopy t a buf" "full_copy buf"
  shows "shm_inv k sz (s\<lparr>ss_cons := seqlock_end t a buf s\<rparr>)"
proof -
  note i = shm_invD [OF inv]
  let ?m = "ss_mem s" let ?H = "unat (sr_head ?m)" let ?T = "unat (sr_tail ?m)" let ?Q = "seq_begun (sr_seq ?m)"
  have t: "cursor_ok (2 ^ k) ?T ?Q (ss_got s) (unat t)" "unat t < ?H" "length buf = 1" "copied (2 ^ k) sz (ss_log s) (unat t) buf"
    using i(6) p by auto
  have B: "length (ss_log s) \<le> max (?T + 2 ^ k) ?Q" "?H \<le> length (ss_log s)" "?Q \<le> Suc ?H" using i(4) by (auto simp: shm_core_def)
  have "unat (sr_seq ?m) \<le> 2 * Suc ?H" by (rule unat_of_seq_begun [OF B(3)])
  then have lap: "lapped (sr_seq ?m) t (sr_capacity ?m) \<longleftrightarrow> unat t + 2 ^ k < ?Q"
    using b B(2) lapped_iff [of "sr_seq ?m" t "2 ^ k"] i(1,2) by (simp add: shm_bounded_def unat_pow2)
  show ?thesis
  proof (cases "unat t + 2 ^ k < ?Q")
    case True
    have "unat (t + 1) = Suc (unat t)" using t(2) B(2) b unat_succ64 [of t] by (simp add: shm_bounded_def)
    moreover have "cursor_ok (2 ^ k) ?T ?Q (ss_got s) (Suc (unat t))"
      using t(1) True by (fastforce simp: cursor_ok_def accounted_def less_Suc_eq)
    ultimately show ?thesis using t True lap by (intro shm_inv_move [OF inv]) (auto simp: seqlock_end_def)
  next
    case False
    then have "length (ss_log s) \<le> unat t + 2 ^ k" using B(1) t(1) by (auto simp: cursor_ok_def)
    from shm_result [OF inv t(4,3) p(2) this t(2)] t False lap p show ?thesis
      by (intro shm_inv_move [OF inv]) (auto simp: seqlock_end_def)
  qed
qed

lemma shm_inv_store_tail:
  assumes inv: "shm_inv k sz s" and b: "shm_bounded s" and p: "ss_cons s = CStore t v"
  shows "shm_inv k sz ((set_header (rh_tail_update (\<lambda>_. t + 1)) s)\<lparr>ss_cons := CIdle, ss_got := ss_got s @ [(unat t, v)]\<rparr>)"
proof -
  note i = shm_invD [OF inv]
  let ?m = "ss_mem s" let ?H = "unat (sr_head ?m)" let ?T = "unat (sr_tail ?m)" let ?Q = "seq_begun (sr_seq ?m)"
  let ?act = "rh_overwrite_active (sr_header ?m) \<noteq> 0"
  have t: "cursor_ok (2 ^ k) ?T ?Q (ss_got s) (unat t)" "unat t < ?H" "v = ss_log s ! unat t" using i(6) p by auto
  have B: "?H \<le> length (ss_log s)" "\<not> ?act \<Longrightarrow> ?Q = 0" using i(4) by (auto simp: shm_core_def)
  have u: "unat (t + 1) = Suc (unat t)" using t(2) B(1) b unat_succ64 [of t] by (simp add: shm_bounded_def)
  have "prod_inv (2 ^ k) sz (sr_slots ?m) ?H (Suc (unat t)) ?Q ?act (ss_log s) CIdle (ss_prod s)"
    using i(5) p B(2) t(1) by (intro prod_inv_tail) (auto simp: cursor_ok_def)
  moreover have "shm_core (2 ^ k) sz (sr_slots ?m) ?H (Suc (unat t)) ?Q ?act (ss_log s) (ss_got s @ [(unat t, v)])"
    using i(4) t unfolding shm_core_def cursor_ok_def accounted_def
    by (auto simp: sorted_wrt_append less_Suc_eq)
  ultimately show ?thesis using i(1-3) u by (simp add: shm_inv_def Let_def)
qed

lemma shm_inv_cons_load:
  assumes inv: "shm_inv k sz s" and st: "cons_load sz j s = Some s'"
  shows "shm_inv k sz s'"
proof -
  note i = shm_invD [OF inv]
  let ?m = "ss_mem s" let ?H = "unat (sr_head ?m)"
  have j: "j < sz" using st by (auto simp: cons_load_def Let_def split: if_splits)
  have wf: "stored (2 ^ k) (ss_log s) ?H (sr_slots ?m)" using i(4) by (simp add: shm_core_def)
  have ld: "copied (2 ^ k) sz (ss_log s) (unat t) (put_unit 0 j (load_unit (sr_slot t ?m) j (sr_slots ?m)) buf)"
    if "copied (2 ^ k) sz (ss_log s) (unat t) buf" "length buf = 1" "unat t < ?H" for t buf
    using copied_load [OF that(1) wf, of 0 j] that j by (simp add: shm_word_slot [OF i(1,3)])
  have "(\<exists>t buf. ss_cons s = CFast t buf \<and> s' = s\<lparr>ss_cons := CFast t (put_unit 0 j (load_unit (sr_slot t ?m) j (sr_slots ?m)) buf)\<rparr>) \<or>
        (\<exists>t a buf. ss_cons s = SCopy t a buf \<and> s' = s\<lparr>ss_cons := SCopy t a (put_unit 0 j (load_unit (sr_slot t ?m) j (sr_slots ?m)) buf)\<rparr>)"
    using st by (auto simp: cons_load_def Let_def split: if_splits cons_pc.splits)
  then show ?thesis using i(6) ld by (elim disjE exE conjE; hypsubst; intro shm_inv_move [OF inv]) auto
qed

lemma shm_inv_cons_next:
  assumes inv: "shm_inv k sz s" and b: "shm_bounded s" and st: "cons_next sz s = Some s'"
  shows "shm_inv k sz s'"
proof -
  note i = shm_invD [OF inv]
  note ct = cursor_ok_tail [OF i(4)]
  have TH: "unat (sr_tail (ss_mem s)) \<le> unat (sr_head (ss_mem s))" using i(4) by (simp add: shm_core_def)
  note move = shm_inv_move [OF inv]
  show ?thesis
  proof (cases "ss_cons s")
    case CIdle
    then have "s' = s\<lparr>ss_cons := CTail (sr_tail (ss_mem s))\<rparr>" using st by (simp add: cons_next_def)
    then show ?thesis using ct by (auto intro!: move)
  next
    case (CTail t)
    then have "s' = s\<lparr>ss_cons := CHead t (sr_head (ss_mem s))\<rparr>" using st by (simp add: cons_next_def)
    then show ?thesis using i(6) CTail TH by (auto intro!: move)
  next
    case (CHead t h)
    then show ?thesis using st shm_inv_fast_begin [OF inv CHead] move [of CIdle] move [of SEnter]
      by (auto simp: cons_next_def split: if_splits)
  next
    case (CFast t buf)
    then show ?thesis using st shm_inv_fast_end [OF inv CFast] by (auto simp: cons_next_def split: if_splits)
  next
    case SEnter
    then have "s' = s\<lparr>ss_cons := SLoop (sr_tail (ss_mem s)) 0\<rparr>" using st by (simp add: cons_next_def)
    then show ?thesis using ct TH by (auto intro!: move)
  next
    case (SLoop t a)
    then show ?thesis using st shm_inv_seqlock_enter [OF inv SLoop] by (simp add: cons_next_def)
  next
    case (SCopy t a buf)
    then show ?thesis using st shm_inv_seqlock_end [OF inv b SCopy] by (auto simp: cons_next_def split: if_splits)
  next
    case (CStore t v)
    then show ?thesis using st shm_inv_store_tail [OF inv b CStore] by (simp add: cons_next_def)
  qed
qed


section \<open>Theorems\<close>

lemma shm_log_mono: "shm_step weak sz s s' \<Longrightarrow> length (ss_log s) \<le> length (ss_log s')"
proof (induction rule: shm_step.induct)
  case (producer a s s')
  then show ?case
    by (cases a) (auto simp: prod_load_def prod_announce_def prod_begin_seq_def prod_reclaim_def prod_store_unit_def
        prod_end_copy_def prod_publish_def begin_copy_def Let_def split: if_splits prod_pc.splits)
next
  case (consumer a s s')
  then show ?case
    by (cases a) (auto simp: cons_next_def cons_load_def Let_def split: if_splits cons_pc.splits)
qed

lemma shm_inv_start: "k < 64 \<Longrightarrow> slots_wf (2 ^ k) sz slots \<Longrightarrow> shm_inv k sz (shm_start tr (2 ^ k) slots)"
  by (simp add: shm_inv_def shm_start_def new_RingHeader_def Let_def shm_core_def stored_def accounted_def)

lemma shm_inv_reach:
  assumes "(shm_step False sz)\<^sup>*\<^sup>* s s'" and "shm_inv k sz s" and "shm_bounded s'"
  shows "shm_inv k sz s'"
  using assms
proof (induction rule: rtranclp_induct)
  case (step s1 s2)
  have b: "shm_bounded s1" using step.prems(2) shm_log_mono [OF step.hyps(2)] by (simp add: shm_bounded_def)
  with step have inv: "shm_inv k sz s1" by blast
  from step.hyps(2) show ?case
  proof cases
    case (producer a)
    then show ?thesis using shm_inv_producer [OF inv b] by blast
  next
    case (consumer a)
    then show ?thesis using shm_inv_cons_next [OF inv b] shm_inv_cons_load [OF inv] by (cases a) auto
  qed
qed


definition shm_demo_sys :: "nat shm_sys" where
  "shm_demo_sys = shm_start (Traits 16) 2 [[0, 0], [0, 0]]"

definition push_free :: "nat list \<Rightarrow> (nat prod_action + cons_action) list" where
  "push_free v = map Inl [TryPush v, StoreUnit 0, StoreUnit 1, EndCopy, Publish]"

definition push_full :: "nat list \<Rightarrow> (nat prod_action + cons_action) list" where
  "push_full v = map Inl [PushOverwrite v, Announce, BeginSeq, Reclaim, StoreUnit 1, StoreUnit 0, EndCopy, Publish]"

lemma shm_demo_wf: "slots_wf (2 ^ 1) 2 [[0, 0], [0, 0::nat]]"
  by (auto simp: slots_wf_def less_2_cases_iff)

text \<open>The fast route begins to copy record 0; it is recycled meanwhile, and the call goes on with record 1.\<close>

definition shm_lap_run :: "(nat prod_action + cons_action) list" where
  "shm_lap_run = push_free [1, 2] @ push_free [3, 4] @ map Inr [CNext, CNext, CNext, CLoad 0] @ push_full [5, 6] @
     map Inr [CLoad 1, CNext, CNext, CNext, CLoad 1, CLoad 0, CNext, CNext]"


text \<open>
  C15: on a ring whose producer has never found it full in \<^verbatim>\<open>push_overwrite\<close> (\<^verbatim>\<open>overwrite_active\<close> is 0), nothing is
  lost: the records returned so far are exactly the first \<^verbatim>\<open>tail\<close> records pushed, in order, and at most
  \<^verbatim>\<open>capacity\<close> records wait.
\<close>

theorem shm_strict_lossless:
  assumes "k < 64" and "slots_wf (2 ^ k) sz slots"
    and "(shm_step False sz)\<^sup>*\<^sup>* (shm_start tr (2 ^ k) slots) s" and "shm_bounded s"
    and "rh_overwrite_active (sr_header (ss_mem s)) = 0"
  shows "map fst (ss_got s) = [0..<unat (sr_tail (ss_mem s))] \<and>
         map snd (ss_got s) = take (unat (sr_tail (ss_mem s))) (ss_log s) \<and>
         unat (sr_tail (ss_mem s)) \<le> unat (sr_head (ss_mem s)) \<and>
         unat (sr_head (ss_mem s)) \<le> unat (sr_tail (ss_mem s)) + 2 ^ k"
proof -
  let ?T = "unat (sr_tail (ss_mem s))" let ?H = "unat (sr_head (ss_mem s))" let ?got = "ss_got s"
  have c: "sorted_wrt (<) (map fst ?got)" "\<forall>(i, v)\<in>set ?got. i < ?T \<and> i < ?H \<and> v = ss_log s ! i" "\<forall>i<?T. i \<in> fst ` set ?got"
      "?T \<le> ?H" "?H \<le> length (ss_log s)" "length (ss_log s) \<le> ?T + 2 ^ k"
    using shm_invD(4) [OF shm_inv_reach [OF assms(3) shm_inv_start [OF assms(1,2)] assms(4)]] assms(5)
    by (auto simp: shm_core_def accounted_def)
  have "set (map fst ?got) = set [0..<?T]" using c(2,3) by auto
  moreover have "sorted_wrt (<) [0..<?T]" by simp
  ultimately have f: "map fst ?got = [0..<?T]" using c(1) by (intro strict_sorted_equal) auto
  have "map snd ?got = map (\<lambda>i. ss_log s ! i) (map fst ?got)" using c(2) by (auto simp: map_eq_conv)
  also have "\<dots> = take ?T (ss_log s)" unfolding f using c(4,5) by (intro nth_equalityI) auto
  finally show ?thesis using f c by auto
qed

definition shm_strict_run :: "(nat prod_action + cons_action) list" where
  "shm_strict_run = push_free [1, 2] @ map Inr [CNext, CNext, CNext, CLoad 0] @ push_free [3, 4] @ [Inl (TryPush [5, 6])] @
     map Inr [CLoad 1, CNext, CNext]"

theorem shm_strict_lossless_witness:
  "\<exists>s. (shm_step False 2)\<^sup>*\<^sup>* shm_demo_sys s \<and> unat (sr_tail (ss_mem s)) = 1 \<and> ss_got s = [(0, [1, 2])] \<and>
     map snd (ss_got s) = take (unat (sr_tail (ss_mem s))) (ss_log s)"
proof -
  have r: "map_option (\<lambda>s. (ss_got s, length (ss_log s), rh_overwrite_active (sr_header (ss_mem s)), sr_tail (ss_mem s)))
      (shm_sched 2 shm_strict_run shm_demo_sys) = Some ([(0, [1, 2])], 2, 0, 1)"
    by code_simp
  then obtain s where s: "shm_sched 2 shm_strict_run shm_demo_sys = Some s" "ss_got s = [(0, [1, 2])]" "length (ss_log s) = 2"
      "rh_overwrite_active (sr_header (ss_mem s)) = 0" "sr_tail (ss_mem s) = 1"
    by auto
  have "Inl Spurious \<notin> set shm_strict_run" by (simp add: shm_strict_run_def push_free_def)
  then have st: "(shm_step False 2)\<^sup>*\<^sup>* shm_demo_sys s" using shm_sched_steps [OF s(1)] by blast
  have "shm_bounded s" by (simp add: shm_bounded_def s(3))
  from shm_strict_lossless [of 1, OF _ shm_demo_wf _ this s(4), of "Traits 16"] st s(2,5) show ?thesis
    by (auto simp: shm_demo_sys_def)
qed

text \<open>
  C35: \<^verbatim>\<open>dropped_count\<close> can undercount. In a run with no spurious failure the consumer, having seen the
  announcement of a recycling, skips record 1 and takes record 2 before the producer's compare-exchange,
  which then fails and counts nothing: two records (0 and 1) are behind the tail and were never
  returned, both processes are idle, and \<^verbatim>\<open>dropped_count\<close> is 1.
\<close>

theorem shm_dropped_undercounts:
  "\<exists>s. (shm_step False 2)\<^sup>*\<^sup>* shm_demo_sys s \<and> ss_prod s = PIdle \<and> ss_cons s = CIdle \<and>
     unat (sr_tail (ss_mem s)) = 3 \<and> map fst (ss_got s) = [2] \<and> rh_dropped_count (sr_header (ss_mem s)) = 1"
proof -
  let ?run = "push_free [1, 2] @ push_free [3, 4] @ push_full [5, 6] @ map Inl [PushOverwrite [7, 8], Announce, BeginSeq] @
     map Inr [CNext, CNext, CNext, CNext, CNext, CLoad 0, CLoad 1, CNext, CNext, CLoad 0, CLoad 1, CNext, CNext] @
     map Inl [Reclaim, Reclaim, StoreUnit 0, StoreUnit 1, EndCopy, Publish]"
  have r: "map_option (\<lambda>s. (map fst (ss_got s), rh_dropped_count (sr_header (ss_mem s)), sr_tail (ss_mem s), ss_prod s, ss_cons s))
      (shm_sched 2 ?run shm_demo_sys) = Some ([2], 1, 3, PIdle, CIdle)"
    by code_simp
  then obtain s where s: "shm_sched 2 ?run shm_demo_sys = Some s" "map fst (ss_got s) = [2]"
      "rh_dropped_count (sr_header (ss_mem s)) = 1" "sr_tail (ss_mem s) = 3" "ss_prod s = PIdle" "ss_cons s = CIdle"
    by auto
  have "Inl Spurious \<notin> set ?run" by (simp add: push_free_def push_full_def)
  then have "(shm_step False 2)\<^sup>*\<^sup>* shm_demo_sys s" using shm_sched_steps [OF s(1)] by blast
  with s show ?thesis by auto
qed

text \<open>
  C36: with four spurious failures of \<^verbatim>\<open>compare_exchange_weak\<close> in a row the producer recycles the oldest slot
  without having moved the tail, and the fast route of \<^verbatim>\<open>try_pop\<close>, which checks nothing but the tail,
  returns a record stitched from two pushes.
\<close>

theorem shm_weak_cas_torn_read:
  "\<exists>s. (shm_step True 2)\<^sup>*\<^sup>* shm_demo_sys s \<and> (0, [1, 6]) \<in> set (ss_got s) \<and> ss_log s = [[1, 2], [3, 4], [5, 6]]"
proof -
  let ?run = "push_free [1, 2] @ push_free [3, 4] @ map Inr [CNext, CNext, CNext, CLoad 0] @
     map Inl [PushOverwrite [5, 6], Announce, BeginSeq, Spurious, Spurious, Spurious, Spurious, Reclaim, StoreUnit 0, StoreUnit 1] @
     map Inr [CLoad 1, CNext, CNext]"
  have "map_option (\<lambda>s. (ss_got s, ss_log s)) (shm_sched 2 ?run shm_demo_sys) = Some ([(0, [1, 6])], [[1, 2], [3, 4], [5, 6]])"
    by code_simp
  then obtain s where s: "shm_sched 2 ?run shm_demo_sys = Some s" "ss_got s = [(0, [1, 6])]" "ss_log s = [[1, 2], [3, 4], [5, 6]]"
    by auto
  have "(shm_step True 2)\<^sup>*\<^sup>* shm_demo_sys s" using shm_sched_steps [OF s(1)] by blast
  with s(2,3) show ?thesis by auto
qed

end
