(* ===== verification/Engine_Rings.thy ===== *)
theory Engine_Rings
  imports Fifo_Interface Ring_Common Shm_Region
begin

text \<open>
  The engine's other rings, of \<^verbatim>\<open>AnimusCore_v1/animus.hpp\<close>: \<^verbatim>\<open>SpscRingBuffer\<close> (in process),
  \<^verbatim>\<open>SharedMemorySegment\<close> (the POSIX branch) and \<^verbatim>\<open>SharedTelemetryChannel\<close>, a ring of any capacity
  inside such a segment. The operating system is the parameter of \<^verbatim>\<open>Shm_Region\<close>.
\<close>

section \<open>SpscRingBuffer\<close>

record 'a SpscRingBuffer =
  sb_capacity :: u64
  sb_mask :: u64
  sb_cells :: "'a list"
  sb_head :: u64
  sb_tail :: u64

definition SpscRingBuffer_new :: "'a \<Rightarrow> u64 \<Rightarrow> 'a SpscRingBuffer option" where
  "SpscRingBuffer_new init requested_capacity =
     map_option (\<lambda>capacity. \<lparr>sb_capacity = capacity, sb_mask = capacity - 1, sb_cells = replicate (unat capacity) init,
       sb_head = 0, sb_tail = 0\<rparr>) (round_up_pow2 requested_capacity)"

definition SpscRingBuffer_push :: "'a \<Rightarrow> 'a SpscRingBuffer \<Rightarrow> bool \<times> 'a SpscRingBuffer" where
  "SpscRingBuffer_push v m =
     (let head = sb_head m; tail = sb_tail m
      in if sb_capacity m \<le> head - tail then (False, m)
         else (True, m\<lparr>sb_cells := (sb_cells m)[unat (head AND sb_mask m) := v], sb_head := head + 1\<rparr>))"

definition SpscRingBuffer_pop :: "'a SpscRingBuffer \<Rightarrow> 'a option \<times> 'a SpscRingBuffer" where
  "SpscRingBuffer_pop m =
     (let tail = sb_tail m; head = sb_head m
      in if tail = head then (None, m)
         else (Some (sb_cells m ! unat (tail AND sb_mask m)), m\<lparr>sb_tail := tail + 1\<rparr>))"

definition sb_cursors :: "nat \<Rightarrow> nat \<Rightarrow> nat \<Rightarrow> 'a SpscRingBuffer \<Rightarrow> bool" where
  "sb_cursors k T H m \<longleftrightarrow> k < 64 \<and> sb_capacity m = 2 ^ k \<and> sb_mask m = 2 ^ k - 1 \<and> length (sb_cells m) = 2 ^ k \<and>
     sb_head m = of_nat H \<and> sb_tail m = of_nat T \<and> T \<le> H \<and> H \<le> T + 2 ^ k"

definition sb_invar :: "'a SpscRingBuffer \<Rightarrow> bool" where
  "sb_invar m \<longleftrightarrow> (\<exists>k T H. sb_cursors k T H m)"

definition sb_cap :: "'a SpscRingBuffer \<Rightarrow> nat" where
  "sb_cap m = unat (sb_capacity m)"

definition sb_contents :: "'a SpscRingBuffer \<Rightarrow> 'a list" where
  "sb_contents m = map (\<lambda>i. sb_cells m ! unat ((sb_tail m + of_nat i) AND sb_mask m)) [0..<unat (sb_head m - sb_tail m)]"

lemma sb_contents_eq:
  assumes "sb_cursors k T H m"
  shows "sb_contents m = ring_contents (2 ^ k) (sb_cells m) T H"
proof -
  have c: "k < 64" "sb_head m = of_nat H" "sb_tail m = of_nat T" "sb_mask m = 2 ^ k - 1" "T \<le> H" "H \<le> T + 2 ^ k"
    using assms by (auto simp: sb_cursors_def)
  have d: "unat (sb_head m - sb_tail m) = H - T"
    using c pow_less_64 [OF c(1)] by (simp only: c(2,3)) (intro cursor_diff, linarith+)
  have "unat ((sb_tail m + of_nat i) AND sb_mask m) = (T + i) mod 2 ^ k" for i
    using slot_of_cursor [OF c(1), of "T + i"] by (simp add: c)
  then show ?thesis by (simp add: sb_contents_def ring_contents_def d list_eq_iff_nth_eq)
qed

lemma sb_cursors_facts:
  assumes "sb_cursors k T H m"
  shows "length (sb_contents m) = H - T" "sb_cap m = 2 ^ k" "T \<le> H" "H \<le> T + 2 ^ k"
    "sb_capacity m \<le> sb_head m - sb_tail m \<longleftrightarrow> H = T + 2 ^ k" "sb_tail m = sb_head m \<longleftrightarrow> T = H"
    "unat (sb_head m AND sb_mask m) = H mod 2 ^ k" "unat (sb_tail m AND sb_mask m) = T mod 2 ^ k" "length (sb_cells m) = 2 ^ k"
  using assms
  by (auto simp: sb_contents_eq sb_cap_def sb_cursors_def unat_pow2 cursor_full_test cursor_empty_test slot_of_cursor)

lemma sb_push_cases:
  assumes c: "sb_cursors k T H m" and op: "SpscRingBuffer_push x m = (b, m')"
  shows "(\<not> b \<and> H = T + 2 ^ k \<and> m' = m) \<or>
         (b \<and> H < T + 2 ^ k \<and> sb_cursors k T (Suc H) m' \<and> sb_contents m' = sb_contents m @ [x])"
proof (cases "sb_capacity m \<le> sb_head m - sb_tail m")
  case True
  then show ?thesis using op sb_cursors_facts(5) [OF c] by (auto simp: SpscRingBuffer_push_def)
next
  case False
  note f = sb_cursors_facts [OF c]
  have lt: "H < T + 2 ^ k" using False f(4,5) by simp
  have m': "m' = m\<lparr>sb_cells := (sb_cells m)[H mod 2 ^ k := x], sb_head := sb_head m + 1\<rparr>" "b"
    using False op f(7) by (auto simp: SpscRingBuffer_push_def Let_def)
  have c': "sb_cursors k T (Suc H) m'" using c lt by (auto simp: sb_cursors_def m')
  have "sb_contents m' = sb_contents m @ [x]"
    using ring_contents_push [of T H "2 ^ k" "sb_cells m" x] f lt
    unfolding sb_contents_eq [OF c'] sb_contents_eq [OF c] by (simp add: m')
  with c' lt m'(2) show ?thesis by blast
qed

lemma sb_pop_cases:
  assumes c: "sb_cursors k T H m" and op: "SpscRingBuffer_pop m = (r, m')"
  shows "(r = None \<and> T = H \<and> m' = m) \<or>
         (\<exists>x. r = Some x \<and> T < H \<and> sb_cursors k (Suc T) H m' \<and> sb_contents m = x # sb_contents m')"
proof (cases "sb_tail m = sb_head m")
  case True
  then show ?thesis using op sb_cursors_facts(6) [OF c] by (auto simp: SpscRingBuffer_pop_def)
next
  case False
  note f = sb_cursors_facts [OF c]
  have lt: "T < H" using False f(3,6) by simp
  have m': "m' = m\<lparr>sb_tail := sb_tail m + 1\<rparr>" "r = Some (sb_cells m ! (T mod 2 ^ k))"
    using False op f(8) by (auto simp: SpscRingBuffer_pop_def Let_def)
  have c': "sb_cursors k (Suc T) H m'" using c lt by (auto simp: sb_cursors_def m')
  have "sb_contents m = sb_cells m ! (T mod 2 ^ k) # sb_contents m'"
    unfolding sb_contents_eq [OF c'] sb_contents_eq [OF c] using lt by (simp add: m' ring_contents_pop)
  with c' lt m'(2) show ?thesis by blast
qed

interpretation sb: bounded_fifo sb_invar sb_contents sb_cap SpscRingBuffer_push SpscRingBuffer_pop
proof (unfold_locales, goal_cases)
  case (1 m)
  then obtain k T H where c: "sb_cursors k T H m" by (auto simp: sb_invar_def)
  show ?case using sb_cursors_facts(1-4) [OF c] by simp
next
  case (2 m x m')
  then obtain k T H where c: "sb_cursors k T H m" by (auto simp: sb_invar_def)
  from sb_push_cases [OF c 2(2)] 2(1) show ?case using sb_cursors_facts(1-4) [OF c] by auto
next
  case (3 m x m')
  then obtain k T H where c: "sb_cursors k T H m" by (auto simp: sb_invar_def)
  from sb_push_cases [OF c 3(2)] have c': "H < T + 2 ^ k" "sb_cursors k T (Suc H) m'" "sb_contents m' = sb_contents m @ [x]" by auto
  then show ?case using sb_cursors_facts(1-4) [OF c] sb_cursors_facts(2) [OF c'(2)] by (auto simp: sb_invar_def)
next
  case (4 m m')
  then obtain k T H where c: "sb_cursors k T H m" by (auto simp: sb_invar_def)
  from sb_pop_cases [OF c 4(2)] 4(1) show ?case using sb_cursors_facts(1) [OF c] by auto
next
  case (5 m x m')
  then obtain k T H where c: "sb_cursors k T H m" by (auto simp: sb_invar_def)
  from sb_pop_cases [OF c 5(2)] show ?case using sb_cursors_facts(2) [OF c] sb_cursors_facts(2) by (auto simp: sb_invar_def)
qed

section \<open>SharedMemorySegment\<close>

definition segment_create :: "'w posix \<Rightarrow> string option \<Rightarrow> u64 \<Rightarrow> region \<Rightarrow> 'w \<Rightarrow> bool \<times> region \<times> 'w" where
  "segment_create os name sz out w =
     (case region_close os out w of (out, w) \<Rightarrow>
      case name of
        None \<Rightarrow> (False, out, w)
      | Some name \<Rightarrow>
          if sz = 0 then (False, out, w)
          else (case px_shm_open_excl os name w of (fd, w) \<Rightarrow>
            if fd < 0 then (False, out, w)
            else (case px_ftruncate os fd sz w of (rc, w) \<Rightarrow>
              if rc \<noteq> 0 then (False, out, snd (px_shm_unlink os name (px_close os fd w)))
              else (case px_mmap os False fd sz w of (addr, w) \<Rightarrow>
                (let w = px_close os fd w
                 in case addr of
                      None \<Rightarrow> (False, out, snd (px_shm_unlink os name w))
                    | Some addr \<Rightarrow> (True, \<lparr>rg_data = addr, rg_size = sz\<rparr>, w))))))"

definition segment_attach :: "'w posix \<Rightarrow> string option \<Rightarrow> region \<Rightarrow> 'w \<Rightarrow> bool \<times> region \<times> 'w" where
  "segment_attach os name out w =
     (case region_close os out w of (out, w) \<Rightarrow>
      case name of
        None \<Rightarrow> (False, out, w)
      | Some name \<Rightarrow>
          (case px_shm_open_rw os name w of (fd, w) \<Rightarrow>
            if fd < 0 then (False, out, w)
            else (case px_fstat os fd w of (st, w) \<Rightarrow>
              case st of
                None \<Rightarrow> (False, out, px_close os fd w)
              | Some st_size \<Rightarrow>
                  if st_size \<le> 0 then (False, out, px_close os fd w)
                  else (case px_mmap os False fd (of_int st_size) w of (addr, w) \<Rightarrow>
                    (let w = px_close os fd w
                     in case addr of
                          None \<Rightarrow> (False, out, w)
                        | Some addr \<Rightarrow> (True, \<lparr>rg_data = addr, rg_size = of_int st_size\<rparr>, w))))))"

definition segment_unlink :: "'w posix \<Rightarrow> string option \<Rightarrow> 'w \<Rightarrow> bool \<times> 'w" where
  "segment_unlink os name w =
     (case name of
        None \<Rightarrow> (False, w)
      | Some name \<Rightarrow> (case px_shm_unlink os name w of (rc, w) \<Rightarrow> (rc = 0, w)))"

section \<open>SharedTelemetryChannel\<close>

record SharedTelemetryRecord =
  tr_timestamp_cycles :: u64
  tr_event_id :: u32
  tr_trace_id :: u32
  tr_metric_value :: u64

record SharedRingHeader =
  ch_capacity :: u64
  ch_head :: u64
  ch_tail :: u64

definition sizeof_SharedTelemetryRecord :: u64 where "sizeof_SharedTelemetryRecord = 24"
definition sizeof_SharedRingHeader :: u64 where "sizeof_SharedRingHeader = 24"

definition channel_create ::
  "'w posix \<Rightarrow> (u64 \<Rightarrow> SharedRingHeader \<Rightarrow> 'w \<Rightarrow> 'w) \<Rightarrow> string option \<Rightarrow> u64 \<Rightarrow> 'w \<Rightarrow> region option \<times> 'w" where
  "channel_create os write name capacity w =
     (let capacity = (if capacity = 0 then 1 else capacity);
          total_size = sizeof_SharedRingHeader + capacity * sizeof_SharedTelemetryRecord
      in case segment_create os name total_size rg_empty w of (created, segment, w) \<Rightarrow>
           if \<not> created then (None, w)
           else (Some segment, write (rg_data segment) \<lparr>ch_capacity = capacity, ch_head = 0, ch_tail = 0\<rparr> w))"

definition channel_header_ok :: "u64 \<Rightarrow> SharedRingHeader \<Rightarrow> bool" where
  "channel_header_ok segment_size h \<longleftrightarrow>
     \<not> (ch_capacity h = 0 \<or> segment_size < sizeof_SharedRingHeader + ch_capacity h * sizeof_SharedTelemetryRecord)"

definition channel_attach ::
  "'w posix \<Rightarrow> (u64 \<Rightarrow> 'w \<Rightarrow> SharedRingHeader) \<Rightarrow> string option \<Rightarrow> 'w \<Rightarrow> region option \<times> 'w" where
  "channel_attach os read name w =
     (case segment_attach os name rg_empty w of (attached, segment, w) \<Rightarrow>
        if \<not> attached then (None, w)
        else if rg_size segment < sizeof_SharedRingHeader then (None, snd (region_close os segment w))
        else if \<not> channel_header_ok (rg_size segment) (read (rg_data segment) w) then (None, snd (region_close os segment w))
        else (Some segment, w))"

text \<open>A channel's memory: header and records. \<^verbatim>\<open>push\<close> takes the cycle counter it reads as an argument; a closed
  channel is \<^term>\<open>None\<close>.\<close>

record channel =
  ch_header :: SharedRingHeader
  ch_records :: "SharedTelemetryRecord list"

definition channel_push :: "u64 \<Rightarrow> u32 \<Rightarrow> u32 \<Rightarrow> u64 \<Rightarrow> channel option \<Rightarrow> bool \<times> channel option" where
  "channel_push cycles event_id trace_id metric_value chan =
     (case chan of
        None \<Rightarrow> (False, None)
      | Some m \<Rightarrow>
          (let h = ch_header m; head = ch_head h; tail = ch_tail h
           in if ch_capacity h \<le> head - tail then (False, Some m)
              else (True, Some (m\<lparr>ch_records := (ch_records m)[unat (head mod ch_capacity h) :=
                        \<lparr>tr_timestamp_cycles = cycles, tr_event_id = event_id, tr_trace_id = trace_id, tr_metric_value = metric_value\<rparr>],
                      ch_header := h\<lparr>ch_head := head + 1\<rparr>\<rparr>))))"

definition channel_pop :: "channel option \<Rightarrow> SharedTelemetryRecord option \<times> channel option" where
  "channel_pop chan =
     (case chan of
        None \<Rightarrow> (None, None)
      | Some m \<Rightarrow>
          (let h = ch_header m; tail = ch_tail h; head = ch_head h
           in if tail = head then (None, Some m)
              else (Some (ch_records m ! unat (tail mod ch_capacity h)), Some (m\<lparr>ch_header := h\<lparr>ch_tail := tail + 1\<rparr>\<rparr>))))"

definition channel_close :: "'w posix \<Rightarrow> region \<Rightarrow> 'w \<Rightarrow> channel option \<times> region \<times> 'w" where
  "channel_close os segment w = (case region_close os segment w of (segment, w) \<Rightarrow> (None, segment, w))"

text \<open>\<^term>\<open>T\<close> records popped, \<^term>\<open>xs\<close> waiting.\<close>

definition channel_holds :: "nat \<Rightarrow> nat \<Rightarrow> SharedTelemetryRecord list \<Rightarrow> channel \<Rightarrow> bool" where
  "channel_holds c T xs m \<longleftrightarrow>
     (let H = T + length xs
      in 0 < c \<and> unat (ch_capacity (ch_header m)) = c \<and> length (ch_records m) = c \<and> length xs \<le> c \<and> H < 2 ^ 64 \<and>
         ch_head (ch_header m) = of_nat H \<and> ch_tail (ch_header m) = of_nat T \<and> ring_contents c (ch_records m) T H = xs)"

lemma channel_slot: "n < 2 ^ 64 \<Longrightarrow> unat ((of_nat n :: u64) mod cap) = n mod unat cap"
  by (simp add: unat_mod unat_of_nat64)

lemma channel_push_spec:
  assumes h: "channel_holds c T xs m" and b: "T + length xs + 1 < 2 ^ 64"
    and r_def: "r = \<lparr>tr_timestamp_cycles = cy, tr_event_id = e, tr_trace_id = t, tr_metric_value = v\<rparr>"
  shows "\<exists>m'. channel_push cy e t v (Some m) = (length xs < c, Some m') \<and> channel_holds c T (if length xs < c then xs @ [r] else xs) m'"
proof -
  let ?H = "T + length xs" let ?cap = "ch_capacity (ch_header m)"
  have c: "0 < c" "unat ?cap = c" "length (ch_records m) = c" "length xs \<le> c" "ch_head (ch_header m) = of_nat ?H"
    "ch_tail (ch_header m) = of_nat T" "ring_contents c (ch_records m) T ?H = xs" using h by (auto simp: channel_holds_def Let_def)
  have d: "unat (of_nat ?H - of_nat T :: u64) = length xs" using cursor_diff [of T ?H] b by (simp del: of_nat_add)
  have full: "?cap \<le> of_nat ?H - of_nat T \<longleftrightarrow> \<not> length xs < c" unfolding word_le_nat_alt d c(2) by auto
  show ?thesis
  proof (cases "length xs < c")
    case False
    then show ?thesis using h full c(5,6) by (simp add: channel_push_def Let_def del: of_nat_add)
  next
    case True
    let ?m = "m\<lparr>ch_records := (ch_records m)[?H mod c := r], ch_header := (ch_header m)\<lparr>ch_head := of_nat ?H + 1\<rparr>\<rparr>"
    have "channel_push cy e t v (Some m) = (True, Some ?m)"
      using True full c(2,5,6) channel_slot [of ?H ?cap] b by (simp add: channel_push_def Let_def r_def del: of_nat_add)
    moreover have "channel_holds c T (xs @ [r]) ?m"
      using c True b ring_contents_push [of T ?H c "ch_records m" r] by (simp add: channel_holds_def Let_def)
    ultimately show ?thesis using True by auto
  qed
qed

lemma channel_pop_spec:
  assumes h: "channel_holds c T xs m"
  shows "\<exists>m'. channel_pop (Some m) = (if xs = [] then None else Some (hd xs), Some m') \<and>
           channel_holds c (if xs = [] then T else Suc T) (tl xs) m'"
proof -
  let ?H = "T + length xs" let ?cap = "ch_capacity (ch_header m)"
  have c: "0 < c" "unat ?cap = c" "length (ch_records m) = c" "length xs \<le> c" "?H < 2 ^ 64" "ch_head (ch_header m) = of_nat ?H"
    "ch_tail (ch_header m) = of_nat T" "ring_contents c (ch_records m) T ?H = xs" using h by (auto simp: channel_holds_def Let_def)
  have e: "(of_nat T :: u64) = of_nat ?H \<longleftrightarrow> xs = []" using cursor_eq_near [of T ?H] c(5) by (simp del: of_nat_add)
  show ?thesis
  proof (cases xs)
    case Nil
    then show ?thesis using h e c(6,7) by (simp add: channel_pop_def Let_def del: of_nat_add)
  next
    case (Cons x ys)
    then have rc: "ch_records m ! (T mod c) = x" "ring_contents c (ch_records m) (Suc T) ?H = ys"
      using ring_contents_pop [of T ?H c "ch_records m"] c(8) by simp_all
    let ?m = "m\<lparr>ch_header := (ch_header m)\<lparr>ch_tail := of_nat T + 1\<rparr>\<rparr>"
    have "channel_pop (Some m) = (Some x, Some ?m)"
      using Cons e c(2,5,6,7) rc(1) channel_slot [of T ?cap] by (simp add: channel_pop_def Let_def del: of_nat_add)
    moreover have "channel_holds c (Suc T) ys ?m" using c Cons rc(2) by (simp add: channel_holds_def Let_def)
    ultimately show ?thesis using Cons by auto
  qed
qed

section \<open>Theorems\<close>

text \<open>
  \<^verbatim>\<open>SpscRingBuffer\<close>, with wrap-around of its 64-bit cursors included: a batch of pushes accepts exactly as many
  values as there are free cells, in order, and a batch of pops returns the oldest in order.
\<close>

theorem spsc_buffer_batch_fifo:
  assumes "sb_invar m" and "push_batch SpscRingBuffer_push xs m = (n, m1)" and "pop_batch SpscRingBuffer_pop j m1 = (ys, m2)"
  shows "n = min (length xs) (sb_cap m - length (sb_contents m)) \<and>
         ys @ sb_contents m2 = sb_contents m @ take n xs \<and> length ys = min j (length (sb_contents m) + n) \<and>
         sb_cap m2 = sb_cap m \<and> sb_invar m2"
  using assms by (rule sb.batch_fifo)

definition sb_demo :: "nat SpscRingBuffer" where
  "sb_demo = \<lparr>sb_capacity = 2, sb_mask = 1, sb_cells = [7, 0], sb_head = 0, sb_tail = 2 ^ 64 - 1\<rparr>"

theorem spsc_buffer_batch_fifo_witness:
  "\<exists>m1 m2. push_batch SpscRingBuffer_push [4, 5] sb_demo = (1, m1) \<and> pop_batch SpscRingBuffer_pop 3 m1 = ([0, 4], m2) \<and>
     sb_invar m2 \<and> sb_contents m2 = []"
proof -
  have w: "(of_nat (2 ^ 64) :: u64) = 0" "(of_nat (2 ^ 64 - 1) :: u64) = 2 ^ 64 - 1" by simp_all
  then have "sb_cursors 1 (2 ^ 64 - 1) (2 ^ 64) sb_demo" by (simp add: sb_cursors_def sb_demo_def)
  then have s: "sb_invar sb_demo" unfolding sb_invar_def by blast
  obtain n m1 where p: "push_batch SpscRingBuffer_push [4, 5] sb_demo = (n, m1)" by fastforce
  obtain ys m2 where q: "pop_batch SpscRingBuffer_pop 3 m1 = (ys, m2)" by fastforce
  have c: "sb_cap sb_demo = 2" "sb_contents sb_demo = [0]" by code_simp+
  from spsc_buffer_batch_fifo [OF s p q] c have "n = 1" "ys @ sb_contents m2 = [0, 4]" "length ys = 2" "sb_invar m2" by auto
  then have "ys = [0, 4]" "sb_contents m2 = []" by (auto simp: append_eq_Cons_conv)
  with p q \<open>n = 1\<close> \<open>sb_invar m2\<close> show ?thesis by blast
qed

text \<open>
  the shared telemetry channel is a bounded queue of any capacity, a power of two or not, for the first \<^verbatim>\<open>2^64 - 1\<close>
  records: \<^verbatim>\<open>push\<close> stamps and appends exactly when there is room, \<^verbatim>\<open>pop\<close> returns the oldest record and
  reports empty exactly when nothing waits.
\<close>

theorem channel_is_queue:
  assumes "channel_holds c T xs m" and "T + length xs + 1 < 2 ^ 64"
  shows "(\<exists>m'. channel_push cy e t v (Some m) = (length xs < c, Some m') \<and>
            channel_holds c T (if length xs < c
              then xs @ [\<lparr>tr_timestamp_cycles = cy, tr_event_id = e, tr_trace_id = t, tr_metric_value = v\<rparr>] else xs) m') \<and>
         (\<exists>m'. channel_pop (Some m) = (if xs = [] then None else Some (hd xs), Some m') \<and>
            channel_holds c (if xs = [] then T else Suc T) (tl xs) m')"
  using channel_push_spec [OF assms refl] channel_pop_spec [OF assms(1)] by blast

definition channel_demo :: channel where
  "channel_demo = \<lparr>ch_header = \<lparr>ch_capacity = 3, ch_head = 0, ch_tail = 0\<rparr>,
     ch_records = replicate 3 \<lparr>tr_timestamp_cycles = 0, tr_event_id = 0, tr_trace_id = 0, tr_metric_value = 0\<rparr>\<rparr>"

theorem channel_is_queue_witness:
  "\<exists>m' m''. channel_push 9 1 2 42 (Some channel_demo) = (True, Some m') \<and>
     channel_pop (Some m') = (Some \<lparr>tr_timestamp_cycles = 9, tr_event_id = 1, tr_trace_id = 2, tr_metric_value = 42\<rparr>, Some m'')"
proof -
  have h: "channel_holds 3 0 [] channel_demo" by (simp add: channel_holds_def channel_demo_def ring_contents_def)
  from channel_is_queue [OF h, of 9 1 2 42] obtain m' where m': "channel_push 9 1 2 42 (Some channel_demo) = (True, Some m')"
    "channel_holds 3 0 [\<lparr>tr_timestamp_cycles = 9, tr_event_id = 1, tr_trace_id = 2, tr_metric_value = 42\<rparr>] m'" by auto
  from channel_is_queue [OF m'(2), of 0 0 0 0] m'(1) show ?thesis by auto
qed

end
