(* ===== verification/Vyukov.thy ===== *)
theory Vyukov
  imports Shm_Layout
begin

text \<open>
  The bounded queue with a sequence word per cell, used by class \<^verbatim>\<open>ShmRingMpmc\<close> of
  \<^verbatim>\<open>include/animus/shm_ipc.hpp\<close> (many producers, many consumers, across processes) and by class
  \<^verbatim>\<open>LockFreeRingBuffer\<close> of \<^verbatim>\<open>AnimusCore_v1/animus.hpp\<close> (within the engine). The two differ in how they
  compute the signed distance of a sequence word to a position; the queue takes that as a parameter
  whose law is a locale.
\<close>

section \<open>Operations, one access at a time\<close>

record 'a vy_mem =
  vy_enq :: u64
  vy_deq :: u64
  vy_mask :: u64
  vy_seq :: "u64 list"
  vy_val :: "'a list"

definition vy_cell :: "u64 \<Rightarrow> 'a vy_mem \<Rightarrow> nat" where
  "vy_cell pos m = unat (pos AND vy_mask m)"

text \<open>The distances \<^verbatim>\<open>static_cast<int64_t>(seq - pos)\<close> and \<^verbatim>\<open>intptr_t(seq) - intptr_t(pos)\<close>.\<close>

definition mpmc_diff :: "u64 \<Rightarrow> u64 \<Rightarrow> int" where
  "mpmc_diff seq pos = sint (seq - pos)"

definition lfrb_diff :: "u64 \<Rightarrow> u64 \<Rightarrow> int" where
  "lfrb_diff seq pos = sint seq - sint pos"

text \<open>Where a thread is in \<^verbatim>\<open>try_push\<close> (\<^verbatim>\<open>push\<close>) and in \<^verbatim>\<open>try_pop\<close> (\<^verbatim>\<open>pop\<close>).\<close>

datatype 'a push_pc = VIdle | VPos u64 'a | VCas u64 'a | VWrite u64 'a | VPub u64 'a
datatype 'a pop_pc = DIdle | DPos u64 | DCas u64 | DRead u64 | DFree u64 'a

fun vy_push_next :: "(u64 \<Rightarrow> u64 \<Rightarrow> int) \<Rightarrow> bool \<Rightarrow> 'a vy_mem \<Rightarrow> 'a push_pc \<Rightarrow> 'a vy_mem \<times> 'a push_pc" where
  "vy_push_next diff spurious m VIdle = (m, VIdle)"
| "vy_push_next diff spurious m (VPos pos v) =
     (let d = diff (vy_seq m ! vy_cell pos m) pos
      in if d = 0 then (m, VCas pos v) else if d < 0 then (m, VIdle) else (m, VPos (vy_enq m) v))"
| "vy_push_next diff spurious m (VCas pos v) =
     (if vy_enq m = pos \<and> \<not> spurious then (m\<lparr>vy_enq := pos + 1\<rparr>, VWrite pos v) else (m, VPos (vy_enq m) v))"
| "vy_push_next diff spurious m (VWrite pos v) = (m\<lparr>vy_val := (vy_val m)[vy_cell pos m := v]\<rparr>, VPub pos v)"
| "vy_push_next diff spurious m (VPub pos v) = (m\<lparr>vy_seq := (vy_seq m)[vy_cell pos m := pos + 1]\<rparr>, VIdle)"

fun vy_pop_next :: "(u64 \<Rightarrow> u64 \<Rightarrow> int) \<Rightarrow> bool \<Rightarrow> 'a vy_mem \<Rightarrow> 'a pop_pc \<Rightarrow> 'a vy_mem \<times> 'a pop_pc" where
  "vy_pop_next diff spurious m DIdle = (m, DIdle)"
| "vy_pop_next diff spurious m (DPos pos) =
     (let d = diff (vy_seq m ! vy_cell pos m) (pos + 1)
      in if d = 0 then (m, DCas pos) else if d < 0 then (m, DIdle) else (m, DPos (vy_deq m)))"
| "vy_pop_next diff spurious m (DCas pos) =
     (if vy_deq m = pos \<and> \<not> spurious then (m\<lparr>vy_deq := pos + 1\<rparr>, DRead pos) else (m, DPos (vy_deq m)))"
| "vy_pop_next diff spurious m (DRead pos) = (m, DFree pos (vy_val m ! vy_cell pos m))"
| "vy_pop_next diff spurious m (DFree pos v) = (m\<lparr>vy_seq := (vy_seq m)[vy_cell pos m := pos + vy_mask m + 1]\<rparr>, DIdle)"

text \<open>
  The system: any number of threads, each with its own place in the code. \<^verbatim>\<open>vs_log\<close> lists the values by
  the position they were claimed at, \<^verbatim>\<open>vs_got\<close> the values returned with their position.
\<close>

record 'a vy_sys =
  vs_mem :: "'a vy_mem"
  vs_push :: "nat \<Rightarrow> 'a push_pc"
  vs_pop :: "nat \<Rightarrow> 'a pop_pc"
  vs_log :: "'a list"
  vs_got :: "(nat \<times> 'a) list"

datatype 'a vy_action = CallPush nat 'a | CallPop nat | PushStep nat bool | PopStep nat bool

definition vy_log_step :: "'a vy_mem \<Rightarrow> 'a push_pc \<Rightarrow> 'a push_pc \<Rightarrow> 'a list" where
  "vy_log_step m pc pc' = (case (pc, pc') of (VCas pos v, VWrite pos' v') \<Rightarrow> [v] | _ \<Rightarrow> [])"

definition vy_got_step :: "'a pop_pc \<Rightarrow> (nat \<times> 'a) list" where
  "vy_got_step pc = (case pc of DFree pos v \<Rightarrow> [(unat pos, v)] | _ \<Rightarrow> [])"

fun vy_exec :: "(u64 \<Rightarrow> u64 \<Rightarrow> int) \<Rightarrow> 'a vy_action \<Rightarrow> 'a vy_sys \<Rightarrow> 'a vy_sys" where
  "vy_exec diff (CallPush i v) s =
     (if vs_push s i = VIdle then s\<lparr>vs_push := (vs_push s)(i := VPos (vy_enq (vs_mem s)) v)\<rparr> else s)"
| "vy_exec diff (CallPop i) s =
     (if vs_pop s i = DIdle then s\<lparr>vs_pop := (vs_pop s)(i := DPos (vy_deq (vs_mem s)))\<rparr> else s)"
| "vy_exec diff (PushStep i spurious) s =
     (case vy_push_next diff spurious (vs_mem s) (vs_push s i) of (m, pc) \<Rightarrow>
        s\<lparr>vs_mem := m, vs_push := (vs_push s)(i := pc), vs_log := vs_log s @ vy_log_step (vs_mem s) (vs_push s i) pc\<rparr>)"
| "vy_exec diff (PopStep i spurious) s =
     (case vy_pop_next diff spurious (vs_mem s) (vs_pop s i) of (m, pc) \<Rightarrow>
        s\<lparr>vs_mem := m, vs_pop := (vs_pop s)(i := pc), vs_got := vs_got s @ vy_got_step (vs_pop s i)\<rparr>)"

definition vy_new :: "u64 \<Rightarrow> 'a list \<Rightarrow> 'a vy_mem" where
  "vy_new capacity cells = \<lparr>vy_enq = 0, vy_deq = 0, vy_mask = capacity - 1,
     vy_seq = map of_nat [0..<unat capacity], vy_val = cells\<rparr>"

definition vy_start :: "u64 \<Rightarrow> 'a list \<Rightarrow> 'a vy_sys" where
  "vy_start capacity cells = \<lparr>vs_mem = vy_new capacity cells, vs_push = (\<lambda>i. VIdle), vs_pop = (\<lambda>i. DIdle), vs_log = [], vs_got = []\<rparr>"

section \<open>Operations alone\<close>

partial_function (option) vy_push_loop :: "(u64 \<Rightarrow> u64 \<Rightarrow> int) \<Rightarrow> 'a \<Rightarrow> u64 \<Rightarrow> 'a vy_mem \<Rightarrow> (bool \<times> 'a vy_mem) option" where
  "vy_push_loop diff v pos m =
     (let d = diff (vy_seq m ! vy_cell pos m) pos
      in if d = 0
         then (if vy_enq m = pos
               then Some (True, m\<lparr>vy_enq := pos + 1, vy_val := (vy_val m)[vy_cell pos m := v],
                                  vy_seq := (vy_seq m)[vy_cell pos m := pos + 1]\<rparr>)
               else vy_push_loop diff v (vy_enq m) m)
         else if d < 0 then Some (False, m) else vy_push_loop diff v (vy_enq m) m)"

partial_function (option) vy_pop_loop :: "(u64 \<Rightarrow> u64 \<Rightarrow> int) \<Rightarrow> u64 \<Rightarrow> 'a vy_mem \<Rightarrow> ('a option \<times> 'a vy_mem) option" where
  "vy_pop_loop diff pos m =
     (let d = diff (vy_seq m ! vy_cell pos m) (pos + 1)
      in if d = 0
         then (if vy_deq m = pos
               then Some (Some (vy_val m ! vy_cell pos m), m\<lparr>vy_deq := pos + 1,
                          vy_seq := (vy_seq m)[vy_cell pos m := pos + vy_mask m + 1]\<rparr>)
               else vy_pop_loop diff (vy_deq m) m)
         else if d < 0 then Some (None, m) else vy_pop_loop diff (vy_deq m) m)"

definition ShmRingMpmc_try_push :: "'a \<Rightarrow> 'a vy_mem \<Rightarrow> (bool \<times> 'a vy_mem) option" where
  "ShmRingMpmc_try_push value m = vy_push_loop mpmc_diff value (vy_enq m) m"

definition ShmRingMpmc_try_pop :: "'a vy_mem \<Rightarrow> ('a option \<times> 'a vy_mem) option" where
  "ShmRingMpmc_try_pop m = vy_pop_loop mpmc_diff (vy_deq m) m"

definition ShmRingMpmc_size_approx :: "'a vy_mem \<Rightarrow> u64" where
  "ShmRingMpmc_size_approx m = (let deq = vy_deq m; enq = vy_enq m in if deq \<le> enq then enq - deq else 0)"

fun ShmRingMpmc_push_spin :: "'a \<Rightarrow> nat \<Rightarrow> ('a vy_mem \<Rightarrow> 'a vy_mem) \<Rightarrow> 'a vy_mem \<Rightarrow> (bool \<times> 'a vy_mem) option" where
  "ShmRingMpmc_push_spin value 0 peer m = Some (False, m)"
| "ShmRingMpmc_push_spin value (Suc spins) peer m =
     Option.bind (ShmRingMpmc_try_push value m) (\<lambda>(pushed, m).
       if pushed then Some (True, m) else ShmRingMpmc_push_spin value spins peer (peer m))"

fun ShmRingMpmc_pop_spin :: "nat \<Rightarrow> ('a vy_mem \<Rightarrow> 'a vy_mem) \<Rightarrow> 'a vy_mem \<Rightarrow> ('a option \<times> 'a vy_mem) option" where
  "ShmRingMpmc_pop_spin 0 peer m = Some (None, m)"
| "ShmRingMpmc_pop_spin (Suc spins) peer m =
     Option.bind (ShmRingMpmc_try_pop m) (\<lambda>(r, m).
       if r \<noteq> None then Some (r, m) else ShmRingMpmc_pop_spin spins peer (peer m))"

text \<open>\<^verbatim>\<open>LockFreeRingBuffer\<close>: \<^term>\<open>None\<close> when the constructor or the operation never returns.\<close>

definition LockFreeRingBuffer_new :: "'a \<Rightarrow> u64 \<Rightarrow> 'a vy_mem option" where
  "LockFreeRingBuffer_new init requested_capacity =
     map_option (\<lambda>capacity. vy_new capacity (replicate (unat capacity) init)) (round_up_pow2 requested_capacity)"

definition LockFreeRingBuffer_push :: "'a \<Rightarrow> 'a vy_mem \<Rightarrow> (bool \<times> 'a vy_mem) option" where
  "LockFreeRingBuffer_push value m = vy_push_loop lfrb_diff value (vy_enq m) m"

definition LockFreeRingBuffer_pop :: "'a vy_mem \<Rightarrow> ('a option \<times> 'a vy_mem) option" where
  "LockFreeRingBuffer_pop m = vy_pop_loop lfrb_diff (vy_deq m) m"

section \<open>Invariant\<close>

text \<open>
  A cell at position \<^term>\<open>p\<close> is free when its word is \<^term>\<open>p\<close> and published when it is \<^term>\<open>p + 1\<close>. \<^term>\<open>E\<close> and
  \<^term>\<open>D\<close> are the numbers of positions claimed by producers and by consumers.
\<close>

definition cell_ok :: "nat \<Rightarrow> nat \<Rightarrow> nat \<Rightarrow> 'a list \<Rightarrow> nat \<Rightarrow> nat \<Rightarrow> 'a \<Rightarrow> bool" where
  "cell_ok c E D log j s v \<longleftrightarrow>
     (s mod c = j \<and> D \<le> s \<and> s < D + c) \<or>
     (\<exists>p. s = Suc p \<and> p mod c = j \<and> p < E \<and> E \<le> p + c \<and> v = log ! p)"

definition vy_shape :: "nat \<Rightarrow> 'a vy_mem \<Rightarrow> 'a list \<Rightarrow> bool" where
  "vy_shape k m log \<longleftrightarrow>
     0 < k \<and> k < 63 \<and> vy_mask m = 2 ^ k - 1 \<and> length (vy_seq m) = 2 ^ k \<and> length (vy_val m) = 2 ^ k \<and>
     unat (vy_enq m) = length log \<and> unat (vy_deq m) \<le> length log \<and> length log \<le> unat (vy_deq m) + 2 ^ k \<and>
     (\<forall>j<2 ^ k. cell_ok (2 ^ k) (length log) (unat (vy_deq m)) log j (unat (vy_seq m ! j)) (vy_val m ! j))"

text \<open>The position a producer holds, and the one a consumer holds.\<close>

fun push_holds :: "'a push_pc \<Rightarrow> nat option" where
  "push_holds (VWrite pos v) = Some (unat pos)"
| "push_holds (VPub pos v) = Some (unat pos)"
| "push_holds _ = None"

fun pop_holds :: "'a pop_pc \<Rightarrow> nat option" where
  "pop_holds (DRead pos) = Some (unat pos)"
| "pop_holds (DFree pos v) = Some (unat pos)"
| "pop_holds _ = None"

fun push_ok :: "nat \<Rightarrow> 'a vy_mem \<Rightarrow> 'a list \<Rightarrow> 'a push_pc \<Rightarrow> bool" where
  "push_ok c m log VIdle \<longleftrightarrow> True"
| "push_ok c m log (VPos pos v) \<longleftrightarrow> unat pos \<le> length log"
| "push_ok c m log (VCas pos v) \<longleftrightarrow> unat pos \<le> length log \<and> (unat pos < length log \<or> unat (vy_seq m ! (unat pos mod c)) = unat pos)"
| "push_ok c m log (VWrite pos v) \<longleftrightarrow> unat pos < length log \<and> log ! unat pos = v \<and> unat (vy_seq m ! (unat pos mod c)) = unat pos"
| "push_ok c m log (VPub pos v) \<longleftrightarrow> unat pos < length log \<and> log ! unat pos = v \<and> unat (vy_seq m ! (unat pos mod c)) = unat pos \<and>
     vy_val m ! (unat pos mod c) = v"

fun pop_ok :: "nat \<Rightarrow> 'a vy_mem \<Rightarrow> 'a list \<Rightarrow> 'a pop_pc \<Rightarrow> bool" where
  "pop_ok c m log DIdle \<longleftrightarrow> True"
| "pop_ok c m log (DPos pos) \<longleftrightarrow> unat pos \<le> unat (vy_deq m)"
| "pop_ok c m log (DCas pos) \<longleftrightarrow> unat pos \<le> unat (vy_deq m) \<and> (unat pos < unat (vy_deq m) \<or> unat (vy_seq m ! (unat pos mod c)) = Suc (unat pos))"
| "pop_ok c m log (DRead pos) \<longleftrightarrow> unat pos < unat (vy_deq m) \<and> unat (vy_seq m ! (unat pos mod c)) = Suc (unat pos)"
| "pop_ok c m log (DFree pos v) \<longleftrightarrow> unat pos < unat (vy_deq m) \<and> unat (vy_seq m ! (unat pos mod c)) = Suc (unat pos) \<and> v = log ! unat pos"

definition exclusive :: "(nat \<Rightarrow> nat option) \<Rightarrow> bool" where
  "exclusive f \<longleftrightarrow> (\<forall>i j p. f i = Some p \<longrightarrow> f j = Some p \<longrightarrow> i = j)"

text \<open>Every position claimed by a consumer is held by exactly one or has been returned exactly once.\<close>

definition deliveries :: "nat \<Rightarrow> (nat \<Rightarrow> nat option) \<Rightarrow> nat list \<Rightarrow> bool" where
  "deliveries D hold got \<longleftrightarrow> exclusive hold \<and> distinct got \<and> (\<forall>i p. hold i = Some p \<longrightarrow> p < D) \<and>
     (\<forall>p<D. p \<in> set got \<or> (\<exists>i. hold i = Some p)) \<and> (\<forall>p\<in>set got. p < D \<and> (\<forall>i. hold i \<noteq> Some p))"

definition vy_inv :: "nat \<Rightarrow> 'a vy_sys \<Rightarrow> bool" where
  "vy_inv k s \<longleftrightarrow>
     vy_shape k (vs_mem s) (vs_log s) \<and>
     (\<forall>i. push_ok (2 ^ k) (vs_mem s) (vs_log s) (vs_push s i)) \<and> (\<forall>i. pop_ok (2 ^ k) (vs_mem s) (vs_log s) (vs_pop s i)) \<and>
     exclusive (push_holds \<circ> vs_push s) \<and>
     deliveries (unat (vy_deq (vs_mem s))) (pop_holds \<circ> vs_pop s) (map fst (vs_got s)) \<and>
     (\<forall>(p, v)\<in>set (vs_got s). p < length (vs_log s) \<and> v = vs_log s ! p)"

definition vy_bounded :: "nat \<Rightarrow> 'a list \<Rightarrow> bool" where
  "vy_bounded k log \<longleftrightarrow> length log + 2 ^ k + 1 < 2 ^ 63"

section \<open>The distance law\<close>

locale vy_distance =
  fixes diff :: "u64 \<Rightarrow> u64 \<Rightarrow> int"
  assumes diff_unat: "unat a < 2 ^ 63 \<Longrightarrow> unat b < 2 ^ 63 \<Longrightarrow> diff a b = int (unat a) - int (unat b)"

lemma sint_sub_small:
  assumes "unat (a :: u64) < 2 ^ 63" and "unat b < 2 ^ 63"
  shows "sint (a - b) = int (unat a) - int (unat b)"
proof -
  have "(word_of_int (int (unat a) - int (unat b)) :: u64) = word_of_int (int (unat a)) - word_of_int (int (unat b))"
    by (rule of_int_diff)
  also have "\<dots> = a - b" by (simp only: of_int_of_nat_eq cursor_unat)
  finally have e: "a - b = word_of_int (int (unat a) - int (unat b))" by (rule sym)
  have "- (2 ^ 63) \<le> int x - int y \<and> int x - int y < 2 ^ 63" if "x < 2 ^ 63" "y < 2 ^ 63" for x y :: nat using that by auto
  from this [OF assms] have "- (2 ^ 63) \<le> int (unat a) - int (unat b)" "int (unat a) - int (unat b) < 2 ^ 63" by blast+
  then have "signed_take_bit 63 (int (unat a) - int (unat b)) = int (unat a) - int (unat b)"
    by (rule signed_take_bit_int_eq_self)
  then show ?thesis unfolding e signed_of_int by (simp only: len_bit0 len_num1 mult_1_right) simp
qed

lemma sint_small: "unat (a :: u64) < 2 ^ 63 \<Longrightarrow> sint a = int (unat a)"
  using sint_sub_small [of a 0] by (simp only: diff_zero unat_0 of_nat_0 zero_less_power zero_less_numeral)

interpretation lfrb: vy_distance lfrb_diff
  by unfold_locales (simp only: lfrb_diff_def sint_small)

interpretation mpmc: vy_distance mpmc_diff
  by unfold_locales (simp only: mpmc_diff_def sint_sub_small)

section \<open>The invariant is kept\<close>

lemma Suc_mod_neq: "2 \<le> c \<Longrightarrow> Suc p mod c \<noteq> p mod c"
  by (simp add: mod_Suc)

lemma two_le_pow: "0 < k \<Longrightarrow> (2::nat) \<le> 2 ^ k"
  using power_increasing [of 1 k "2::nat"] by simp

lemma cell_free: "2 \<le> c \<Longrightarrow> cell_ok c E D log (p mod c) p v \<Longrightarrow> D \<le> p \<and> p < D + c"
  unfolding cell_ok_def by (metis Suc_mod_neq)

lemma cell_published: "2 \<le> c \<Longrightarrow> cell_ok c E D log (p mod c) (Suc p) v \<Longrightarrow> p < E \<and> E \<le> p + c \<and> v = log ! p"
  using Suc_mod_neq by (auto simp: cell_ok_def)

lemma cell_bound: "cell_ok c E D log j s v \<Longrightarrow> D \<le> E \<Longrightarrow> s \<le> E + c"
  by (auto simp: cell_ok_def)

lemma vy_shapeD:
  assumes "vy_shape k m log"
  shows "k < 64" "2 \<le> (2::nat) ^ k" "unat (vy_enq m) = length log" "unat (vy_deq m) \<le> length log" "length log \<le> unat (vy_deq m) + 2 ^ k"
    and "\<And>j. j < 2 ^ k \<Longrightarrow> cell_ok (2 ^ k) (length log) (unat (vy_deq m)) log j (unat (vy_seq m ! j)) (vy_val m ! j)"
    and "length (vy_seq m) = 2 ^ k" "length (vy_val m) = 2 ^ k" "vy_mask m = 2 ^ k - 1"
  using assms two_le_pow [of k] by (auto simp: vy_shape_def)

lemma vy_cell_eq: "vy_shape k m log \<Longrightarrow> vy_cell pos m = unat pos mod 2 ^ k"
  by (simp add: vy_cell_def vy_shapeD(9) slot_of_word vy_shapeD(1))

lemma vy_cell_at:
  assumes "vy_shape k m log"
  shows "cell_ok (2 ^ k) (length log) (unat (vy_deq m)) log (p mod 2 ^ k) (unat (vy_seq m ! (p mod 2 ^ k))) (vy_val m ! (p mod 2 ^ k))"
  by (intro vy_shapeD(6) [OF assms]) simp

lemma vy_free_at:
  assumes "vy_shape k m log" and "unat (vy_seq m ! (p mod 2 ^ k)) = p"
  shows "unat (vy_deq m) \<le> p \<and> p < unat (vy_deq m) + 2 ^ k"
  using vy_cell_at [OF assms(1), of p] vy_shapeD(2) [OF assms(1)] unfolding assms(2) by (blast dest: cell_free)

lemma vy_published_at:
  assumes "vy_shape k m log" and "unat (vy_seq m ! (p mod 2 ^ k)) = Suc p"
  shows "p < length log \<and> length log \<le> p + 2 ^ k \<and> vy_val m ! (p mod 2 ^ k) = log ! p"
  using vy_cell_at [OF assms(1), of p] vy_shapeD(2) [OF assms(1)] unfolding assms(2) by (blast dest: cell_published)

text \<open>Two words at one cell tell the positions apart.\<close>

lemma vy_no_clash:
  assumes "vy_shape k m log" and "p mod 2 ^ k = q mod 2 ^ k" and "unat (vy_seq m ! (p mod 2 ^ k)) = p"
  shows "unat (vy_seq m ! (q mod 2 ^ k)) \<noteq> Suc q"
  using Suc_mod_neq [OF vy_shapeD(2) [OF assms(1)], of q] assms(2,3) by metis

lemma exclusive_upd:
  assumes "exclusive f" and "\<And>p j. x = Some p \<Longrightarrow> j \<noteq> i \<Longrightarrow> f j \<noteq> Some p"
  shows "exclusive (f(i := x))"
  unfolding exclusive_def
proof (intro allI impI)
  fix a b p assume ab: "(f(i := x)) a = Some p" "(f(i := x)) b = Some p"
  have f: "f a = Some p \<Longrightarrow> f b = Some p \<Longrightarrow> a = b" using assms(1) unfolding exclusive_def by blast
  show "a = b" using ab f assms(2) [of p a] assms(2) [of p b] by (cases "a = i"; cases "b = i") simp_all
qed

lemma deliveries_claim:
  assumes "deliveries D hold got" and "hold i = None"
  shows "deliveries (Suc D) (hold(i := Some D)) got"
proof -
  have e: "exclusive (hold(i := Some D))" using assms by (intro exclusive_upd) (fastforce simp: deliveries_def)+
  have "q \<in> set got \<or> (\<exists>j. (hold(i := Some D)) j = Some q)" if "q < Suc D" for q
  proof (cases "q = D")
    case False
    with assms that consider "q \<in> set got" | j where "hold j = Some q" by (auto simp: deliveries_def less_Suc_eq)
    then show ?thesis
    proof cases
      case 2
      with assms(2) have "j \<noteq> i" by auto
      with 2 show ?thesis by (intro disjI2 exI [of _ j]) simp
    qed simp
  qed (auto intro: exI [of _ i])
  moreover have "p < Suc D" if "(hold(i := Some D)) j = Some p" for j p
    using assms that by (cases "j = i") (auto simp: deliveries_def less_Suc_eq)
  moreover have "p < Suc D \<and> (\<forall>j. (hold(i := Some D)) j \<noteq> Some p)" if "p \<in> set got" for p
    using assms that by (auto simp: deliveries_def less_Suc_eq)
  ultimately show ?thesis using e assms unfolding deliveries_def by blast
qed

lemma deliveries_return:
  assumes "deliveries D hold got" and "hold i = Some p"
  shows "deliveries D (hold(i := None)) (got @ [p])"
proof -
  have e: "exclusive (hold(i := None))" using assms by (intro exclusive_upd) (auto simp: deliveries_def)
  have "p < D" "p \<notin> set got" "\<And>j. j \<noteq> i \<Longrightarrow> hold j \<noteq> Some p" using assms by (auto simp: deliveries_def exclusive_def)
  moreover have "q \<in> set (got @ [p]) \<or> (\<exists>j. (hold(i := None)) j = Some q)" if "q < D" for q
  proof (cases "q = p")
    case False
    from assms that consider "q \<in> set got" | j where "hold j = Some q" by (auto simp: deliveries_def)
    then show ?thesis
    proof cases
      case 2
      with False assms(2) have "j \<noteq> i" by auto
      with 2 show ?thesis by (intro disjI2 exI [of _ j]) simp
    qed simp
  qed simp
  ultimately show ?thesis using e assms unfolding deliveries_def by auto
qed

lemma vy_inv_pushI:
  assumes inv: "vy_inv k s" and sh: "vy_shape k m' (vs_log s @ ys)" and pc: "push_ok (2 ^ k) m' (vs_log s @ ys) pc"
    and others: "\<And>j. j \<noteq> i \<Longrightarrow> push_ok (2 ^ k) m' (vs_log s @ ys) (vs_push s j)" "\<And>j. pop_ok (2 ^ k) m' (vs_log s @ ys) (vs_pop s j)"
    and deq: "vy_deq m' = vy_deq (vs_mem s)"
    and holds: "\<And>p j. push_holds pc = Some p \<Longrightarrow> j \<noteq> i \<Longrightarrow> push_holds (vs_push s j) \<noteq> Some p"
  shows "vy_inv k (s\<lparr>vs_mem := m', vs_push := (vs_push s)(i := pc), vs_log := vs_log s @ ys\<rparr>)"
proof -
  have "exclusive (push_holds \<circ> (vs_push s)(i := pc))"
    unfolding fun_upd_comp using inv holds by (intro exclusive_upd) (auto simp: vy_inv_def)
  moreover have "\<forall>j. push_ok (2 ^ k) m' (vs_log s @ ys) (((vs_push s)(i := pc)) j)" using pc others(1) by simp
  moreover have "\<forall>(p, v)\<in>set (vs_got s). p < length (vs_log s @ ys) \<and> v = (vs_log s @ ys) ! p"
    using inv by (fastforce simp: vy_inv_def nth_append)
  ultimately show ?thesis using inv sh others(2) deq by (simp add: vy_inv_def)
qed

lemma vy_inv_popI:
  assumes inv: "vy_inv k s" and sh: "vy_shape k m' (vs_log s)" and pc: "pop_ok (2 ^ k) m' (vs_log s) pc"
    and others: "\<And>j. push_ok (2 ^ k) m' (vs_log s) (vs_push s j)" "\<And>j. j \<noteq> i \<Longrightarrow> pop_ok (2 ^ k) m' (vs_log s) (vs_pop s j)"
    and del: "deliveries (unat (vy_deq m')) ((pop_holds \<circ> vs_pop s)(i := pop_holds pc)) (map fst (vs_got s @ ys))"
    and ys: "\<forall>(p, v)\<in>set ys. p < length (vs_log s) \<and> v = vs_log s ! p"
  shows "vy_inv k (s\<lparr>vs_mem := m', vs_pop := (vs_pop s)(i := pc), vs_got := vs_got s @ ys\<rparr>)"
proof -
  have "\<forall>j. pop_ok (2 ^ k) m' (vs_log s) (((vs_pop s)(i := pc)) j)" using pc others(2) by simp
  moreover have "\<forall>(p, v)\<in>set (vs_got s @ ys). p < length (vs_log s) \<and> v = vs_log s ! p" using inv ys by (auto simp: vy_inv_def)
  ultimately show ?thesis using inv sh others(1) del by (simp add: vy_inv_def fun_upd_comp)
qed

subsection \<open>Memory steps\<close>

text \<open>A producer claims the position at the end of the log.\<close>

lemma vy_shape_claim:
  assumes sh: "vy_shape k m log" and pos: "unat pos = length log" "unat (vy_seq m ! (length log mod 2 ^ k)) = length log"
    and b: "length log + 1 < 2 ^ 64"
  shows "vy_shape k (m\<lparr>vy_enq := pos + 1\<rparr>) (log @ [v])"
proof -
  have e: "unat (pos + 1) = Suc (length log)" using unat_succ64 [of pos] pos b by simp
  have f: "length log < unat (vy_deq m) + 2 ^ k" using vy_free_at [OF sh pos(2)] by simp
  have "cell_ok (2 ^ k) (Suc (length log)) (unat (vy_deq m)) (log @ [v]) j (unat (vy_seq m ! j)) (vy_val m ! j)" if "j < 2 ^ k" for j
  proof -
    from vy_shapeD(6) [OF sh that] consider
        "unat (vy_seq m ! j) mod 2 ^ k = j" "unat (vy_deq m) \<le> unat (vy_seq m ! j)" "unat (vy_seq m ! j) < unat (vy_deq m) + 2 ^ k"
      | p where "unat (vy_seq m ! j) = Suc p" "p mod 2 ^ k = j" "p < length log" "length log \<le> p + 2 ^ k" "vy_val m ! j = log ! p"
      unfolding cell_ok_def by blast
    then show ?thesis
    proof cases
      case 1
      then show ?thesis by (simp add: cell_ok_def)
    next
      case 2
      have "length log \<noteq> p + 2 ^ k"
      proof
        assume l: "length log = p + 2 ^ k"
        then have "length log mod 2 ^ k = j" using 2(2) by simp
        with pos(2) 2(1) have "Suc p = p + 2 ^ k" using l by simp
        with vy_shapeD(2) [OF sh] show False by simp
      qed
      with 2 show ?thesis by (auto simp: cell_ok_def nth_append)
    qed
  qed
  with sh e f show ?thesis by (auto simp: vy_shape_def)
qed

text \<open>The holder of a claimed position stores the value, then publishes the cell.\<close>

lemma vy_shape_write:
  assumes sh: "vy_shape k m log" and p: "unat (vy_seq m ! (p mod 2 ^ k)) = p"
  shows "vy_shape k (m\<lparr>vy_val := (vy_val m)[p mod 2 ^ k := v]\<rparr>) log"
proof -
  have "cell_ok (2 ^ k) (length log) (unat (vy_deq m)) log j (unat (vy_seq m ! j)) ((vy_val m)[p mod 2 ^ k := v] ! j)" if "j < 2 ^ k" for j
    using vy_shapeD(6) [OF sh that] vy_free_at [OF sh p] p by (cases "j = p mod 2 ^ k") (auto simp: cell_ok_def)
  with sh show ?thesis by (simp add: vy_shape_def)
qed

lemma vy_shape_publish:
  assumes sh: "vy_shape k m log" and p: "unat (vy_seq m ! (p mod 2 ^ k)) = p" "p < length log" "vy_val m ! (p mod 2 ^ k) = log ! p"
    and w: "unat w = Suc p"
  shows "vy_shape k (m\<lparr>vy_seq := (vy_seq m)[p mod 2 ^ k := w]\<rparr>) log"
proof -
  have "length log \<le> p + 2 ^ k" using vy_free_at [OF sh p(1)] vy_shapeD(5) [OF sh] by simp
  then have "cell_ok (2 ^ k) (length log) (unat (vy_deq m)) log j (unat ((vy_seq m)[p mod 2 ^ k := w] ! j)) (vy_val m ! j)" if "j < 2 ^ k" for j
    using vy_shapeD(6) [OF sh that] p w vy_shapeD(7) [OF sh] that by (cases "j = p mod 2 ^ k") (auto simp: cell_ok_def)
  with sh show ?thesis by (simp add: vy_shape_def)
qed

text \<open>A consumer claims the oldest position, and later frees its cell.\<close>

lemma vy_shape_take:
  assumes sh: "vy_shape k m log" and pos: "vy_deq m = pos" "unat (vy_seq m ! (unat pos mod 2 ^ k)) = Suc (unat pos)"
    and b: "length log < 2 ^ 64"
  shows "vy_shape k (m\<lparr>vy_deq := pos + 1\<rparr>) log \<and> unat (pos + 1) = Suc (unat pos)"
proof -
  have p: "unat pos < length log" using vy_published_at [OF sh pos(2)] by simp
  then have e: "unat (pos + 1) = Suc (unat pos)" using b by (intro unat_succ64) simp
  have "cell_ok (2 ^ k) (length log) (Suc (unat pos)) log j (unat (vy_seq m ! j)) (vy_val m ! j)" if "j < 2 ^ k" for j
  proof -
    have "unat (vy_seq m ! j) mod 2 ^ k = j \<Longrightarrow> unat (vy_seq m ! j) \<noteq> unat pos" using pos(2) by (metis n_not_Suc_n)
    with vy_shapeD(6) [OF sh that] pos(1) show ?thesis by (auto simp: cell_ok_def)
  qed
  with sh e p pos(1) show ?thesis by (auto simp: vy_shape_def)
qed

lemma vy_shape_free:
  assumes sh: "vy_shape k m log" and p: "unat (vy_seq m ! (p mod 2 ^ k)) = Suc p" "p < unat (vy_deq m)" and w: "unat w = p + 2 ^ k"
  shows "vy_shape k (m\<lparr>vy_seq := (vy_seq m)[p mod 2 ^ k := w]\<rparr>) log"
proof -
  have "unat (vy_deq m) \<le> p + 2 ^ k" using vy_published_at [OF sh p(1)] vy_shapeD(4) [OF sh] by simp
  then have "cell_ok (2 ^ k) (length log) (unat (vy_deq m)) log j (unat ((vy_seq m)[p mod 2 ^ k := w] ! j)) (vy_val m ! j)" if "j < 2 ^ k" for j
    using vy_shapeD(6) [OF sh that] p w vy_shapeD(7) [OF sh] that by (cases "j = p mod 2 ^ k") (auto simp: cell_ok_def)
  with sh show ?thesis by (simp add: vy_shape_def)
qed

subsection \<open>What the other threads rely on\<close>

lemma push_ok_log: "push_ok c m log pc \<Longrightarrow> push_ok c (m\<lparr>vy_enq := e\<rparr>) (log @ ys) pc"
  by (cases pc) (auto simp: nth_append)

lemma push_ok_deq [simp]: "push_ok c (m\<lparr>vy_deq := d\<rparr>) log pc = push_ok c m log pc"
  by (cases pc) auto

lemma pop_ok_log: "pop_ok c m log pc \<Longrightarrow> unat (vy_deq m) \<le> length log \<Longrightarrow> pop_ok c (m\<lparr>vy_enq := e\<rparr>) (log @ ys) pc"
  by (cases pc) (auto simp: nth_append)

lemma pop_ok_deq: "pop_ok c m log pc \<Longrightarrow> unat (vy_deq m) \<le> unat d \<Longrightarrow> pop_ok c (m\<lparr>vy_deq := d\<rparr>) log pc"
  by (cases pc) auto

lemma pop_ok_val [simp]: "pop_ok c (m\<lparr>vy_val := vs\<rparr>) log pc = pop_ok c m log pc"
  by (cases pc) auto

lemma push_ok_val:
  assumes "push_ok c m log pc" and "unat (vy_seq m ! (p mod c)) = p" and "push_holds pc \<noteq> Some p"
  shows "push_ok c (m\<lparr>vy_val := (vy_val m)[p mod c := v]\<rparr>) log pc"
proof (cases pc)
  case (VPub q w)
  then have "unat q mod c \<noteq> p mod c" using assms by auto
  with VPub assms(1) show ?thesis by simp
qed (use assms in auto)

text \<open>Storing a sequence word in cell \<^term>\<open>p mod c\<close> concerns nobody who holds another position.\<close>

lemma push_ok_publish:
  assumes "push_ok c m log pc" and "unat (vy_seq m ! (p mod c)) = p" and "p < length log" and "push_holds pc \<noteq> Some p"
  shows "push_ok c (m\<lparr>vy_seq := (vy_seq m)[p mod c := w]\<rparr>) log pc"
proof -
  have n: "unat (vy_seq m ! (q mod c)) = q \<Longrightarrow> q \<noteq> p \<Longrightarrow> (vy_seq m)[p mod c := w] ! (q mod c) = vy_seq m ! (q mod c)" for q
    using assms(2) by (cases "p mod c = q mod c") auto
  show ?thesis
  proof (cases pc)
    case (VCas q v)
    then show ?thesis using assms n [of "unat q"] by (cases "unat q = p") auto
  qed (use assms n in auto)
qed

lemma pop_ok_publish:
  assumes "pop_ok c m log pc" and "unat (vy_seq m ! (p mod c)) = p" and "2 \<le> c"
  shows "pop_ok c (m\<lparr>vy_seq := (vy_seq m)[p mod c := w]\<rparr>) log pc"
proof -
  have n: "unat (vy_seq m ! (q mod c)) = Suc q \<Longrightarrow> (vy_seq m)[p mod c := w] ! (q mod c) = vy_seq m ! (q mod c)" for q
    using assms(2) Suc_mod_neq [OF assms(3), of q] by (cases "p mod c = q mod c") auto
  show ?thesis using assms(1) n by (cases pc) auto
qed

lemma push_ok_free:
  assumes "push_ok c m log pc" and "unat (vy_seq m ! (p mod c)) = Suc p" and "2 \<le> c"
  shows "push_ok c (m\<lparr>vy_seq := (vy_seq m)[p mod c := w]\<rparr>) log pc"
proof -
  have n: "unat (vy_seq m ! (q mod c)) = q \<Longrightarrow> (vy_seq m)[p mod c := w] ! (q mod c) = vy_seq m ! (q mod c)" for q
    using assms(2) Suc_mod_neq [OF assms(3), of p] by (cases "p mod c = q mod c") auto
  show ?thesis using assms(1) n by (cases pc) auto
qed

lemma pop_ok_free:
  assumes "pop_ok c m log pc" and "unat (vy_seq m ! (p mod c)) = Suc p" and "p < unat (vy_deq m)" and "pop_holds pc \<noteq> Some p"
  shows "pop_ok c (m\<lparr>vy_seq := (vy_seq m)[p mod c := w]\<rparr>) log pc"
proof -
  have n: "unat (vy_seq m ! (q mod c)) = Suc q \<Longrightarrow> q \<noteq> p \<Longrightarrow> (vy_seq m)[p mod c := w] ! (q mod c) = vy_seq m ! (q mod c)" for q
    using assms(2) by (cases "p mod c = q mod c") auto
  show ?thesis
  proof (cases pc)
    case (DCas q)
    then show ?thesis using assms n [of "unat q"] by (cases "unat q = p") auto
  qed (use assms n in auto)
qed

subsection \<open>Every step keeps the invariant\<close>

lemma vy_invD:
  assumes "vy_inv k s"
  shows "vy_shape k (vs_mem s) (vs_log s)" "\<And>i. push_ok (2 ^ k) (vs_mem s) (vs_log s) (vs_push s i)"
    "\<And>i. pop_ok (2 ^ k) (vs_mem s) (vs_log s) (vs_pop s i)" "exclusive (push_holds \<circ> vs_push s)"
    "deliveries (unat (vy_deq (vs_mem s))) (pop_holds \<circ> vs_pop s) (map fst (vs_got s))"
  using assms by (auto simp: vy_inv_def)

lemma exclusive_other: "exclusive (f \<circ> g) \<Longrightarrow> f (g i) = Some p \<Longrightarrow> j \<noteq> i \<Longrightarrow> f (g j) \<noteq> Some p"
  by (auto simp: exclusive_def)

lemma vy_seq_small:
  assumes "vy_shape k m log" and "vy_bounded k log"
  shows "unat (vy_seq m ! (p mod 2 ^ k)) < 2 ^ 63"
proof -
  have "unat (vy_seq m ! (p mod 2 ^ k)) \<le> length log + 2 ^ k" by (rule cell_bound [OF vy_cell_at [OF assms(1)] vy_shapeD(4) [OF assms(1)]])
  with assms(2) show ?thesis by (simp add: vy_bounded_def)
qed

text \<open>A step that changes nothing but the thread's place.\<close>

lemma vy_push_local:
  assumes inv: "vy_inv k s" and "push_ok (2 ^ k) (vs_mem s) (vs_log s) pc" and "push_holds pc = None"
  shows "vy_inv k (s\<lparr>vs_mem := vs_mem s, vs_push := (vs_push s)(i := pc), vs_log := vs_log s @ []\<rparr>)"
  using vy_invD(1-3) [OF inv] assms(2,3) by (intro vy_inv_pushI [OF inv]) auto

lemma vy_pop_local:
  assumes inv: "vy_inv k s" and "pop_ok (2 ^ k) (vs_mem s) (vs_log s) pc" and "pop_holds pc = pop_holds (vs_pop s i)"
  shows "vy_inv k (s\<lparr>vs_mem := vs_mem s, vs_pop := (vs_pop s)(i := pc), vs_got := vs_got s @ []\<rparr>)"
proof -
  have "(pop_holds \<circ> vs_pop s)(i := pop_holds pc) = pop_holds \<circ> vs_pop s" using assms(3) by auto
  then show ?thesis using vy_invD [OF inv] assms(2) by (intro vy_inv_popI [OF inv]) simp_all
qed

context vy_distance
begin

lemma vy_push_pos:
  assumes inv: "vy_inv k s" and b: "vy_bounded k (vs_log s)" and pc: "vs_push s i = VPos pos v"
  shows "vy_inv k (vy_exec diff (PushStep i sp) s)"
proof -
  note sh = vy_invD(1) [OF inv]
  have p: "unat pos \<le> length (vs_log s)" using vy_invD(2) [OF inv, of i] pc by simp
  have small: "unat pos < 2 ^ 63" using p b by (simp add: vy_bounded_def)
  have e: "unat (vy_enq (vs_mem s)) \<le> length (vs_log s)" using vy_shapeD(3) [OF sh] by simp
  let ?d = "diff (vy_seq (vs_mem s) ! vy_cell pos (vs_mem s)) pos"
  have d: "?d = int (unat (vy_seq (vs_mem s) ! (unat pos mod 2 ^ k))) - int (unat pos)"
    unfolding vy_cell_eq [OF sh] by (rule diff_unat [OF vy_seq_small [OF sh b] small])
  consider "?d = 0" | "?d < 0" | "?d > 0" by linarith
  then show ?thesis
  proof cases
    case 1
    then have "unat (vy_seq (vs_mem s) ! (unat pos mod 2 ^ k)) = unat pos" using d by linarith
    with 1 p pc vy_push_local [OF inv, of "VCas pos v" i] show ?thesis by (simp add: vy_log_step_def)
  next
    case 2
    with pc vy_push_local [OF inv, of VIdle i] show ?thesis by (simp add: Let_def vy_log_step_def)
  next
    case 3
    with pc e vy_push_local [OF inv, of "VPos (vy_enq (vs_mem s)) v" i] show ?thesis by (simp add: Let_def vy_log_step_def)
  qed
qed

lemma vy_push_cas:
  assumes inv: "vy_inv k s" and b: "vy_bounded k (vs_log s)" and pc: "vs_push s i = VCas pos v"
  shows "vy_inv k (vy_exec diff (PushStep i sp) s)"
proof (cases "vy_enq (vs_mem s) = pos \<and> \<not> sp")
  case False
  have "unat (vy_enq (vs_mem s)) \<le> length (vs_log s)" using vy_shapeD(3) [OF vy_invD(1) [OF inv]] by simp
  with False pc vy_push_local [OF inv, of "VPos (vy_enq (vs_mem s)) v" i] show ?thesis by (auto simp: vy_log_step_def)
next
  case True
  note sh = vy_invD(1) [OF inv]
  have e: "unat pos = length (vs_log s)" using vy_shapeD(3) [OF sh] True by simp
  have q: "unat (vy_seq (vs_mem s) ! (length (vs_log s) mod 2 ^ k)) = length (vs_log s)"
    using vy_invD(2) [OF inv, of i] pc e by simp
  have sh': "vy_shape k ((vs_mem s)\<lparr>vy_enq := pos + 1\<rparr>) (vs_log s @ [v])"
    using b by (intro vy_shape_claim [OF sh e q]) (simp add: vy_bounded_def)
  have "vy_inv k (s\<lparr>vs_mem := (vs_mem s)\<lparr>vy_enq := pos + 1\<rparr>, vs_push := (vs_push s)(i := VWrite pos v), vs_log := vs_log s @ [v]\<rparr>)"
  proof (rule vy_inv_pushI [OF inv sh'])
    show "push_ok (2 ^ k) ((vs_mem s)\<lparr>vy_enq := pos + 1\<rparr>) (vs_log s @ [v]) (VWrite pos v)" using e q by simp
    fix p j
    assume "push_holds (VWrite pos v) = Some p" and "j \<noteq> i"
    then have "p = length (vs_log s)" using e by simp
    then show "push_holds (vs_push s j) \<noteq> Some p" using vy_invD(2) [OF inv, of j] by (cases "vs_push s j") auto
  qed (use vy_invD(2,3) [OF inv] vy_shapeD(4) [OF sh] in \<open>auto intro: push_ok_log pop_ok_log\<close>)
  then show ?thesis using True pc by (simp add: vy_log_step_def)
qed

lemma vy_push_write:
  assumes inv: "vy_inv k s" and pc: "vs_push s i = VWrite pos v"
  shows "vy_inv k (vy_exec diff (PushStep i sp) s)"
proof -
  note sh = vy_invD(1) [OF inv]
  have p: "unat pos < length (vs_log s)" "vs_log s ! unat pos = v" "unat (vy_seq (vs_mem s) ! (unat pos mod 2 ^ k)) = unat pos"
    using vy_invD(2) [OF inv, of i] pc by simp_all
  have o: "j \<noteq> i \<Longrightarrow> push_holds (vs_push s j) \<noteq> Some (unat pos)" for j
    using exclusive_other [OF vy_invD(4) [OF inv], of i] pc by simp
  have "vy_inv k (s\<lparr>vs_mem := (vs_mem s)\<lparr>vy_val := (vy_val (vs_mem s))[unat pos mod 2 ^ k := v]\<rparr>,
      vs_push := (vs_push s)(i := VPub pos v), vs_log := vs_log s @ []\<rparr>)"
    using vy_shape_write [OF sh p(3)] p vy_shapeD(8) [OF sh] vy_invD(2,3) [OF inv] o
    by (intro vy_inv_pushI [OF inv]) (auto intro: push_ok_val)
  then show ?thesis using pc by (simp add: vy_log_step_def vy_cell_eq [OF sh])
qed

lemma vy_push_publish:
  assumes inv: "vy_inv k s" and b: "vy_bounded k (vs_log s)" and pc: "vs_push s i = VPub pos v"
  shows "vy_inv k (vy_exec diff (PushStep i sp) s)"
proof -
  note sh = vy_invD(1) [OF inv]
  have p: "unat pos < length (vs_log s)" "vs_log s ! unat pos = v" "unat (vy_seq (vs_mem s) ! (unat pos mod 2 ^ k)) = unat pos"
      "vy_val (vs_mem s) ! (unat pos mod 2 ^ k) = v"
    using vy_invD(2) [OF inv, of i] pc by simp_all
  have w: "unat (pos + 1) = Suc (unat pos)" using p(1) b unat_succ64 [of pos] by (simp add: vy_bounded_def)
  have o: "j \<noteq> i \<Longrightarrow> push_holds (vs_push s j) \<noteq> Some (unat pos)" for j
    using exclusive_other [OF vy_invD(4) [OF inv], of i] pc by simp
  have "vy_inv k (s\<lparr>vs_mem := (vs_mem s)\<lparr>vy_seq := (vy_seq (vs_mem s))[unat pos mod 2 ^ k := pos + 1]\<rparr>,
      vs_push := (vs_push s)(i := VIdle), vs_log := vs_log s @ []\<rparr>)"
    using vy_shape_publish [OF sh p(3,1) _ w] p vy_invD(2,3) [OF inv] o vy_shapeD(2) [OF sh]
    by (intro vy_inv_pushI [OF inv]) (auto intro: push_ok_publish pop_ok_publish)
  then show ?thesis using pc by (simp add: vy_log_step_def vy_cell_eq [OF sh])
qed

lemma vy_pop_pos:
  assumes inv: "vy_inv k s" and b: "vy_bounded k (vs_log s)" and pc: "vs_pop s i = DPos pos"
  shows "vy_inv k (vy_exec diff (PopStep i sp) s)"
proof -
  note sh = vy_invD(1) [OF inv]
  have p: "unat pos \<le> unat (vy_deq (vs_mem s))" using vy_invD(3) [OF inv, of i] pc by simp
  then have l: "unat pos \<le> length (vs_log s)" using vy_shapeD(4) [OF sh] by simp
  have w: "unat (pos + 1) = Suc (unat pos)" using l b unat_succ64 [of pos] by (simp add: vy_bounded_def)
  have small: "unat (pos + 1) < 2 ^ 63" unfolding w using l b by (simp add: vy_bounded_def)
  let ?d = "diff (vy_seq (vs_mem s) ! vy_cell pos (vs_mem s)) (pos + 1)"
  have d: "?d = int (unat (vy_seq (vs_mem s) ! (unat pos mod 2 ^ k))) - int (Suc (unat pos))"
    unfolding vy_cell_eq [OF sh] by (rule trans [OF diff_unat [OF vy_seq_small [OF sh b] small]]) (simp only: w)
  consider "?d = 0" | "?d < 0" | "?d > 0" by linarith
  then show ?thesis
  proof cases
    case 1
    then have "unat (vy_seq (vs_mem s) ! (unat pos mod 2 ^ k)) = Suc (unat pos)" using d by linarith
    with 1 p pc vy_pop_local [OF inv, of "DCas pos" i] show ?thesis by (simp add: vy_got_step_def)
  next
    case 2
    with pc vy_pop_local [OF inv, of DIdle i] show ?thesis by (simp add: Let_def vy_got_step_def)
  next
    case 3
    with pc vy_pop_local [OF inv, of "DPos (vy_deq (vs_mem s))" i] show ?thesis by (simp add: Let_def vy_got_step_def)
  qed
qed

lemma vy_pop_cas:
  assumes inv: "vy_inv k s" and b: "vy_bounded k (vs_log s)" and pc: "vs_pop s i = DCas pos"
  shows "vy_inv k (vy_exec diff (PopStep i sp) s)"
proof (cases "vy_deq (vs_mem s) = pos \<and> \<not> sp")
  case False
  with pc vy_pop_local [OF inv, of "DPos (vy_deq (vs_mem s))" i] show ?thesis by (auto simp: vy_got_step_def)
next
  case True
  note sh = vy_invD(1) [OF inv]
  have q: "unat (vy_seq (vs_mem s) ! (unat pos mod 2 ^ k)) = Suc (unat pos)"
    using vy_invD(3) [OF inv, of i] pc True by simp
  have sh': "vy_shape k ((vs_mem s)\<lparr>vy_deq := pos + 1\<rparr>) (vs_log s)" and w: "unat (pos + 1) = Suc (unat pos)"
    using vy_shape_take [OF sh _ q] True b by (auto simp: vy_bounded_def)
  have del: "deliveries (Suc (unat pos)) ((pop_holds \<circ> vs_pop s)(i := Some (unat pos))) (map fst (vs_got s))"
    using vy_invD(5) [OF inv] True pc by (intro deliveries_claim) auto
  have "vy_inv k (s\<lparr>vs_mem := (vs_mem s)\<lparr>vy_deq := pos + 1\<rparr>, vs_pop := (vs_pop s)(i := DRead pos), vs_got := vs_got s @ []\<rparr>)"
    using sh' w q del True vy_invD(2,3) [OF inv] by (intro vy_inv_popI [OF inv]) (auto intro!: pop_ok_deq)
  then show ?thesis using True pc by (simp add: vy_got_step_def)
qed

lemma vy_pop_read:
  assumes inv: "vy_inv k s" and pc: "vs_pop s i = DRead pos"
  shows "vy_inv k (vy_exec diff (PopStep i sp) s)"
proof -
  note sh = vy_invD(1) [OF inv]
  have p: "unat pos < unat (vy_deq (vs_mem s))" "unat (vy_seq (vs_mem s) ! (unat pos mod 2 ^ k)) = Suc (unat pos)"
    using vy_invD(3) [OF inv, of i] pc by simp_all
  with vy_published_at [OF sh p(2)] pc vy_pop_local [OF inv, of "DFree pos (vs_log s ! unat pos)" i] show ?thesis
    by (simp add: vy_got_step_def vy_cell_eq [OF sh])
qed

lemma vy_pop_free:
  assumes inv: "vy_inv k s" and b: "vy_bounded k (vs_log s)" and pc: "vs_pop s i = DFree pos v"
  shows "vy_inv k (vy_exec diff (PopStep i sp) s)"
proof -
  note sh = vy_invD(1) [OF inv]
  have p: "unat pos < unat (vy_deq (vs_mem s))" "unat (vy_seq (vs_mem s) ! (unat pos mod 2 ^ k)) = Suc (unat pos)" "v = vs_log s ! unat pos"
    using vy_invD(3) [OF inv, of i] pc by simp_all
  have l: "unat pos < length (vs_log s)" using p(1) vy_shapeD(4) [OF sh] by simp
  have "pos + vy_mask (vs_mem s) + 1 = pos + 2 ^ k" by (simp add: vy_shapeD(9) [OF sh])
  moreover have "unat (pos + 2 ^ k) = unat pos + 2 ^ k"
    using l b unat_add64 [of pos "2 ^ k"] by (simp add: vy_bounded_def unat_pow2 [OF vy_shapeD(1) [OF sh]])
  ultimately have w: "unat (pos + vy_mask (vs_mem s) + 1) = unat pos + 2 ^ k" by (simp only:)
  have del: "deliveries (unat (vy_deq (vs_mem s))) ((pop_holds \<circ> vs_pop s)(i := None)) (map fst (vs_got s) @ [unat pos])"
    using vy_invD(5) [OF inv] pc by (intro deliveries_return) auto
  have o: "j \<noteq> i \<Longrightarrow> pop_holds (vs_pop s j) \<noteq> Some (unat pos)" for j
    using exclusive_other [of pop_holds "vs_pop s" i] vy_invD(5) [OF inv] pc by (simp add: deliveries_def)
  have "vy_inv k (s\<lparr>vs_mem := (vs_mem s)\<lparr>vy_seq := (vy_seq (vs_mem s))[unat pos mod 2 ^ k := pos + vy_mask (vs_mem s) + 1]\<rparr>,
      vs_pop := (vs_pop s)(i := DIdle), vs_got := vs_got s @ [(unat pos, v)]\<rparr>)"
    using vy_shape_free [OF sh p(2,1) w] p l del o vy_invD(2,3) [OF inv] vy_shapeD(2) [OF sh]
    by (intro vy_inv_popI [OF inv]) (auto intro: push_ok_free pop_ok_free)
  then show ?thesis using pc by (simp add: vy_got_step_def vy_cell_eq [OF sh])
qed

lemma vy_exec_inv:
  assumes inv: "vy_inv k s" and b: "vy_bounded k (vs_log s)"
  shows "vy_inv k (vy_exec diff a s)"
proof (cases a)
  case (CallPush i v)
  have "unat (vy_enq (vs_mem s)) \<le> length (vs_log s)" using vy_shapeD(3) [OF vy_invD(1) [OF inv]] by simp
  then show ?thesis using CallPush inv vy_push_local [OF inv, of "VPos (vy_enq (vs_mem s)) v" i] by simp
next
  case (CallPop i)
  then show ?thesis using inv vy_pop_local [OF inv, of "DPos (vy_deq (vs_mem s))" i] by simp
next
  case (PushStep i sp)
  then show ?thesis
    using vy_push_pos [OF inv b] vy_push_cas [OF inv b] vy_push_write [OF inv] vy_push_publish [OF inv b] vy_push_local [OF inv, of VIdle i]
    by (cases "vs_push s i") (auto simp: vy_log_step_def)
next
  case (PopStep i sp)
  then show ?thesis
    using vy_pop_pos [OF inv b] vy_pop_cas [OF inv b] vy_pop_read [OF inv] vy_pop_free [OF inv b] vy_pop_local [OF inv, of DIdle i]
    by (cases "vs_pop s i") (auto simp: vy_got_step_def)
qed

lemma vy_exec_log: "length (vs_log s) \<le> length (vs_log (vy_exec diff a s))"
  by (cases a) (auto split: prod.splits)

lemma vy_run_inv:
  assumes "vy_inv k s" and "vy_bounded k (vs_log (fold (vy_exec diff) as s))"
  shows "vy_inv k (fold (vy_exec diff) as s)"
  using assms
proof (induction as rule: rev_induct)
  case (snoc a as)
  then have "vy_bounded k (vs_log (fold (vy_exec diff) as s))"
    using vy_exec_log [of "fold (vy_exec diff) as s" a] by (simp add: vy_bounded_def)
  with snoc show ?case by (simp add: vy_exec_inv)
qed simp

end

section \<open>One thread at a time\<close>

definition quiet_cell :: "nat \<Rightarrow> nat \<Rightarrow> 'a list \<Rightarrow> u64 list \<Rightarrow> 'a list \<Rightarrow> nat \<Rightarrow> bool" where
  "quiet_cell c D xs seq vals i \<longleftrightarrow>
     seq ! ((D + i) mod c) = of_nat (if i < length xs then D + i + 1 else D + i) \<and>
     (i < length xs \<longrightarrow> vals ! ((D + i) mod c) = xs ! i)"

definition vy_quiet :: "nat \<Rightarrow> nat \<Rightarrow> 'a list \<Rightarrow> 'a vy_mem \<Rightarrow> bool" where
  "vy_quiet k D xs m \<longleftrightarrow>
     0 < k \<and> k < 63 \<and> vy_mask m = 2 ^ k - 1 \<and> length (vy_seq m) = 2 ^ k \<and> length (vy_val m) = 2 ^ k \<and> length xs \<le> 2 ^ k \<and>
     vy_deq m = of_nat D \<and> vy_enq m = of_nat (D + length xs) \<and>
     (\<forall>i<2 ^ k. quiet_cell (2 ^ k) D xs (vy_seq m) (vy_val m) i)"

lemma vy_quiet_cell: "vy_quiet k D xs m \<Longrightarrow> vy_cell (of_nat p) m = p mod 2 ^ k"
  by (simp add: vy_quiet_def vy_cell_def slot_of_cursor)

lemma vy_quiet_at:
  assumes "vy_quiet k D xs m" and "i < 2 ^ k"
  shows "vy_seq m ! ((D + i) mod 2 ^ k) = of_nat (if i < length xs then D + i + 1 else D + i)"
    and "i < length xs \<Longrightarrow> vy_val m ! ((D + i) mod 2 ^ k) = xs ! i"
  using assms by (auto simp: vy_quiet_def quiet_cell_def)

lemma mod_within_inj: "i < c \<Longrightarrow> j < c \<Longrightarrow> (D + i) mod c = (D + j) mod c \<Longrightarrow> i = (j::nat)"
  using mod_neq_within [of "D + i" "D + j" c] mod_neq_within [of "D + j" "D + i" c] by (cases i j rule: linorder_cases) auto

lemma vy_quiet_push:
  assumes q: "vy_quiet k D xs m" and l: "length xs < 2 ^ k" and e: "E = D + length xs"
  shows "vy_quiet k D (xs @ [v]) (m\<lparr>vy_enq := of_nat E + 1, vy_val := (vy_val m)[E mod 2 ^ k := v],
           vy_seq := (vy_seq m)[E mod 2 ^ k := of_nat E + 1]\<rparr>)"
proof -
  have n: "i < 2 ^ k \<Longrightarrow> i \<noteq> length xs \<Longrightarrow> (D + i) mod 2 ^ k \<noteq> E mod 2 ^ k" for i
    unfolding e using mod_within_inj [of i "2 ^ k" "length xs" D] l by blast
  have s: "length (vy_seq m) = 2 ^ k" "length (vy_val m) = 2 ^ k" using q by (auto simp: vy_quiet_def)
  have "quiet_cell (2 ^ k) D (xs @ [v]) ((vy_seq m)[E mod 2 ^ k := of_nat E + 1]) ((vy_val m)[E mod 2 ^ k := v]) i" if "i < 2 ^ k" for i
  proof (cases "i = length xs")
    case True
    then show ?thesis by (simp add: quiet_cell_def s flip: e)
  next
    case False
    with n [OF that False] vy_quiet_at [OF q that] show ?thesis by (auto simp: quiet_cell_def nth_append)
  qed
  then show ?thesis using q l e by (simp add: vy_quiet_def)
qed

lemma vy_quiet_pop:
  assumes q: "vy_quiet k D (x # xs) m"
  shows "vy_quiet k (Suc D) xs (m\<lparr>vy_deq := of_nat D + 1, vy_seq := (vy_seq m)[D mod 2 ^ k := of_nat D + vy_mask m + 1]\<rparr>)"
proof -
  have s: "length (vy_seq m) = 2 ^ k" "length xs < 2 ^ k" using q by (auto simp: vy_quiet_def)
  have w: "of_nat D + vy_mask m + 1 = (of_nat (D + 2 ^ k) :: u64)" using q by (simp add: vy_quiet_def)
  have "quiet_cell (2 ^ k) (Suc D) xs ((vy_seq m)[D mod 2 ^ k := of_nat (D + 2 ^ k)]) (vy_val m) i" if "i < 2 ^ k" for i
  proof (cases "Suc i = 2 ^ k")
    case True
    then have p: "Suc D + i = D + 2 ^ k" by simp
    from True s have "\<not> i < length xs" by linarith
    then show ?thesis unfolding quiet_cell_def p by (simp add: s)
  next
    case False
    with that have i: "Suc i < 2 ^ k" by simp
    then have "(D + Suc i) mod 2 ^ k \<noteq> (D + 0) mod 2 ^ k" using mod_within_inj [of "Suc i" "2 ^ k" 0 D] by auto
    with vy_quiet_at [OF q i] show ?thesis by (auto simp: quiet_cell_def s)
  qed
  then show ?thesis using q s(2) unfolding w by (simp add: vy_quiet_def)
qed

context vy_distance
begin

lemma vy_diff_of_nat: "a < 2 ^ 63 \<Longrightarrow> b < 2 ^ 63 \<Longrightarrow> diff (of_nat a) (of_nat b) = int a - int b"
  using diff_unat [of "of_nat a" "of_nat b"] unat_of_nat64 [of a] unat_of_nat64 [of b] by simp

lemma vy_push_alone:
  assumes q: "vy_quiet k D xs m" and b: "D + 2 ^ k + 1 < 2 ^ 63"
  shows "\<exists>m'. vy_push_loop diff v (vy_enq m) m = Some (length xs < 2 ^ k, m') \<and>
           vy_quiet k D (if length xs < 2 ^ k then xs @ [v] else xs) m'"
proof -
  let ?E = "D + length xs"
  have e: "vy_enq m = of_nat ?E" and l: "length xs \<le> 2 ^ k" and c: "2 \<le> (2::nat) ^ k"
    using q two_le_pow [of k] by (auto simp: vy_quiet_def)
  note cell = vy_quiet_cell [OF q, of ?E]
  show ?thesis
  proof (cases "length xs < 2 ^ k")
    case True
    have "diff (vy_seq m ! (?E mod 2 ^ k)) (of_nat ?E) = 0"
      using vy_quiet_at(1) [OF q True] vy_diff_of_nat [of ?E ?E] True b by simp
    then have "vy_push_loop diff v (vy_enq m) m = Some (True, m\<lparr>vy_enq := of_nat ?E + 1, vy_val := (vy_val m)[?E mod 2 ^ k := v],
           vy_seq := (vy_seq m)[?E mod 2 ^ k := of_nat ?E + 1]\<rparr>)"
      unfolding e by (subst vy_push_loop.simps) (simp add: cell e Let_def del: of_nat_add)
    with vy_quiet_push [OF q True refl] True show ?thesis by auto
  next
    case False
    then have f: "length xs = 2 ^ k" using l by simp
    have "vy_seq m ! (?E mod 2 ^ k) = of_nat (D + 1)" using vy_quiet_at(1) [OF q, of 0] f c by simp
    then have "diff (vy_seq m ! (?E mod 2 ^ k)) (of_nat ?E) < 0"
      using vy_diff_of_nat [of "D + 1" ?E] f b c by (simp del: of_nat_add)
    then have "vy_push_loop diff v (vy_enq m) m = Some (False, m)"
      unfolding e by (subst vy_push_loop.simps) (simp add: cell Let_def del: of_nat_add)
    with False q show ?thesis by auto
  qed
qed

lemma vy_pop_alone:
  assumes q: "vy_quiet k D xs m" and b: "D + 2 ^ k + 1 < 2 ^ 63"
  shows "\<exists>m'. vy_pop_loop diff (vy_deq m) m = Some (if xs = [] then None else Some (hd xs), m') \<and>
           vy_quiet k (if xs = [] then D else Suc D) (tl xs) m'"
proof -
  have e: "vy_deq m = of_nat D" and c: "2 \<le> (2::nat) ^ k" using q two_le_pow [of k] by (auto simp: vy_quiet_def)
  note cell = vy_quiet_cell [OF q, of D]
  have e1: "of_nat D + 1 = (of_nat (D + 1) :: u64)" by simp
  show ?thesis
  proof (cases xs)
    case Nil
    then have "vy_seq m ! (D mod 2 ^ k) = of_nat D" using vy_quiet_at(1) [OF q, of 0] c by simp
    then have "diff (vy_seq m ! (D mod 2 ^ k)) (of_nat D + 1) < 0"
      using vy_diff_of_nat [of D "D + 1"] b by (simp add: e1)
    then have "vy_pop_loop diff (vy_deq m) m = Some (None, m)"
      unfolding e by (subst vy_pop_loop.simps) (simp add: cell Let_def)
    with Nil q show ?thesis by auto
  next
    case (Cons x ys)
    then have s: "vy_seq m ! (D mod 2 ^ k) = of_nat (D + 1)" "vy_val m ! (D mod 2 ^ k) = x"
      using vy_quiet_at [OF q, of 0] c by simp_all
    then have "diff (vy_seq m ! (D mod 2 ^ k)) (of_nat D + 1) = 0"
      using vy_diff_of_nat [of "D + 1" "D + 1"] b by (simp add: e1)
    then have "vy_pop_loop diff (vy_deq m) m = Some (Some x, m\<lparr>vy_deq := of_nat D + 1,
        vy_seq := (vy_seq m)[D mod 2 ^ k := of_nat D + vy_mask m + 1]\<rparr>)"
      unfolding e by (subst vy_pop_loop.simps) (simp add: cell e s(2) Let_def)
    with Cons vy_quiet_pop [of k D x ys m] q show ?thesis by auto
  qed
qed

end

lemma vy_quiet_new: "0 < k \<Longrightarrow> k < 63 \<Longrightarrow> length cells = 2 ^ k \<Longrightarrow> vy_quiet k 0 [] (vy_new (2 ^ k) cells)"
  by (simp add: vy_quiet_def quiet_cell_def vy_new_def unat_pow2)

section \<open>Theorems\<close>

lemma vy_start_inv:
  assumes "0 < k" and "k < 63" and "length cells = 2 ^ k"
  shows "vy_inv k (vy_start (2 ^ k) cells)"
proof -
  have "unat (of_nat j :: u64) = j" if "j < 2 ^ k" for j
    using that pow_less_64 [of k] assms(2) by (intro unat_of_nat64) simp
  with assms show ?thesis
    by (simp add: vy_inv_def vy_start_def vy_new_def vy_shape_def unat_pow2 deliveries_def exclusive_def cell_ok_def)
qed

text \<open>
  C12: in every interleaving of any number of producers calling \<^verbatim>\<open>try_push\<close> and of consumers calling \<^verbatim>\<open>try_pop\<close>
  on a \<^verbatim>\<open>ShmRingMpmc\<close>, whatever compare-exchanges fail spuriously: the positions claimed by consumers never
  pass those claimed by producers nor lag by more than the capacity; every value returned is the one
  the producer of that position pushed; no position is returned twice; and every position claimed by a
  consumer has been returned or is in the hands of one that is about to return it.
\<close>

theorem mpmc_exactly_once:
  assumes "0 < k" and "k < 63" and "length cells = 2 ^ k"
    and "s = fold (vy_exec mpmc_diff) as (vy_start (2 ^ k) cells)" and "vy_bounded k (vs_log s)"
  shows "unat (vy_enq (vs_mem s)) = length (vs_log s) \<and> unat (vy_deq (vs_mem s)) \<le> length (vs_log s) \<and>
         length (vs_log s) \<le> unat (vy_deq (vs_mem s)) + 2 ^ k \<and>
         (\<forall>(p, v)\<in>set (vs_got s). p < length (vs_log s) \<and> v = vs_log s ! p) \<and> distinct (map fst (vs_got s)) \<and>
         (\<forall>p<unat (vy_deq (vs_mem s)). p \<in> fst ` set (vs_got s) \<or> (\<exists>i. pop_holds (vs_pop s i) = Some p))"
proof -
  have "vy_inv k s" using mpmc.vy_run_inv [OF vy_start_inv [OF assms(1-3)], of as] assms(4,5) by simp
  then show ?thesis by (auto simp: vy_inv_def deliveries_def vy_shape_def)
qed

definition mpmc_demo_run :: "nat vy_action list" where
  "mpmc_demo_run = [CallPush 0 7, CallPush 1 8, PushStep 0 False, PushStep 1 False, PushStep 1 False, PushStep 0 False,
     PushStep 1 False, PushStep 1 False, PushStep 0 False, PushStep 0 False, PushStep 0 False, PushStep 0 False,
     CallPop 0, PopStep 0 False, PopStep 0 True, PopStep 0 False, PopStep 0 False, PopStep 0 False, PopStep 0 False]"

theorem mpmc_exactly_once_witness:
  "vs_got (fold (vy_exec mpmc_diff) mpmc_demo_run (vy_start 2 [0, 0])) = [(0, 8)] \<and>
   vs_log (fold (vy_exec mpmc_diff) mpmc_demo_run (vy_start 2 [0, 0])) ! 0 = 8"
proof -
  let ?s = "fold (vy_exec mpmc_diff) mpmc_demo_run (vy_start 2 [0, 0])"
  have g: "vs_got ?s = [(0, 8)]" and l: "vs_log ?s = [8, 7]" by code_simp+
  have "vy_bounded 1 (vs_log ?s)" by (simp add: l vy_bounded_def)
  from mpmc_exactly_once [of 1 "[0, 0]", OF _ _ _ _ this, of mpmc_demo_run] g show ?thesis by auto
qed


definition lfrb_demo_run :: "nat vy_action list" where
  "lfrb_demo_run = [CallPush 0 7, CallPush 1 8, PushStep 0 False, PushStep 0 False, PushStep 1 False, PushStep 1 False,
     PushStep 1 False, PushStep 1 False]"


text \<open>
  Called one at a time, \<^verbatim>\<open>LockFreeRingBuffer::push\<close> and \<^verbatim>\<open>pop\<close> always return, and act as a bounded queue: a push
  succeeds exactly when fewer than the capacity are stored and appends, a pop returns the oldest or
  reports empty exactly when nothing is stored.
\<close>

theorem lfrb_alone_is_queue:
  assumes "vy_quiet k D xs m" and "D + 2 ^ k + 1 < 2 ^ 63"
  shows "(\<exists>m'. LockFreeRingBuffer_push v m = Some (length xs < 2 ^ k, m') \<and> vy_quiet k D (if length xs < 2 ^ k then xs @ [v] else xs) m') \<and>
         (\<exists>m'. LockFreeRingBuffer_pop m = Some (if xs = [] then None else Some (hd xs), m') \<and>
               vy_quiet k (if xs = [] then D else Suc D) (tl xs) m')"
  using lfrb.vy_push_alone [OF assms] lfrb.vy_pop_alone [OF assms]
  by (simp add: LockFreeRingBuffer_push_def LockFreeRingBuffer_pop_def)

theorem lfrb_alone_is_queue_witness:
  "\<exists>m m' m''. LockFreeRingBuffer_new (0::nat) 3 = Some m \<and> LockFreeRingBuffer_push 9 m = Some (True, m') \<and>
     LockFreeRingBuffer_pop m' = Some (Some 9, m'')"
proof -
  have "round_up_pow2 3 = Some 4" by (simp add: round_up_pow2_def round_up_loop.simps)
  then have n: "LockFreeRingBuffer_new (0::nat) 3 = Some (vy_new (2 ^ 2) (replicate 4 0))" by (simp add: LockFreeRingBuffer_new_def)
  have q: "vy_quiet 2 0 [] (vy_new (2 ^ 2) (replicate 4 (0::nat)))" by (rule vy_quiet_new) simp_all
  from lfrb_alone_is_queue [OF q, of 9] obtain m' where
    m': "LockFreeRingBuffer_push (9::nat) (vy_new (2 ^ 2) (replicate 4 0)) = Some (True, m')" "vy_quiet 2 0 [9] m'" by auto
  from lfrb_alone_is_queue [OF m'(2)] obtain m'' where "LockFreeRingBuffer_pop m' = Some (Some 9, m'')" by auto
  with n m'(1) show ?thesis by blast
qed

text \<open>
  C37: a \<^verbatim>\<open>LockFreeRingBuffer\<close> of capacity 1 (requested capacity 0 or 1) is not a queue: a second push succeeds on the full
  buffer and destroys the first value, and the next pop never returns.
\<close>

theorem lfrb_capacity_one_defect:
  "\<exists>m m1 m2. LockFreeRingBuffer_new (0::nat) 1 = Some m \<and> LockFreeRingBuffer_push 5 m = Some (True, m1) \<and>
     LockFreeRingBuffer_push 6 m1 = Some (True, m2) \<and> vy_val m2 = [6] \<and> LockFreeRingBuffer_pop m2 = None"
proof -
  let ?m2 = "\<lparr>vy_enq = 2, vy_deq = 0, vy_mask = 0, vy_seq = [2], vy_val = [6::nat]\<rparr>"
  have d: "lfrb_diff 0 0 = 0" "lfrb_diff 1 1 = 0" "lfrb_diff 2 1 = 1" by code_simp+
  have "round_up_pow2 1 = Some 1" by (simp add: round_up_pow2_def round_up_loop.simps)
  then have n: "LockFreeRingBuffer_new (0::nat) 1 = Some \<lparr>vy_enq = 0, vy_deq = 0, vy_mask = 0, vy_seq = [0], vy_val = [0]\<rparr>"
    by (simp add: LockFreeRingBuffer_new_def vy_new_def)
  have p1: "LockFreeRingBuffer_push 5 \<lparr>vy_enq = 0, vy_deq = 0, vy_mask = 0, vy_seq = [0], vy_val = [0]\<rparr> =
      Some (True, \<lparr>vy_enq = 1, vy_deq = 0, vy_mask = 0, vy_seq = [1], vy_val = [5::nat]\<rparr>)"
    by (simp add: LockFreeRingBuffer_push_def vy_push_loop.simps vy_cell_def d)
  have p2: "LockFreeRingBuffer_push 6 \<lparr>vy_enq = 1, vy_deq = 0, vy_mask = 0, vy_seq = [1], vy_val = [5]\<rparr> = Some (True, ?m2)"
    by (simp add: LockFreeRingBuffer_push_def vy_push_loop.simps vy_cell_def d)
  have "False" if "vy_pop_loop lfrb_diff 0 ?m2 = Some y" for y
  proof -
    have "diff = lfrb_diff \<longrightarrow> pos = 0 \<longrightarrow> m = ?m2 \<longrightarrow> False" if "vy_pop_loop diff pos m = Some y" for diff pos m y
    proof (rule vy_pop_loop.raw_induct [where P = "\<lambda>diff pos m y. diff = lfrb_diff \<longrightarrow> pos = 0 \<longrightarrow> m = ?m2 \<longrightarrow> False", OF _ that])
      fix f :: "(u64 \<Rightarrow> u64 \<Rightarrow> int) \<Rightarrow> u64 \<Rightarrow> nat vy_mem \<Rightarrow> (nat option \<times> nat vy_mem) option" and diff pos m y
      assume IH: "\<And>diff pos m y. f diff pos m = Some y \<Longrightarrow> diff = lfrb_diff \<longrightarrow> pos = 0 \<longrightarrow> m = ?m2 \<longrightarrow> False"
      assume "(let d = diff (vy_seq m ! vy_cell pos m) (pos + 1)
         in if d = 0 then (if vy_deq m = pos then Some (Some (vy_val m ! vy_cell pos m), m\<lparr>vy_deq := pos + 1,
              vy_seq := (vy_seq m)[vy_cell pos m := pos + vy_mask m + 1]\<rparr>) else f diff (vy_deq m) m)
            else if d < 0 then Some (None, m) else f diff (vy_deq m) m) = Some y"
      then show "diff = lfrb_diff \<longrightarrow> pos = 0 \<longrightarrow> m = ?m2 \<longrightarrow> False"
        using IH [of lfrb_diff 0 ?m2 y] by (auto simp: vy_cell_def d)
    qed
    with that show False by blast
  qed
  then have "vy_pop_loop lfrb_diff 0 ?m2 = None" by (cases "vy_pop_loop lfrb_diff 0 ?m2") auto
  then have "LockFreeRingBuffer_pop ?m2 = None" by (simp add: LockFreeRingBuffer_pop_def)
  with n p1 p2 show ?thesis by (intro exI conjI) simp_all
qed

end
