(* ===== verification/Cep.thy ===== *)
theory Cep
  imports Prelude
begin

text \<open>
  Complex event processing of \<^verbatim>\<open>AnimusCore_v1/animus.hpp\<close>: \<^verbatim>\<open>compare_value\<close>, the threshold rules, and
  class \<^verbatim>\<open>CepRuleState\<close>, which keeps a sliding window of a rule's events and its aggregate. The theory
  proves the incremental window (running sum, monotonic deques) equal to a full rescan of the history.
\<close>

section \<open>Rules\<close>

datatype RuleComparator = GreaterThan | LessThan | Equal

record RuleThreshold =
  rt_rule_id :: u32
  rt_event_id :: u32
  rt_threshold :: u64
  rt_comparator :: RuleComparator
  rt_severity :: u32

fun compare_value :: "u64 \<Rightarrow> u64 \<Rightarrow> RuleComparator \<Rightarrow> bool" where
  "compare_value lhs rhs GreaterThan \<longleftrightarrow> rhs < lhs"
| "compare_value lhs rhs LessThan \<longleftrightarrow> lhs < rhs"
| "compare_value lhs rhs Equal \<longleftrightarrow> lhs = rhs"

section \<open>Windows\<close>

datatype WindowType = Count | Time
datatype AggregationFunction = AggSum | AggAvg | AggMin | AggMax

record CepWindowEntry =
  we_sequence :: u64
  we_timestamp_ms :: u64
  we_value :: u64

record CepRuleState =
  cr_rule_id :: u32
  cr_event_id :: u32
  cr_window_type :: WindowType
  cr_window_size :: u64
  cr_agg :: AggregationFunction
  cr_comparator :: RuleComparator
  cr_threshold :: u64
  cr_severity :: u32
  cr_sequence_counter :: u64
  cr_sum_window :: "CepWindowEntry list"
  cr_running_sum :: u64
  cr_min_monotonic :: "CepWindowEntry list"
  cr_max_monotonic :: "CepWindowEntry list"

definition new_CepRuleState ::
  "u32 \<Rightarrow> u32 \<Rightarrow> WindowType \<Rightarrow> u64 \<Rightarrow> AggregationFunction \<Rightarrow> RuleComparator \<Rightarrow> u64 \<Rightarrow> u32 \<Rightarrow> CepRuleState" where
  "new_CepRuleState rule_id event_id window_type window_size agg comparator threshold severity =
     \<lparr>cr_rule_id = rule_id, cr_event_id = event_id, cr_window_type = window_type,
      cr_window_size = (if window_size = 0 then 1 else window_size), cr_agg = agg, cr_comparator = comparator,
      cr_threshold = threshold, cr_severity = severity, cr_sequence_counter = 0, cr_sum_window = [],
      cr_running_sum = 0, cr_min_monotonic = [], cr_max_monotonic = []\<rparr>"

text \<open>The test of the eviction loops, and the loop of \<^verbatim>\<open>evict_fifo\<close>: the window left and the running sum.\<close>

definition expired :: "WindowType \<Rightarrow> u64 \<Rightarrow> u64 \<Rightarrow> u64 \<Rightarrow> CepWindowEntry \<Rightarrow> bool" where
  "expired window_type window_size sequence_counter now_ms e =
     (case window_type of
        Count \<Rightarrow> we_sequence e + window_size \<le> sequence_counter
      | Time \<Rightarrow> we_timestamp_ms e + window_size \<le> now_ms)"

fun evict_fifo :: "WindowType \<Rightarrow> u64 \<Rightarrow> u64 \<Rightarrow> CepWindowEntry list \<Rightarrow> u64 \<Rightarrow> CepWindowEntry list \<times> u64" where
  "evict_fifo window_type window_size now_ms [] running_sum = ([], running_sum)"
| "evict_fifo window_type window_size now_ms (e # q) running_sum =
     (if (case window_type of
            Count \<Rightarrow> unat window_size < length (e # q)
          | Time \<Rightarrow> we_timestamp_ms e + window_size \<le> now_ms)
      then evict_fifo window_type window_size now_ms q (running_sum - we_value e)
      else (e # q, running_sum))"

fun evict_monotonic :: "WindowType \<Rightarrow> u64 \<Rightarrow> u64 \<Rightarrow> u64 \<Rightarrow> CepWindowEntry list \<Rightarrow> CepWindowEntry list" where
  "evict_monotonic window_type window_size sequence_counter now_ms [] = []"
| "evict_monotonic window_type window_size sequence_counter now_ms (e # q) =
     (if expired window_type window_size sequence_counter now_ms e
      then evict_monotonic window_type window_size sequence_counter now_ms q else e # q)"

text \<open>\<^verbatim>\<open>while (!q.empty() && P(q.back())) q.pop_back()\<close>\<close>

definition pop_back_while :: "('a \<Rightarrow> bool) \<Rightarrow> 'a list \<Rightarrow> 'a list" where
  "pop_back_while P q = rev (dropWhile P (rev q))"

text \<open>
  \<^verbatim>\<open>on_event\<close>: whether the rule matched, the aggregate, and the state after. \<^term>\<open>None\<close> is \<^verbatim>\<open>front()\<close> of an
  empty deque.
\<close>

definition on_event :: "u64 \<Rightarrow> u64 \<Rightarrow> CepRuleState \<Rightarrow> ((bool \<times> u64) \<times> CepRuleState) option" where
  "on_event v now_ms s =
     (let s = s\<lparr>cr_sequence_counter := cr_sequence_counter s + 1\<rparr>;
          entry = \<lparr>we_sequence = cr_sequence_counter s, we_timestamp_ms = now_ms, we_value = v\<rparr>;
          evict = evict_monotonic (cr_window_type s) (cr_window_size s) (cr_sequence_counter s) now_ms
      in case cr_agg s of
           AggMax \<Rightarrow>
             (let q = evict (pop_back_while (\<lambda>b. we_value b \<le> we_value entry) (cr_max_monotonic s) @ [entry])
              in case q of [] \<Rightarrow> None
                 | f # _ \<Rightarrow> Some ((compare_value (we_value f) (cr_threshold s) (cr_comparator s), we_value f), s\<lparr>cr_max_monotonic := q\<rparr>))
         | AggMin \<Rightarrow>
             (let q = evict (pop_back_while (\<lambda>b. we_value entry \<le> we_value b) (cr_min_monotonic s) @ [entry])
              in case q of [] \<Rightarrow> None
                 | f # _ \<Rightarrow> Some ((compare_value (we_value f) (cr_threshold s) (cr_comparator s), we_value f), s\<lparr>cr_min_monotonic := q\<rparr>))
         | agg \<Rightarrow>
             (case evict_fifo (cr_window_type s) (cr_window_size s) now_ms (cr_sum_window s @ [entry]) (cr_running_sum s + v) of
                (q, running_sum) \<Rightarrow>
                  let s = s\<lparr>cr_sum_window := q, cr_running_sum := running_sum\<rparr>;
                      count = of_nat (length q)
                  in if agg = AggSum
                     then Some ((compare_value running_sum (cr_threshold s) (cr_comparator s), running_sum), s)
                     else Some ((compare_value running_sum (cr_threshold s * count) (cr_comparator s),
                                 if count \<noteq> 0 then running_sum div count else 0), s)))"

fun on_events :: "(u64 \<times> u64) list \<Rightarrow> CepRuleState \<Rightarrow> ((bool \<times> u64) list \<times> CepRuleState) option" where
  "on_events [] s = Some ([], s)"
| "on_events ((v, now_ms) # es) s =
     Option.bind (on_event v now_ms s) (\<lambda>(r, s). map_option (\<lambda>(rs, s). (r # rs, s)) (on_events es s))"

section \<open>The reference: a rescan of the whole history\<close>

text \<open>
  A history is the list of (value, timestamp) pairs fed so far. Event \<^term>\<open>i\<close> is in the window when it is among
  the last \<^term>\<open>W\<close>, or younger than \<^term>\<open>W\<close> milliseconds.
\<close>

definition in_window :: "WindowType \<Rightarrow> nat \<Rightarrow> (u64 \<times> u64) list \<Rightarrow> nat \<Rightarrow> bool" where
  "in_window wt W hs i = (case wt of Count \<Rightarrow> length hs \<le> i + W | Time \<Rightarrow> unat (snd (last hs)) < unat (snd (hs ! i)) + W)"

definition naive_window :: "WindowType \<Rightarrow> nat \<Rightarrow> (u64 \<times> u64) list \<Rightarrow> u64 list" where
  "naive_window wt W hs = map (\<lambda>i. fst (hs ! i)) (filter (in_window wt W hs) [0..<length hs])"

definition naive_result :: "WindowType \<Rightarrow> nat \<Rightarrow> AggregationFunction \<Rightarrow> RuleComparator \<Rightarrow> u64 \<Rightarrow> (u64 \<times> u64) list \<Rightarrow> bool \<times> u64" where
  "naive_result wt W agg cmp threshold hs =
     (let w = naive_window wt W hs; s = sum_list w; n = of_nat (length w)
      in case agg of
           AggSum \<Rightarrow> (compare_value s threshold cmp, s)
         | AggAvg \<Rightarrow> (compare_value s (threshold * n) cmp, s div n)
         | AggMin \<Rightarrow> (compare_value (Min (set w)) threshold cmp, Min (set w))
         | AggMax \<Rightarrow> (compare_value (Max (set w)) threshold cmp, Max (set w)))"

section \<open>Monotonic deques\<close>

text \<open>The entries that beat every later one: what a monotonic deque holds.\<close>

fun candidates :: "('v \<Rightarrow> 'v \<Rightarrow> bool) \<Rightarrow> ('e \<Rightarrow> 'v) \<Rightarrow> 'e list \<Rightarrow> 'e list" where
  "candidates beats key [] = []"
| "candidates beats key (x # xs) = (if \<forall>y\<in>set xs. beats (key x) (key y) then x # candidates beats key xs else candidates beats key xs)"

lemma set_candidates: "set (candidates beats key xs) \<subseteq> set xs"
  by (induction xs) auto

lemma candidates_append:
  "candidates beats key (xs @ ys) = filter (\<lambda>x. \<forall>y\<in>set ys. beats (key x) (key y)) (candidates beats key xs) @ candidates beats key ys"
  by (induction xs) auto

lemma pop_back_while_filter:
  assumes "sorted_wrt R xs" and "\<And>a b. R a b \<Longrightarrow> \<not> P b \<Longrightarrow> \<not> P a"
  shows "pop_back_while P xs = filter (\<lambda>x. \<not> P x) xs"
  using assms
proof (induction xs rule: rev_induct)
  case Nil
  then show ?case by (simp add: pop_back_while_def)
next
  case (snoc x xs)
  then have s: "sorted_wrt R xs" "\<forall>a\<in>set xs. R a x" by (auto simp: sorted_wrt_append)
  show ?case
  proof (cases "P x")
    case True
    then show ?thesis using snoc.IH [OF s(1)] snoc.prems(2) by (simp add: pop_back_while_def)
  next
    case False
    then have "\<forall>a\<in>set xs. \<not> P a" using s(2) snoc.prems(2) by blast
    with False show ?thesis by (simp add: pop_back_while_def filter_id_conv)
  qed
qed

locale monotonic_deque =
  fixes beats :: "'v \<Rightarrow> 'v \<Rightarrow> bool" and key :: "'e \<Rightarrow> 'v"
  assumes beats_trans: "beats a b \<Longrightarrow> beats b c \<Longrightarrow> beats a c"
    and beats_irrefl: "\<not> beats a a"
    and beats_total: "beats a b \<or> a = b \<or> beats b a"
begin

lemma candidates_sorted: "sorted_wrt (\<lambda>a b. beats (key a) (key b)) (candidates beats key xs)"
  using set_candidates [of beats key] by (induction xs) (auto simp: subset_iff)

lemma deque_push:
  "pop_back_while (\<lambda>b. \<not> beats (key b) (key e)) (candidates beats key xs) @ [e] = candidates beats key (xs @ [e])"
  using beats_trans by (subst pop_back_while_filter [OF candidates_sorted]) (auto simp: candidates_append)

lemma candidates_front:
  assumes "xs \<noteq> []"
  shows "\<exists>f q. candidates beats key xs = f # q \<and> f \<in> set xs \<and> (\<forall>y\<in>set xs. \<not> beats (key y) (key f))"
  using assms
proof (induction xs)
  case (Cons x xs)
  show ?case
  proof (cases "\<forall>y\<in>set xs. beats (key x) (key y)")
    case True
    then have "\<forall>y\<in>set (x # xs). \<not> beats (key y) (key x)" using beats_irrefl beats_trans by (metis set_ConsD)
    with True show ?thesis by auto
  next
    case False
    then obtain y where y: "y \<in> set xs" "\<not> beats (key x) (key y)" by blast
    then have "xs \<noteq> []" by auto
    with Cons.IH obtain f q where f: "candidates beats key xs = f # q" "f \<in> set xs" "\<forall>y\<in>set xs. \<not> beats (key y) (key f)" by blast
    have "\<not> beats (key x) (key f)"
      using y f(3) beats_total [of "key y" "key f"] beats_trans by metis
    with f False show ?thesis by auto
  qed
qed simp

end

interpretation maxq: monotonic_deque "\<lambda>a b :: u64. b < a" we_value
  by unfold_locales auto

interpretation minq: monotonic_deque "\<lambda>a b :: u64. a < b" we_value
  by unfold_locales auto

section \<open>The incremental window is the rescanned window\<close>

definition entry_of :: "(u64 \<times> u64) list \<Rightarrow> nat \<Rightarrow> CepWindowEntry" where
  "entry_of hs i = \<lparr>we_sequence = of_nat (Suc i), we_timestamp_ms = snd (hs ! i), we_value = fst (hs ! i)\<rparr>"

definition window :: "WindowType \<Rightarrow> nat \<Rightarrow> (u64 \<times> u64) list \<Rightarrow> CepWindowEntry list" where
  "window wt W hs = map (entry_of hs) (filter (in_window wt W hs) [0..<length hs])"

text \<open>The clock does not go backwards, and neither counter wraps within a window.\<close>

definition history_ok :: "nat \<Rightarrow> (u64 \<times> u64) list \<Rightarrow> bool" where
  "history_ok W hs \<longleftrightarrow> 0 < W \<and> length hs + W < 2 ^ 64 \<and> sorted (map (\<lambda>h. unat (snd h)) hs) \<and>
     (\<forall>h\<in>set hs. unat (snd h) + W < 2 ^ 64)"

lemma history_ok_prefix: "history_ok W (hs @ es) \<Longrightarrow> history_ok W hs"
  by (auto simp: history_ok_def sorted_append)

lemma history_ok_sorted:
  assumes "history_ok W hs" and "i \<le> j" and "j < length hs"
  shows "unat (snd (hs ! i)) \<le> unat (snd (hs ! j))"
  using sorted_nth_mono [of "map (\<lambda>h. unat (snd h)) hs" i j] assms by (simp add: history_ok_def)

lemma in_window_mono: "history_ok W hs \<Longrightarrow> in_window wt W hs i \<Longrightarrow> i \<le> j \<Longrightarrow> j < length hs \<Longrightarrow> in_window wt W hs j"
  using history_ok_sorted [of W hs i j] by (cases wt) (auto simp: in_window_def)

lemma in_window_last: "history_ok W (hs @ [h]) \<Longrightarrow> in_window wt W (hs @ [h]) (length hs)"
  by (cases wt) (auto simp: in_window_def history_ok_def)

text \<open>The machine's test says what the specification says.\<close>

lemma expired_iff:
  assumes "history_ok W hs" and "unat w = W" and "i < length hs"
  shows "expired wt w (of_nat (length hs)) (snd (last hs)) (entry_of hs i) \<longleftrightarrow> \<not> in_window wt W hs i"
proof (cases wt)
  case Count
  have "unat (of_nat (Suc i) :: u64) = Suc i" using assms by (intro unat_of_nat64) (simp add: history_ok_def)
  moreover have "unat (of_nat (length hs) :: u64) = length hs" using assms by (intro unat_of_nat64) (simp add: history_ok_def)
  moreover have "unat (of_nat (Suc i) + w) = Suc i + W"
    using calculation(1) assms unat_add64 [of "of_nat (Suc i)" w] by (simp add: history_ok_def)
  ultimately show ?thesis
    by (auto simp: Count expired_def in_window_def entry_of_def word_le_nat_alt simp del: of_nat_Suc)
next
  case Time
  have "unat (snd (hs ! i)) + unat w < 2 ^ 64" using assms nth_mem [of i hs] by (auto simp: history_ok_def)
  then have "unat (snd (hs ! i) + w) = unat (snd (hs ! i)) + W" using assms(2) by (simp add: unat_add64)
  then show ?thesis by (auto simp: Time expired_def in_window_def entry_of_def word_le_nat_alt)
qed

lemma entry_of_append: "i < length hs \<Longrightarrow> entry_of (hs @ es) i = entry_of hs i"
  by (simp add: entry_of_def nth_append)

text \<open>A list of indices that grow out of the window from the front.\<close>

lemma dropWhile_window:
  assumes "sorted (is :: nat list)" and "\<And>i j. i \<in> set is \<Longrightarrow> j \<in> set is \<Longrightarrow> i \<le> j \<Longrightarrow> P i \<Longrightarrow> P j"
  shows "dropWhile (\<lambda>i. \<not> P i) is = filter P is"
  using assms
proof (induction "is")
  case (Cons i "is")
  show ?case
  proof (cases "P i")
    case True
    have "P j" if "j \<in> set is" for j
      using Cons.prems(2) [of i j] Cons.prems(1) True that by simp
    with True show ?thesis by simp
  next
    case False
    have "dropWhile (\<lambda>i. \<not> P i) is = filter P is"
      using Cons.prems by (intro Cons.IH) (simp, blast intro: list.set_intros)
    with False show ?thesis by simp
  qed
qed simp

text \<open>The window after one more event: the old window and the event, with the expired dropped from the front.\<close>

lemma window_indices:
  assumes "history_ok W (hs @ [h])"
  shows "filter (in_window wt W (hs @ [h])) [0..<length (hs @ [h])] =
         dropWhile (\<lambda>i. \<not> in_window wt W (hs @ [h]) i) (filter (in_window wt W hs) [0..<length hs] @ [length hs])"
proof -
  let ?P = "in_window wt W (hs @ [h])" and ?Q = "in_window wt W hs"
  have sub: "?Q i" if "?P i" "i < length hs" for i
  proof (cases wt)
    case Count
    then show ?thesis using that by (simp add: in_window_def)
  next
    case Time
    have "unat (snd (last hs)) \<le> unat (snd h)"
      using history_ok_sorted [OF assms, of "length hs - 1" "length hs"] that(2) by (cases hs rule: rev_cases) (simp_all add: nth_append)
    then show ?thesis using that Time by (simp add: in_window_def nth_append)
  qed
  have "dropWhile (\<lambda>i. \<not> ?P i) (filter ?Q [0..<length hs] @ [length hs]) = filter ?P (filter ?Q [0..<length hs] @ [length hs])"
    by (rule dropWhile_window) (auto simp: sorted_append intro: sorted_wrt_filter in_window_mono [OF assms])
  also have "\<dots> = filter ?P [0..<length hs] @ [length hs]"
    using sub in_window_last [OF assms] by (auto intro: filter_cong)
  finally show ?thesis using in_window_last [OF assms] by simp
qed

lemma window_snoc:
  assumes ok: "history_ok W (hs @ [h])" and w: "unat w = W"
  shows "window wt W (hs @ [h]) =
    dropWhile (expired wt w (of_nat (length (hs @ [h]))) (snd h)) (window wt W hs @ [entry_of (hs @ [h]) (length hs)])"
proof -
  let ?is = "filter (in_window wt W hs) [0..<length hs] @ [length hs]"
  have m: "window wt W hs @ [entry_of (hs @ [h]) (length hs)] = map (entry_of (hs @ [h])) ?is"
    by (auto simp: window_def entry_of_append)
  have "dropWhile (expired wt w (of_nat (length (hs @ [h]))) (snd h)) (map (entry_of (hs @ [h])) ?is) =
        map (entry_of (hs @ [h])) (dropWhile (\<lambda>i. \<not> in_window wt W (hs @ [h]) i) ?is)"
    unfolding dropWhile_map o_def
    by (intro arg_cong [where f = "map _"] dropWhile_cong) (use expired_iff [OF ok w] in auto)
  then show ?thesis unfolding m by (simp only: window_def window_indices [OF ok])
qed

lemma evict_monotonic_eq: "evict_monotonic wt w n t q = dropWhile (expired wt w n t) q"
  by (induction q) auto

text \<open>In a count window the number of entries decides as the sequence numbers do.\<close>

lemma length_count_window:
  "length (window Count W hs) = min W (length hs)"
proof -
  have "filter (in_window Count W hs) [0..<length hs] = [length hs - W..<length hs]"
  proof -
    have "[0..<length hs] = [0..<length hs - W] @ [length hs - W..<length hs]"
      using upt_add_eq_append [of 0 "length hs - W" "length hs - (length hs - W)"] by simp
    moreover have "filter (in_window Count W hs) [0..<length hs - W] = []" by (auto simp: filter_empty_conv in_window_def)
    moreover have "filter (in_window Count W hs) [length hs - W..<length hs] = [length hs - W..<length hs]"
      by (auto simp: filter_id_conv in_window_def)
    ultimately show ?thesis by simp
  qed
  then show ?thesis by (simp add: window_def)
qed

lemma evict_fifo_time: "evict_fifo Time w t q r = (dropWhile (expired Time w n t) q, r - sum_list (map we_value (takeWhile (expired Time w n t) q)))"
  by (induction q arbitrary: r) (auto simp: expired_def algebra_simps)

lemma evict_fifo_count: "evict_fifo Count w t q r = (drop (length q - unat w) q, r - sum_list (map we_value (take (length q - unat w) q)))"
  by (induction q arbitrary: r) (auto simp: algebra_simps Suc_diff_le)

lemma sum_take_drop: "(r :: u64) - sum_list (map f (takeWhile P q)) = sum_list (map f (dropWhile P q))" if "r = sum_list (map f q)"
proof -
  have "sum_list (map f q) = sum_list (map f (takeWhile P q)) + sum_list (map f (dropWhile P q))"
    by (simp flip: sum_list_append map_append)
  with that show ?thesis by simp
qed

lemma evict_fifo_window:
  assumes ok: "history_ok W (hs @ [h])" and w: "unat w = W"
    and r: "r = sum_list (map we_value (window wt W hs)) + fst h"
  shows "evict_fifo wt w (snd h) (window wt W hs @ [entry_of (hs @ [h]) (length hs)]) r =
         (window wt W (hs @ [h]), sum_list (map we_value (window wt W (hs @ [h]))))"
proof -
  let ?q = "window wt W hs @ [entry_of (hs @ [h]) (length hs)]" let ?n = "of_nat (length (hs @ [h])) :: u64"
  note snoc = window_snoc [OF ok w, of wt]
  have r': "r = sum_list (map we_value ?q)" by (simp add: r entry_of_def nth_append)
  show ?thesis
  proof (cases wt)
    case Time
    then show ?thesis using evict_fifo_time [of w "snd h" ?q r ?n] sum_take_drop [OF r'] snoc by simp
  next
    case Count
    let ?k = "length ?q - W"
    have d: "dropWhile (expired wt w ?n (snd h)) ?q = drop ?k ?q"
    proof -
      define p where "p = length (takeWhile (expired wt w ?n (snd h)) ?q)"
      have "dropWhile (expired wt w ?n (snd h)) ?q = drop p ?q" by (simp add: p_def dropWhile_eq_drop)
      moreover have "p \<le> length ?q" unfolding p_def by (rule length_takeWhile_le)
      moreover have "length ?q - p = min W (Suc (length hs))"
      proof -
        have "length (window wt W (hs @ [h])) = length ?q - p" unfolding snoc calculation(1) by (rule length_drop)
        then show ?thesis using Count length_count_window [of W "hs @ [h]"] by simp
      qed
      moreover have "length ?q = Suc (min W (length hs))" using Count length_count_window [of W hs] by simp
      moreover have "?k = length ?q - W" by (rule refl)
      ultimately have "p = ?k" by linarith
      with \<open>dropWhile (expired wt w ?n (snd h)) ?q = drop p ?q\<close> show ?thesis by (simp only:)
    qed
    have "sum_list (map we_value ?q) = sum_list (map we_value (take ?k ?q)) + sum_list (map we_value (drop ?k ?q))"
      by (simp only: append_take_drop_id flip: sum_list_append map_append)
    with r' have "r - sum_list (map we_value (take ?k ?q)) = sum_list (map we_value (drop ?k ?q))" by simp
    moreover have "window wt W (hs @ [h]) = drop ?k ?q" unfolding snoc by (rule d)
    ultimately show ?thesis using evict_fifo_count [of w "snd h" ?q r] Count by (simp only: w)
  qed
qed


section \<open>The rule's state\<close>

definition window_ok :: "(u64 \<times> u64) list \<Rightarrow> CepRuleState \<Rightarrow> bool" where
  "window_ok hs s \<longleftrightarrow>
     (let w = window (cr_window_type s) (unat (cr_window_size s)) hs
      in cr_sequence_counter s = of_nat (length hs) \<and>
         (case cr_agg s of
            AggMax \<Rightarrow> cr_max_monotonic s = candidates (\<lambda>a b. b < a) we_value w
          | AggMin \<Rightarrow> cr_min_monotonic s = candidates (\<lambda>a b. a < b) we_value w
          | _ \<Rightarrow> cr_sum_window s = w \<and> cr_running_sum s = sum_list (map we_value w)))"

definition same_rule :: "CepRuleState \<Rightarrow> CepRuleState \<Rightarrow> bool" where
  "same_rule s s' \<longleftrightarrow> cr_window_type s' = cr_window_type s \<and> cr_window_size s' = cr_window_size s \<and> cr_agg s' = cr_agg s \<and>
     cr_comparator s' = cr_comparator s \<and> cr_threshold s' = cr_threshold s \<and> cr_event_id s' = cr_event_id s \<and>
     cr_rule_id s' = cr_rule_id s \<and> cr_severity s' = cr_severity s"

abbreviation cep_reference :: "CepRuleState \<Rightarrow> (u64 \<times> u64) list \<Rightarrow> bool \<times> u64" where
  "cep_reference s \<equiv> naive_result (cr_window_type s) (unat (cr_window_size s)) (cr_agg s) (cr_comparator s) (cr_threshold s)"

lemma map_value_window: "map we_value (window wt W hs) = naive_window wt W hs"
  by (simp add: window_def naive_window_def entry_of_def)

lemma set_value_window: "we_value ` set (window wt W hs) = set (naive_window wt W hs)"
  by (metis map_value_window set_map)

lemma window_nonempty: "history_ok W (hs @ [h]) \<Longrightarrow> window wt W (hs @ [h]) \<noteq> []"
  using in_window_last [of W hs h wt] by (simp add: window_def)

lemma window_ok_new: "window_ok [] (new_CepRuleState rid eid wt ws agg cmp th sev)"
  by (cases agg) (simp_all add: window_ok_def new_CepRuleState_def window_def Let_def)

lemma candidates_evict:
  "dropWhile P (candidates beats key xs) = candidates beats key (dropWhile P xs)"
  if "\<And>x. x \<in> set (dropWhile P xs) \<Longrightarrow> \<not> P x"
proof -
  let ?a = "takeWhile P xs" and ?b = "dropWhile P xs"
  let ?f = "filter (\<lambda>x. \<forall>y\<in>set ?b. beats (key x) (key y)) (candidates beats key ?a)"
  have "candidates beats key xs = ?f @ candidates beats key ?b"
    using candidates_append [of beats key ?a ?b] by simp
  moreover have "\<forall>x\<in>set ?f. P x" using set_candidates [of beats key ?a] set_takeWhileD by fastforce
  moreover have "\<forall>x\<in>set (candidates beats key ?b). \<not> P x" using set_candidates [of beats key ?b] that by blast
  moreover have "dropWhile P (candidates beats key ?b) = candidates beats key ?b"
    using calculation(3) by (cases "candidates beats key ?b") simp_all
  ultimately show ?thesis by (simp only: dropWhile_append2)
qed

lemma window_live:
  assumes ok: "history_ok W (hs @ [h])" and w: "unat w = W"
    and x: "x \<in> set (dropWhile (expired wt w (of_nat (length (hs @ [h]))) (snd h)) (window wt W hs @ [entry_of (hs @ [h]) (length hs)]))"
  shows "\<not> expired wt w (of_nat (length (hs @ [h]))) (snd h) x"
proof -
  have "x \<in> set (window wt W (hs @ [h]))" using x unfolding window_snoc [OF ok w] .
  then obtain i where "x = entry_of (hs @ [h]) i" "i < length (hs @ [h])" "in_window wt W (hs @ [h]) i"
    by (auto simp: window_def simp del: upt_Suc filter.simps length_append)
  then show ?thesis using expired_iff [OF ok w, of i wt] by simp
qed

text \<open>One event through a monotonic deque.\<close>

lemma deque_event:
  assumes ok: "history_ok W (hs @ [h])" and w: "unat w = W"
    and push: "pop_back_while P (candidates beats we_value (window wt W hs)) @ [entry_of (hs @ [h]) (length hs)] =
               candidates beats we_value (window wt W hs @ [entry_of (hs @ [h]) (length hs)])"
  shows "evict_monotonic wt w (of_nat (length (hs @ [h]))) (snd h)
           (pop_back_while P (candidates beats we_value (window wt W hs)) @ [entry_of (hs @ [h]) (length hs)]) =
         candidates beats we_value (window wt W (hs @ [h]))"
  unfolding push evict_monotonic_eq window_snoc [OF ok w] by (rule candidates_evict) (rule window_live [OF ok w])

lemma candidates_max:
  assumes "xs \<noteq> []"
  shows "\<exists>f q. candidates (\<lambda>a b. b < a) we_value xs = f # q \<and> we_value f = Max (we_value ` set xs)"
proof -
  obtain f q where "candidates (\<lambda>a b. b < a) we_value xs = f # q" "f \<in> set xs" "\<forall>y\<in>set xs. \<not> we_value f < we_value y"
    using maxq.candidates_front [OF assms] by blast
  moreover from this have "Max (we_value ` set xs) = we_value f" by (intro Max_eqI) (auto simp: not_less)
  ultimately show ?thesis by auto
qed

lemma candidates_min:
  assumes "xs \<noteq> []"
  shows "\<exists>f q. candidates (\<lambda>a b. a < b) we_value xs = f # q \<and> we_value f = Min (we_value ` set xs)"
proof -
  obtain f q where "candidates (\<lambda>a b. a < b) we_value xs = f # q" "f \<in> set xs" "\<forall>y\<in>set xs. \<not> we_value y < we_value f"
    using minq.candidates_front [OF assms] by blast
  moreover from this have "Min (we_value ` set xs) = we_value f" by (intro Min_eqI) (auto simp: not_less)
  ultimately show ?thesis by auto
qed

lemma on_event_step:
  assumes ok: "history_ok (unat (cr_window_size s)) (hs @ [(v, t)])" and inv: "window_ok hs s"
  shows "\<exists>s'. on_event v t s = Some (cep_reference s (hs @ [(v, t)]), s') \<and> window_ok (hs @ [(v, t)]) s' \<and> same_rule s s'"
proof -
  let ?wt = "cr_window_type s" let ?w = "cr_window_size s" let ?W = "unat ?w" let ?hs = "hs @ [(v, t)]"
  let ?e = "entry_of ?hs (length hs)" let ?n = "of_nat (length ?hs) :: u64" let ?win = "window ?wt ?W ?hs"
  have n: "cr_sequence_counter s + 1 = ?n" using inv by (simp add: window_ok_def Let_def)
  have e: "\<lparr>we_sequence = ?n, we_timestamp_ms = t, we_value = v\<rparr> = ?e" by (simp add: entry_of_def)
  have v: "we_value ?e = v" by (simp add: entry_of_def)
  have ne: "?win \<noteq> []" by (rule window_nonempty [OF ok])
  note max = deque_event [OF ok refl maxq.deque_push, simplified not_less v]
  note min = deque_event [OF ok refl minq.deque_push, simplified not_less v]
  show ?thesis
  proof (cases "cr_agg s")
    case AggMax
    obtain f q where f: "candidates (\<lambda>a b. b < a) we_value ?win = f # q" "we_value f = Max (set (naive_window ?wt ?W ?hs))"
      using candidates_max [OF ne] set_value_window by metis
    have m: "cr_max_monotonic s = candidates (\<lambda>a b. b < a) we_value (window ?wt ?W hs)"
      using inv AggMax by (simp add: window_ok_def Let_def)
    have "on_event v t s = Some (cep_reference s ?hs, s\<lparr>cr_sequence_counter := ?n, cr_max_monotonic := f # q\<rparr>)"
      using max [of ?wt] f unfolding m [symmetric] by (simp add: on_event_def n e AggMax Let_def naive_result_def v del: length_append)
    then show ?thesis using AggMax f(1) by (auto simp: window_ok_def same_rule_def Let_def)
  next
    case AggMin
    obtain f q where f: "candidates (\<lambda>a b. a < b) we_value ?win = f # q" "we_value f = Min (set (naive_window ?wt ?W ?hs))"
      using candidates_min [OF ne] set_value_window by metis
    have m: "cr_min_monotonic s = candidates (\<lambda>a b. a < b) we_value (window ?wt ?W hs)"
      using inv AggMin by (simp add: window_ok_def Let_def)
    have "on_event v t s = Some (cep_reference s ?hs, s\<lparr>cr_sequence_counter := ?n, cr_min_monotonic := f # q\<rparr>)"
      using min [of ?wt] f unfolding m [symmetric] by (simp add: on_event_def n e AggMin Let_def naive_result_def v del: length_append)
    then show ?thesis using AggMin f(1) by (auto simp: window_ok_def same_rule_def Let_def)
  next
    case AggSum
    then have m: "cr_sum_window s = window ?wt ?W hs" "cr_running_sum s = sum_list (map we_value (window ?wt ?W hs))"
      using inv by (simp_all add: window_ok_def Let_def)
    have "on_event v t s = Some (cep_reference s ?hs, s\<lparr>cr_sequence_counter := ?n, cr_sum_window := ?win,
        cr_running_sum := sum_list (map we_value ?win)\<rparr>)"
      using evict_fifo_window [OF ok refl, of "cr_running_sum s + v" ?wt] m
      by (simp add: on_event_def n e AggSum Let_def naive_result_def map_value_window del: length_append)
    then show ?thesis using AggSum by (auto simp: window_ok_def same_rule_def Let_def)
  next
    case AggAvg
    then have m: "cr_sum_window s = window ?wt ?W hs" "cr_running_sum s = sum_list (map we_value (window ?wt ?W hs))"
      using inv by (simp_all add: window_ok_def Let_def)
    have l: "length ?win = length (naive_window ?wt ?W ?hs)" using map_value_window by (metis length_map)
    have "length ?win \<le> length ?hs" unfolding window_def using length_filter_le [of "in_window ?wt ?W ?hs" "[0..<length ?hs]"] by simp
    then have "unat (of_nat (length ?win) :: u64) = length ?win" using ok by (intro unat_of_nat64) (simp add: history_ok_def)
    then have nz: "(of_nat (length ?win) :: u64) \<noteq> 0" using ne by (metis length_0_conv unat_0)
    have "on_event v t s = Some (cep_reference s ?hs, s\<lparr>cr_sequence_counter := ?n, cr_sum_window := ?win,
        cr_running_sum := sum_list (map we_value ?win)\<rparr>)"
      using evict_fifo_window [OF ok refl, of "cr_running_sum s + v" ?wt] m nz
      by (simp add: on_event_def n e AggAvg Let_def naive_result_def map_value_window l del: length_append)
    then show ?thesis using AggAvg by (auto simp: window_ok_def same_rule_def Let_def)
  qed
qed

lemma on_events_reference:
  assumes "history_ok (unat (cr_window_size s)) (hs @ es)" and "window_ok hs s"
  shows "\<exists>s'. on_events es s = Some (map (\<lambda>i. cep_reference s (hs @ take (Suc i) es)) [0..<length es], s') \<and>
           window_ok (hs @ es) s' \<and> same_rule s s'"
  using assms
proof (induction es arbitrary: hs s)
  case Nil
  then show ?case by (simp add: same_rule_def)
next
  case (Cons e es)
  obtain v t where e: "e = (v, t)" by fastforce
  have "history_ok (unat (cr_window_size s)) (hs @ [(v, t)])" using history_ok_prefix [of _ "hs @ [(v, t)]" es] Cons.prems(1) e by simp
  from on_event_step [OF this Cons.prems(2)] obtain s1 where
    s1: "on_event v t s = Some (cep_reference s (hs @ [(v, t)]), s1)" "window_ok (hs @ [(v, t)]) s1" "same_rule s s1" by blast
  have same: "cep_reference s1 = cep_reference s" using s1(3) by (simp add: same_rule_def fun_eq_iff)
  have "history_ok (unat (cr_window_size s1)) ((hs @ [(v, t)]) @ es)" using Cons.prems(1) e s1(3) by (simp add: same_rule_def)
  from Cons.IH [OF this s1(2)] obtain s2 where
    s2: "on_events es s1 = Some (map (\<lambda>i. cep_reference s ((hs @ [(v, t)]) @ take (Suc i) es)) [0..<length es], s2)"
      "window_ok ((hs @ [(v, t)]) @ es) s2" "same_rule s1 s2" unfolding same by blast
  have "map (\<lambda>i. cep_reference s (hs @ take (Suc i) (e # es))) [0..<length (e # es)] =
        cep_reference s (hs @ [(v, t)]) # map (\<lambda>i. cep_reference s ((hs @ [(v, t)]) @ take (Suc i) es)) [0..<length es]"
    by (simp add: e upt_conv_Cons map_Suc_upt [symmetric] del: upt_Suc)
  moreover have "same_rule s s2" using s1(3) s2(3) by (simp add: same_rule_def)
  ultimately show ?case using s1(1) s2 e by simp
qed

section \<open>Theorems\<close>

text \<open>
  C17: for every window type, aggregation and comparator, the answers \<^verbatim>\<open>on_event\<close> gives along any sequence of events are
  exactly those of a rescan of the whole history at each event: whether the rule matches and the aggregate
  it reports. In particular the deque is never empty when its front is read. The timestamps do not go
  backwards, and neither the event count nor a timestamp plus the window size reaches \<^verbatim>\<open>2^64\<close>; sums
  wrap modulo \<^verbatim>\<open>2^64\<close> in both.
\<close>

theorem cep_window_equals_rescan:
  assumes "s = new_CepRuleState rule_id event_id window_type window_size agg comparator threshold severity"
    and "W = (if window_size = 0 then 1 else unat window_size)" and "history_ok W es"
  shows "\<exists>s'. on_events es s =
    Some (map (\<lambda>i. naive_result window_type W agg comparator threshold (take (Suc i) es)) [0..<length es], s')"
proof -
  have "unat (cr_window_size s) = W" "cr_window_type s = window_type" "cr_agg s = agg" "cr_comparator s = comparator" "cr_threshold s = threshold"
    using assms(1,2) by (auto simp: new_CepRuleState_def)
  with on_events_reference [of s "[]" es] assms(3) window_ok_new show ?thesis unfolding assms(1) by auto
qed

theorem cep_window_equals_rescan_witness:
  "\<exists>s'. on_events [(5, 10), (9, 10), (2, 12), (3, 20)] (new_CepRuleState 1 2 Count 2 AggMax GreaterThan 8 0) =
     Some ([(False, 5), (True, 9), (True, 9), (False, 3)], s')"
proof -
  let ?es = "[(5, 10), (9, 10), (2, 12), (3, 20)] :: (u64 \<times> u64) list"
  have "history_ok 2 ?es" by (simp add: history_ok_def)
  moreover have "map (\<lambda>i. naive_result Count 2 AggMax GreaterThan 8 (take (Suc i) ?es)) [0..<length ?es] =
      [(False, 5), (True, 9), (True, 9), (False, 3)]" by code_simp
  ultimately show ?thesis using cep_window_equals_rescan [OF refl, of 2 2 ?es 1 2 Count AggMax GreaterThan 8 0] by simp
qed

text \<open>
  without the bound on the window size the theorem fails: with a count window of \<^verbatim>\<open>2^64 - 1\<close> events the sum of a
  sequence number and the window size wraps, the first event is evicted as soon as it is pushed, and
  \<^verbatim>\<open>front()\<close> is called on an empty deque.
\<close>

theorem cep_huge_window_undefined:
  "on_event 5 0 (new_CepRuleState 1 2 Count (2 ^ 64 - 1) AggMax GreaterThan 8 0) = None"
  by code_simp

end
