(* ===== verification/Engine.thy ===== *)
theory Engine
  imports Vyukov Cep
begin

text \<open>
  Model of class \<^verbatim>\<open>EngineImpl\<close> of \<^verbatim>\<open>AnimusCore_v1/animus.hpp\<close>: the telemetry ring, the rule sets, the
  signal ring and the persistence worker. The rings are the \<^verbatim>\<open>LockFreeRingBuffer\<close> of \<^verbatim>\<open>Vyukov\<close>; the log
  file is a parameter. One turn of the worker's loop is one step: the worker takes its snapshot of the
  rule sets once per batch, so a rule added meanwhile takes effect with the next batch. \<^term>\<open>None\<close> is a
  call that does not return or has no defined result.
\<close>

section \<open>Records\<close>

record TelemetryPayload =
  tp_timestamp_cycles :: u64
  tp_event_id :: u32
  tp_trace_id :: u32
  tp_metric_value :: u64

record ThreatSignal =
  ts_timestamp_cycles :: u64
  ts_event_id :: u32
  ts_trace_id :: u32
  ts_metric_value :: u64
  ts_rule_id :: u32
  ts_severity :: u32

record RawEvent =
  re_event_id :: u32
  re_trace_id :: u32
  re_metric_value :: u64

record EngineImpl =
  ei_ring :: "TelemetryPayload vy_mem"
  ei_signal_ring :: "ThreatSignal vy_mem"
  ei_running :: bool
  ei_log_file_path :: string
  ei_rules :: "RuleThreshold list"
  ei_cep_rules :: "CepRuleState list"

definition zero_payload :: TelemetryPayload where
  "zero_payload = \<lparr>tp_timestamp_cycles = 0, tp_event_id = 0, tp_trace_id = 0, tp_metric_value = 0\<rparr>"

definition zero_signal :: ThreatSignal where
  "zero_signal = \<lparr>ts_timestamp_cycles = 0, ts_event_id = 0, ts_trace_id = 0, ts_metric_value = 0, ts_rule_id = 0, ts_severity = 0\<rparr>"

definition Engine_Create :: "u64 \<Rightarrow> EngineImpl option" where
  "Engine_Create capacity =
     Option.bind (LockFreeRingBuffer_new zero_payload capacity) (\<lambda>ring.
       map_option (\<lambda>signal_ring. \<lparr>ei_ring = ring, ei_signal_ring = signal_ring, ei_running = False, ei_log_file_path = [],
         ei_rules = [], ei_cep_rules = []\<rparr>) (LockFreeRingBuffer_new zero_signal capacity))"

section \<open>Recording\<close>

text \<open>The cycle counter read by the call is an argument.\<close>

definition engine_record :: "u64 \<Rightarrow> u32 \<Rightarrow> u32 \<Rightarrow> u64 \<Rightarrow> EngineImpl \<Rightarrow> (bool \<times> EngineImpl) option" where
  "engine_record cycles event_id trace_id v e =
     map_option (\<lambda>(pushed, ring). (pushed, e\<lparr>ei_ring := ring\<rparr>))
       (LockFreeRingBuffer_push \<lparr>tp_timestamp_cycles = cycles, tp_event_id = event_id, tp_trace_id = trace_id, tp_metric_value = v\<rparr> (ei_ring e))"

definition payload_of :: "u64 \<times> RawEvent \<Rightarrow> TelemetryPayload" where
  "payload_of ev = \<lparr>tp_timestamp_cycles = fst ev, tp_event_id = re_event_id (snd ev), tp_trace_id = re_trace_id (snd ev),
     tp_metric_value = re_metric_value (snd ev)\<rparr>"

fun record_batch_loop :: "(u64 \<times> RawEvent) list \<Rightarrow> nat \<Rightarrow> TelemetryPayload vy_mem \<Rightarrow> (nat \<times> TelemetryPayload vy_mem) option" where
  "record_batch_loop [] pushed ring = Some (pushed, ring)"
| "record_batch_loop (ev # evs) pushed ring =
     Option.bind (LockFreeRingBuffer_push (payload_of ev) ring) (\<lambda>(ok, ring).
       if \<not> ok then Some (pushed, ring) else record_batch_loop evs (Suc pushed) ring)"

text \<open>\<^verbatim>\<open>events == nullptr\<close> is \<^term>\<open>None\<close>.\<close>

definition engine_record_batch :: "(u64 \<times> RawEvent) list option \<Rightarrow> EngineImpl \<Rightarrow> (nat \<times> EngineImpl) option" where
  "engine_record_batch events e =
     (case events of
        None \<Rightarrow> Some (0, e)
      | Some evs \<Rightarrow> map_option (\<lambda>(n, ring). (n, e\<lparr>ei_ring := ring\<rparr>)) (record_batch_loop evs 0 (ei_ring e)))"

section \<open>Rules\<close>

definition comparator_of :: "u8 \<Rightarrow> RuleComparator option" where
  "comparator_of c = (if c = 0 then Some GreaterThan else if c = 1 then Some LessThan else if c = 2 then Some Equal else None)"

definition window_type_of :: "u8 \<Rightarrow> WindowType option" where
  "window_type_of c = (if c = 0 then Some Count else if c = 1 then Some Time else None)"

definition aggregation_of :: "u8 \<Rightarrow> AggregationFunction option" where
  "aggregation_of c = (if c = 0 then Some AggSum else if c = 1 then Some AggAvg else if c = 2 then Some AggMin
     else if c = 3 then Some AggMax else None)"

text \<open>\<^verbatim>\<open>alloc\<close> says whether the copy of the rule set could be allocated.\<close>

definition engine_add_rule :: "bool \<Rightarrow> u32 \<Rightarrow> u32 \<Rightarrow> u64 \<Rightarrow> u8 \<Rightarrow> u32 \<Rightarrow> EngineImpl \<Rightarrow> bool \<times> EngineImpl" where
  "engine_add_rule alloc rule_id event_id threshold comparator severity e =
     (case comparator_of comparator of
        None \<Rightarrow> (False, e)
      | Some c \<Rightarrow>
          if \<not> alloc then (False, e)
          else (True, e\<lparr>ei_rules := ei_rules e @ [\<lparr>rt_rule_id = rule_id, rt_event_id = event_id, rt_threshold = threshold,
                 rt_comparator = c, rt_severity = severity\<rparr>]\<rparr>))"

definition engine_add_cep_rule ::
  "bool \<Rightarrow> u32 \<Rightarrow> u32 \<Rightarrow> u8 \<Rightarrow> u64 \<Rightarrow> u8 \<Rightarrow> u8 \<Rightarrow> u64 \<Rightarrow> u32 \<Rightarrow> EngineImpl \<Rightarrow> bool \<times> EngineImpl" where
  "engine_add_cep_rule alloc rule_id event_id window_type window_size aggregation comparator threshold severity e =
     (case (window_type_of window_type, aggregation_of aggregation, comparator_of comparator) of
        (Some wt, Some agg, Some c) \<Rightarrow>
          if \<not> alloc then (False, e)
          else (True, e\<lparr>ei_cep_rules := ei_cep_rules e @ [new_CepRuleState rule_id event_id wt window_size agg c threshold severity]\<rparr>)
      | _ \<Rightarrow> (False, e))"

text \<open>The result of a push to the signal ring is ignored: a signal is dropped when the ring is full.\<close>

definition push_signal :: "ThreatSignal \<Rightarrow> ThreatSignal vy_mem \<Rightarrow> ThreatSignal vy_mem option" where
  "push_signal signal ring = map_option snd (LockFreeRingBuffer_push signal ring)"

definition signal_of :: "TelemetryPayload \<Rightarrow> u64 \<Rightarrow> u32 \<Rightarrow> u32 \<Rightarrow> ThreatSignal" where
  "signal_of p v rule_id severity = \<lparr>ts_timestamp_cycles = tp_timestamp_cycles p, ts_event_id = tp_event_id p,
     ts_trace_id = tp_trace_id p, ts_metric_value = v, ts_rule_id = rule_id, ts_severity = severity\<rparr>"

fun evaluate_rules :: "TelemetryPayload \<Rightarrow> RuleThreshold list \<Rightarrow> ThreatSignal vy_mem \<Rightarrow> ThreatSignal vy_mem option" where
  "evaluate_rules p [] ring = Some ring"
| "evaluate_rules p (rule # rules) ring =
     (if rt_event_id rule \<noteq> tp_event_id p then evaluate_rules p rules ring
      else if compare_value (tp_metric_value p) (rt_threshold rule) (rt_comparator rule)
      then Option.bind (push_signal (signal_of p (tp_metric_value p) (rt_rule_id rule) (rt_severity rule)) ring) (evaluate_rules p rules)
      else evaluate_rules p rules ring)"

fun evaluate_cep_rules ::
  "TelemetryPayload \<Rightarrow> CepRuleState list \<Rightarrow> u64 \<Rightarrow> ThreatSignal vy_mem \<Rightarrow> (CepRuleState list \<times> ThreatSignal vy_mem) option" where
  "evaluate_cep_rules p [] now_ms ring = Some ([], ring)"
| "evaluate_cep_rules p (rule # rules) now_ms ring =
     (if cr_event_id rule \<noteq> tp_event_id p
      then map_option (\<lambda>(rules, ring). (rule # rules, ring)) (evaluate_cep_rules p rules now_ms ring)
      else Option.bind (on_event (tp_metric_value p) now_ms rule) (\<lambda>((matched, v), rule).
        Option.bind (if matched then push_signal (signal_of p v (cr_rule_id rule) (cr_severity rule)) ring else Some ring) (\<lambda>ring.
          map_option (\<lambda>(rules, ring). (rule # rules, ring)) (evaluate_cep_rules p rules now_ms ring))))"

fun evaluate_batch ::
  "RuleThreshold list \<Rightarrow> u64 \<Rightarrow> TelemetryPayload list \<Rightarrow> CepRuleState list \<Rightarrow> ThreatSignal vy_mem \<Rightarrow>
   (CepRuleState list \<times> ThreatSignal vy_mem) option" where
  "evaluate_batch rules now_ms [] cep ring = Some (cep, ring)"
| "evaluate_batch rules now_ms (p # ps) cep ring =
     Option.bind (evaluate_rules p rules ring) (\<lambda>ring.
       Option.bind (evaluate_cep_rules p cep now_ms ring) (\<lambda>(cep, ring). evaluate_batch rules now_ms ps cep ring))"

section \<open>Draining rings\<close>

text \<open>\<^verbatim>\<open>while (count < max_count && ring.pop(out[count])) ++count\<close>\<close>

fun ring_drain :: "nat \<Rightarrow> 'a vy_mem \<Rightarrow> ('a list \<times> 'a vy_mem) option" where
  "ring_drain 0 ring = Some ([], ring)"
| "ring_drain (Suc n) ring =
     Option.bind (LockFreeRingBuffer_pop ring) (\<lambda>(r, ring).
       case r of None \<Rightarrow> Some ([], ring) | Some x \<Rightarrow> map_option (\<lambda>(xs, ring). (x # xs, ring)) (ring_drain n ring))"

definition engine_poll_signals :: "bool \<Rightarrow> nat \<Rightarrow> EngineImpl \<Rightarrow> (ThreatSignal list \<times> EngineImpl) option" where
  "engine_poll_signals null_out max_count e =
     (if null_out then Some ([], e)
      else map_option (\<lambda>(xs, ring). (xs, e\<lparr>ei_signal_ring := ring\<rparr>)) (ring_drain max_count (ei_signal_ring e)))"

section \<open>The persistence worker\<close>

definition BATCH_SIZE :: nat where "BATCH_SIZE = 1024"

record 'f worker =
  wk_file :: 'f
  wk_sink_ready :: bool
  wk_exited :: bool

text \<open>
  One turn of \<^verbatim>\<open>process_persistence_queue\<close>. \<^verbatim>\<open>reopened\<close>: whether a retry to open the sink was due and succeeded;
  \<^verbatim>\<open>sink_write\<close>: the file after writing and flushing a batch, and whether the stream is still good.
\<close>

definition worker_turn ::
  "('f \<Rightarrow> TelemetryPayload list \<Rightarrow> 'f \<times> bool) \<Rightarrow> bool \<Rightarrow> u64 \<Rightarrow> EngineImpl \<times> 'f worker \<Rightarrow> (EngineImpl \<times> 'f worker) option" where
  "worker_turn sink_write reopened now_ms = (\<lambda>(e, k).
     if wk_exited k then Some (e, k)
     else if \<not> wk_sink_ready k
     then (if \<not> ei_running e then Some (e, k\<lparr>wk_exited := True\<rparr>) else Some (e, k\<lparr>wk_sink_ready := reopened\<rparr>))
     else Option.bind (ring_drain BATCH_SIZE (ei_ring e)) (\<lambda>(batch, ring).
       let e = e\<lparr>ei_ring := ring\<rparr>
       in if batch \<noteq> []
          then map_option (\<lambda>(cep, signal_ring).
                 case sink_write (wk_file k) batch of (file, good) \<Rightarrow>
                   (e\<lparr>ei_cep_rules := cep, ei_signal_ring := signal_ring\<rparr>, k\<lparr>wk_file := file, wk_sink_ready := good\<rparr>))
               (evaluate_batch (ei_rules e) now_ms batch (ei_cep_rules e) (ei_signal_ring e))
          else if \<not> ei_running e then Some (e, k\<lparr>wk_exited := True\<rparr>) else Some (e, k)))"

fun worker_turns ::
  "('f \<Rightarrow> TelemetryPayload list \<Rightarrow> 'f \<times> bool) \<Rightarrow> u64 list \<Rightarrow> EngineImpl \<times> 'f worker \<Rightarrow> (EngineImpl \<times> 'f worker) option" where
  "worker_turns sink_write [] s = Some s"
| "worker_turns sink_write (now_ms # nows) s = Option.bind (worker_turn sink_write False now_ms s) (worker_turns sink_write nows)"

text \<open>\<^verbatim>\<open>start_persistence\<close> launches the worker, whose first act is to open the sink; \<^verbatim>\<open>stop_persistence\<close> asks it to
  finish and then waits for it.\<close>

definition start_persistence :: "bool \<Rightarrow> string \<Rightarrow> EngineImpl \<times> 'f worker \<Rightarrow> EngineImpl \<times> 'f worker" where
  "start_persistence opened path = (\<lambda>(e, k).
     if ei_running e then (e, k)
     else (e\<lparr>ei_log_file_path := path, ei_running := True\<rparr>, k\<lparr>wk_sink_ready := opened, wk_exited := False\<rparr>))"

definition stop_persistence :: "EngineImpl \<Rightarrow> EngineImpl" where
  "stop_persistence e = (if \<not> ei_running e then e else e\<lparr>ei_running := False\<rparr>)"

section \<open>Rings as queues\<close>

text \<open>A ring at rest that has handed out \<^term>\<open>D\<close> values and holds \<^term>\<open>xs\<close>, with room in the counters for \<^term>\<open>n\<close> more.\<close>

definition ring_holds :: "nat \<Rightarrow> nat \<Rightarrow> 'a list \<Rightarrow> 'a vy_mem \<Rightarrow> bool" where
  "ring_holds k n xs m \<longleftrightarrow> (\<exists>D. vy_quiet k D xs m \<and> D + length xs + n + 2 ^ k + 1 < 2 ^ 63)"

lemma ring_holds_le: "ring_holds k n xs m \<Longrightarrow> n' \<le> n \<Longrightarrow> ring_holds k n' xs m"
  by (fastforce simp: ring_holds_def)

lemma ring_push:
  assumes "ring_holds k (Suc n) xs m"
  shows "\<exists>m'. LockFreeRingBuffer_push v m = Some (length xs < 2 ^ k, m') \<and> ring_holds k n (if length xs < 2 ^ k then xs @ [v] else xs) m'"
proof -
  obtain D where q: "vy_quiet k D xs m" and b: "D + length xs + Suc n + 2 ^ k + 1 < 2 ^ 63" using assms by (auto simp: ring_holds_def)
  have "D + 2 ^ k + 1 < 2 ^ 63" using b by linarith
  from lfrb.vy_push_alone [OF q this, of v] obtain m' where
    m': "LockFreeRingBuffer_push v m = Some (length xs < 2 ^ k, m')" "vy_quiet k D (if length xs < 2 ^ k then xs @ [v] else xs) m'"
    by (auto simp: LockFreeRingBuffer_push_def)
  have "D + length (if length xs < 2 ^ k then xs @ [v] else xs) + n + 2 ^ k + 1 < 2 ^ 63" using b by simp
  with m' show ?thesis unfolding ring_holds_def by blast
qed

lemma ring_pop:
  assumes "ring_holds k n xs m"
  shows "\<exists>m'. LockFreeRingBuffer_pop m = Some (if xs = [] then None else Some (hd xs), m') \<and> ring_holds k n (tl xs) m'"
proof -
  obtain D where q: "vy_quiet k D xs m" and b: "D + length xs + n + 2 ^ k + 1 < 2 ^ 63" using assms by (auto simp: ring_holds_def)
  have "D + 2 ^ k + 1 < 2 ^ 63" using b by linarith
  from lfrb.vy_pop_alone [OF q this] obtain m' where
    m': "LockFreeRingBuffer_pop m = Some (if xs = [] then None else Some (hd xs), m')" "vy_quiet k (if xs = [] then D else Suc D) (tl xs) m'"
    by (auto simp: LockFreeRingBuffer_pop_def)
  have "(if xs = [] then D else Suc D) + length (tl xs) + n + 2 ^ k + 1 < 2 ^ 63" using b by (cases xs) simp_all
  with m' show ?thesis unfolding ring_holds_def by blast
qed

lemma ring_drain_spec:
  "ring_holds k b xs m \<Longrightarrow> \<exists>m'. ring_drain n m = Some (take n xs, m') \<and> ring_holds k b (drop n xs) m'"
proof (induction n arbitrary: xs m)
  case (Suc n)
  from ring_pop [OF Suc.prems] obtain m1 where
    m1: "LockFreeRingBuffer_pop m = Some (if xs = [] then None else Some (hd xs), m1)" "ring_holds k b (tl xs) m1" by blast
  show ?case
  proof (cases xs)
    case Nil
    then show ?thesis using m1 by simp
  next
    case (Cons x ys)
    then have "ring_holds k b ys m1" using m1(2) by simp
    from Suc.IH [OF this] m1(1) Cons show ?thesis by auto
  qed
qed simp

lemma record_batch_spec:
  "ring_holds k (length evs + b) xs m \<Longrightarrow>
   \<exists>m'. record_batch_loop evs pushed m = Some (pushed + min (length evs) (2 ^ k - length xs), m') \<and>
        ring_holds k b (xs @ map payload_of (take (2 ^ k - length xs) evs)) m'"
proof (induction evs arbitrary: xs m pushed)
  case Nil
  then show ?case by simp
next
  case (Cons ev evs)
  have "ring_holds k (Suc (length evs + b)) xs m" using Cons.prems by simp
  from ring_push [OF this, of "payload_of ev"] obtain m1 where
    m1: "LockFreeRingBuffer_push (payload_of ev) m = Some (length xs < 2 ^ k, m1)"
      "ring_holds k (length evs + b) (if length xs < 2 ^ k then xs @ [payload_of ev] else xs) m1" by blast
  show ?case
  proof (cases "length xs < 2 ^ k")
    case True
    then obtain r where r: "2 ^ k - length xs = Suc r" "2 ^ k - length (xs @ [payload_of ev]) = r" by (metis Suc_diff_Suc diff_Suc_Suc length_append_singleton zero_less_diff)
    from Cons.IH [of "xs @ [payload_of ev]" m1 "Suc pushed"] m1 True r show ?thesis by auto
  next
    case False
    then show ?thesis using m1 ring_holds_le [of k "length evs + b" xs m1 b] by simp
  qed
qed

section \<open>Which signals a batch raises\<close>

definition rule_signals :: "RuleThreshold list \<Rightarrow> TelemetryPayload \<Rightarrow> ThreatSignal list" where
  "rule_signals rules p =
     map (\<lambda>rule. signal_of p (tp_metric_value p) (rt_rule_id rule) (rt_severity rule))
       (filter (\<lambda>rule. rt_event_id rule = tp_event_id p \<and> compare_value (tp_metric_value p) (rt_threshold rule) (rt_comparator rule)) rules)"

fun cep_signals :: "TelemetryPayload \<Rightarrow> u64 \<Rightarrow> CepRuleState list \<Rightarrow> (CepRuleState list \<times> ThreatSignal list) option" where
  "cep_signals p now_ms [] = Some ([], [])"
| "cep_signals p now_ms (rule # rules) =
     (if cr_event_id rule \<noteq> tp_event_id p
      then map_option (\<lambda>(rules, sigs). (rule # rules, sigs)) (cep_signals p now_ms rules)
      else Option.bind (on_event (tp_metric_value p) now_ms rule) (\<lambda>((matched, v), rule).
        map_option (\<lambda>(rules, sigs). (rule # rules, (if matched then [signal_of p v (cr_rule_id rule) (cr_severity rule)] else []) @ sigs))
          (cep_signals p now_ms rules)))"

fun batch_signals :: "RuleThreshold list \<Rightarrow> u64 \<Rightarrow> TelemetryPayload list \<Rightarrow> CepRuleState list \<Rightarrow> (CepRuleState list \<times> ThreatSignal list) option" where
  "batch_signals rules now_ms [] cep = Some (cep, [])"
| "batch_signals rules now_ms (p # ps) cep =
     Option.bind (cep_signals p now_ms cep) (\<lambda>(cep, sigs).
       map_option (\<lambda>(cep, sigs'). (cep, rule_signals rules p @ sigs @ sigs')) (batch_signals rules now_ms ps cep))"

text \<open>What a ring of \<^term>\<open>2 ^ k\<close> cells holds after pushing a list of values to it: it keeps the oldest ones.\<close>

definition kept :: "nat \<Rightarrow> 'a list \<Rightarrow> 'a list \<Rightarrow> 'a list" where
  "kept k xs ys = take (2 ^ k) (xs @ ys)"

lemma kept_kept [simp]: "kept k (kept k xs ys) zs = kept k xs (ys @ zs)"
proof -
  have "take n (take n us @ zs) = take n (us @ zs)" for n and us :: "'a list" by (cases "n \<le> length us") simp_all
  from this [of "2 ^ k" "xs @ ys"] show ?thesis unfolding kept_def append_assoc .
qed

lemma kept_Nil: "length xs \<le> 2 ^ k \<Longrightarrow> kept k xs [] = xs"
  by (simp add: kept_def)

lemma length_kept [simp]: "length (kept k xs ys) \<le> 2 ^ k"
  by (simp add: kept_def)

lemma ring_holds_length: "ring_holds k n xs m \<Longrightarrow> length xs \<le> 2 ^ k"
  by (auto simp: ring_holds_def vy_quiet_def)

lemma push_signal_spec:
  assumes "ring_holds k (Suc n) xs m"
  shows "\<exists>m'. push_signal v m = Some m' \<and> ring_holds k n (kept k xs [v]) m'"
proof -
  obtain m' where m': "LockFreeRingBuffer_push v m = Some (length xs < 2 ^ k, m')" "ring_holds k n (if length xs < 2 ^ k then xs @ [v] else xs) m'"
    using ring_push [OF assms] by blast
  have "kept k xs [v] = (if length xs < 2 ^ k then xs @ [v] else xs)" using ring_holds_length [OF assms] by (auto simp: kept_def)
  with m' show ?thesis by (simp add: push_signal_def)
qed

lemma evaluate_rules_spec:
  "ring_holds k (length (rule_signals rules p) + n) xs m \<Longrightarrow>
   \<exists>m'. evaluate_rules p rules m = Some m' \<and> ring_holds k n (kept k xs (rule_signals rules p)) m'"
proof (induction rules arbitrary: xs m)
  case Nil
  then show ?case using ring_holds_length [OF Nil] by (simp add: rule_signals_def kept_Nil)
next
  case (Cons rule rules)
  show ?case
  proof (cases "rt_event_id rule = tp_event_id p \<and> compare_value (tp_metric_value p) (rt_threshold rule) (rt_comparator rule)")
    case True
    let ?s = "signal_of p (tp_metric_value p) (rt_rule_id rule) (rt_severity rule)"
    have e: "rule_signals (rule # rules) p = ?s # rule_signals rules p" using True by (simp add: rule_signals_def)
    obtain m1 where m1: "push_signal ?s m = Some m1" "ring_holds k (length (rule_signals rules p) + n) (kept k xs [?s]) m1"
      using push_signal_spec [of k "length (rule_signals rules p) + n" xs m ?s] Cons.prems e by auto
    from Cons.IH [OF m1(2)] m1(1) True e show ?thesis by simp
  next
    case False
    then have "rule_signals (rule # rules) p = rule_signals rules p" by (auto simp: rule_signals_def)
    with Cons False show ?thesis by auto
  qed
qed

lemma evaluate_cep_rules_spec:
  "cep_signals p now_ms cep = Some (cep', sigs) \<Longrightarrow> ring_holds k (length sigs + n) xs m \<Longrightarrow>
   \<exists>m'. evaluate_cep_rules p cep now_ms m = Some (cep', m') \<and> ring_holds k n (kept k xs sigs) m'"
proof (induction cep arbitrary: cep' sigs xs m)
  case Nil
  then show ?case using ring_holds_length [OF Nil(2)] by (simp add: kept_Nil)
next
  case (Cons rule cep)
  show ?case
  proof (cases "cr_event_id rule = tp_event_id p")
    case False
    then obtain c where c: "cep_signals p now_ms cep = Some (c, sigs)" "cep' = rule # c" using Cons.prems(1) by auto
    from Cons.IH [OF c(1) Cons.prems(2)] False c(2) show ?thesis by auto
  next
    case True
    then obtain matched v rule' c sigs' where on: "on_event (tp_metric_value p) now_ms rule = Some ((matched, v), rule')"
      and c: "cep_signals p now_ms cep = Some (c, sigs')" "cep' = rule' # c"
        "sigs = (if matched then [signal_of p v (cr_rule_id rule') (cr_severity rule')] else []) @ sigs'"
      using Cons.prems(1) by (auto simp: bind_eq_Some_conv)
    show ?thesis
    proof (cases matched)
      case m: True
      let ?s = "signal_of p v (cr_rule_id rule') (cr_severity rule')"
      obtain m1 where m1: "push_signal ?s m = Some m1" "ring_holds k (length sigs' + n) (kept k xs [?s]) m1"
        using push_signal_spec [of k "length sigs' + n" xs m ?s] Cons.prems(2) c(3) m by auto
      from Cons.IH [OF c(1) m1(2)] m1(1) True on c m show ?thesis by auto
    next
      case m: False
      from Cons.IH [OF c(1), of xs m] Cons.prems(2) True on c m show ?thesis by auto
    qed
  qed
qed

lemma evaluate_batch_spec:
  "batch_signals rules now_ms ps cep = Some (cep', sigs) \<Longrightarrow> ring_holds k (length sigs + n) xs m \<Longrightarrow>
   \<exists>m'. evaluate_batch rules now_ms ps cep m = Some (cep', m') \<and> ring_holds k n (kept k xs sigs) m'"
proof (induction ps arbitrary: cep sigs xs m)
  case Nil
  then show ?case using ring_holds_length [OF Nil(2)] by (simp add: kept_Nil)
next
  case (Cons p ps)
  then obtain c s1 s2 where c: "cep_signals p now_ms cep = Some (c, s1)" "batch_signals rules now_ms ps c = Some (cep', s2)"
      "sigs = rule_signals rules p @ s1 @ s2"
    by (auto simp: bind_eq_Some_conv)
  have b: "ring_holds k (length (rule_signals rules p) + (length s1 + (length s2 + n))) xs m" using Cons.prems(2) c(3) by (simp add: add.assoc)
  obtain m1 where m1: "evaluate_rules p rules m = Some m1" "ring_holds k (length s1 + (length s2 + n)) (kept k xs (rule_signals rules p)) m1"
    using evaluate_rules_spec [OF b] by blast
  obtain m2 where m2: "evaluate_cep_rules p cep now_ms m1 = Some (c, m2)" "ring_holds k (length s2 + n) (kept k xs (rule_signals rules p @ s1)) m2"
    using evaluate_cep_rules_spec [OF c(1) m1(2)] by auto
  from Cons.IH [OF c(2) m2(2)] m1(1) m2(1) c(3) show ?case by auto
qed

section \<open>Turns of the worker\<close>

text \<open>CEP rules whose window arithmetic stays within 64 bits for \<^term>\<open>n\<close> more events at the times \<^term>\<open>nows\<close>.\<close>

definition cep_safe :: "nat \<Rightarrow> u64 list \<Rightarrow> CepRuleState \<Rightarrow> bool" where
  "cep_safe n nows r \<longleftrightarrow> 0 < cr_window_size r \<and> unat (cr_sequence_counter r) + n + unat (cr_window_size r) < 2 ^ 64 \<and>
     list_all (\<lambda>t. unat t + unat (cr_window_size r) < 2 ^ 64) nows"

lemma cep_safe_le: "cep_safe n nows r \<Longrightarrow> n' \<le> n \<Longrightarrow> cep_safe n' nows r"
  by (auto simp: cep_safe_def)

lemma evict_keeps_live:
  "\<not> expired wt w sc t e \<Longrightarrow> evict_monotonic wt w sc t (q @ [e]) \<noteq> []"
  by (induction q) simp_all

lemma on_event_total:
  assumes "cep_safe (Suc n) nows r" "now \<in> set nows"
  shows "\<exists>x r'. on_event v now r = Some (x, r') \<and> cep_safe n nows r'"
proof -
  let ?w = "cr_window_size r" and ?c = "cr_sequence_counter r + 1"
  have w: "0 < unat ?w" using assms(1) by (auto simp: cep_safe_def unat_gt_0)
  have c: "unat ?c = Suc (unat (cr_sequence_counter r))" using assms(1) by (intro unat_succ64) (simp add: cep_safe_def)
  have cw: "unat (?c + ?w) = unat ?c + unat ?w" using assms(1) c by (intro unat_add64) (simp add: cep_safe_def)
  have "unat now + unat ?w < 2 ^ 64" using assms by (auto simp: cep_safe_def list_all_iff)
  then have tw: "unat (now + ?w) = unat now + unat ?w" by (rule unat_add64)
  have live: "\<not> expired (cr_window_type r) ?w ?c now \<lparr>we_sequence = ?c, we_timestamp_ms = now, we_value = v\<rparr>"
    using w cw tw by (cases "cr_window_type r") (simp_all add: expired_def word_le_nat_alt)
  have s: "cep_safe n nows r'" if "cr_window_size r' = ?w" "cr_sequence_counter r' = ?c" for r'
    using assms(1) that c by (simp add: cep_safe_def)
  show ?thesis using evict_keeps_live [OF live] s
    by (auto simp: on_event_def Let_def split: AggregationFunction.splits list.splits prod.splits)
qed

lemma cep_signals_total:
  "list_all (cep_safe (Suc n) nows) cep \<Longrightarrow> now \<in> set nows \<Longrightarrow>
   \<exists>cep' sigs. cep_signals p now cep = Some (cep', sigs) \<and> list_all (cep_safe n nows) cep' \<and> length sigs \<le> length cep \<and> length cep' = length cep"
proof (induction cep)
  case (Cons r cep)
  then obtain c s where c: "cep_signals p now cep = Some (c, s)" "list_all (cep_safe n nows) c" "length s \<le> length cep" "length c = length cep" by auto
  have r: "cep_safe (Suc n) nows r" using Cons.prems by simp
  obtain ma v r' where "on_event (tp_metric_value p) now r = Some ((ma, v), r')" "cep_safe n nows r'"
    using on_event_total [OF r Cons.prems(2), of "tp_metric_value p"] by auto
  with c cep_safe_le [OF r, of n] show ?case by auto
qed simp

lemma batch_signals_total:
  "list_all (cep_safe (length ps + n) nows) cep \<Longrightarrow> now \<in> set nows \<Longrightarrow>
   \<exists>cep' sigs. batch_signals rules now ps cep = Some (cep', sigs) \<and> list_all (cep_safe n nows) cep' \<and>
     length sigs \<le> length ps * (length rules + length cep) \<and> length cep' = length cep"
proof (induction ps arbitrary: cep)
  case (Cons p ps)
  obtain c s1 where c: "cep_signals p now cep = Some (c, s1)" "list_all (cep_safe (length ps + n) nows) c" "length s1 \<le> length cep" "length c = length cep"
    using cep_signals_total [of "length ps + n" nows cep now p] Cons.prems by auto
  obtain c' s2 where s2: "batch_signals rules now ps c = Some (c', s2)" "list_all (cep_safe n nows) c'"
      "length s2 \<le> length ps * (length rules + length cep)" "length c' = length cep"
    using Cons.IH [OF c(2) Cons.prems(2)] c(4) by auto
  have "length (rule_signals rules p) \<le> length rules" by (simp add: rule_signals_def)
  then show ?case using c s2 by (auto simp: algebra_simps)
qed simp

text \<open>One turn that finds events in the ring.\<close>

lemma worker_turn_batch:
  assumes "\<not> wk_exited k" "wk_sink_ready k" "xs \<noteq> []" and r: "ring_holds kr nr xs (ei_ring e)"
    and b: "batch_signals (ei_rules e) now (take BATCH_SIZE xs) (ei_cep_rules e) = Some (cep', sigs)"
    and s: "ring_holds ks (length sigs + ns) ys (ei_signal_ring e)"
  shows "\<exists>ring sring. worker_turn sink_write reopened now (e, k) =
      Some (e\<lparr>ei_ring := ring, ei_cep_rules := cep', ei_signal_ring := sring\<rparr>,
            k\<lparr>wk_file := fst (sink_write (wk_file k) (take BATCH_SIZE xs)), wk_sink_ready := snd (sink_write (wk_file k) (take BATCH_SIZE xs))\<rparr>) \<and>
      ring_holds kr nr (drop BATCH_SIZE xs) ring \<and> ring_holds ks ns (kept ks ys sigs) sring"
proof -
  obtain ring where ring: "ring_drain BATCH_SIZE (ei_ring e) = Some (take BATCH_SIZE xs, ring)" "ring_holds kr nr (drop BATCH_SIZE xs) ring"
    using ring_drain_spec [OF r] by blast
  obtain sring where sring: "evaluate_batch (ei_rules e) now (take BATCH_SIZE xs) (ei_cep_rules e) (ei_signal_ring e) = Some (cep', sring)"
      "ring_holds ks ns (kept ks ys sigs) sring"
    using evaluate_batch_spec [OF b s] by blast
  have "take BATCH_SIZE xs \<noteq> []" using assms(3) by (simp add: BATCH_SIZE_def)
  with assms(1,2) ring sring show ?thesis by (auto simp: worker_turn_def split: prod.split)
qed

lemma worker_turn_empty:
  assumes "\<not> wk_exited k" "wk_sink_ready k" "ring_holds kr nr [] (ei_ring e)"
  shows "\<exists>ring. worker_turn sink_write reopened now (e, k) = Some (e\<lparr>ei_ring := ring\<rparr>, k\<lparr>wk_exited := \<not> ei_running e\<rparr>) \<and> ring_holds kr nr [] ring"
  using ring_drain_spec [OF assms(3), of BATCH_SIZE] assms(1,2) by (cases "ei_running e") (auto simp: worker_turn_def)

text \<open>A log file that takes every batch.\<close>

definition good_sink :: "('f \<Rightarrow> TelemetryPayload list) \<Rightarrow> ('f \<Rightarrow> TelemetryPayload list \<Rightarrow> 'f \<times> bool) \<Rightarrow> bool" where
  "good_sink contents sink_write \<longleftrightarrow> (\<forall>f b. snd (sink_write f b) \<and> contents (fst (sink_write f b)) = contents f @ b)"

lemma worker_turns_exited: "wk_exited k \<Longrightarrow> worker_turns sink_write nows (e, k) = Some (e, k)"
  by (induction nows) (simp_all add: worker_turn_def)

lemma worker_drains:
  assumes "good_sink contents sink_write"
  shows "m < length nows \<Longrightarrow> length xs \<le> BATCH_SIZE * m \<Longrightarrow> set nows \<subseteq> set all \<Longrightarrow> \<not> ei_running e \<Longrightarrow> \<not> wk_exited k \<Longrightarrow> wk_sink_ready k \<Longrightarrow>
    ring_holds kr nr xs (ei_ring e) \<Longrightarrow> list_all (cep_safe (length xs) all) (ei_cep_rules e) \<Longrightarrow>
    ring_holds ks (length xs * (length (ei_rules e) + length (ei_cep_rules e))) ys (ei_signal_ring e) \<Longrightarrow>
    \<exists>e' k'. worker_turns sink_write nows (e, k) = Some (e', k') \<and> wk_exited k' \<and> contents (wk_file k') = contents (wk_file k) @ xs \<and>
      ring_holds kr nr [] (ei_ring e')"
proof (induction nows arbitrary: m xs e k ys)
  case Nil
  then show ?case by simp
next
  case (Cons now nows)
  show ?case
  proof (cases "xs = []")
    case True
    then obtain ring where "worker_turn sink_write False now (e, k) = Some (e\<lparr>ei_ring := ring\<rparr>, k\<lparr>wk_exited := True\<rparr>)" "ring_holds kr nr [] ring"
      using worker_turn_empty [of k kr nr e sink_write False now] Cons.prems by auto
    then show ?thesis using True by (simp add: worker_turns_exited)
  next
    case False
    let ?b = "take BATCH_SIZE xs" and ?d = "drop BATCH_SIZE xs" and ?R = "length (ei_rules e) + length (ei_cep_rules e)"
    have len: "length ?b + length ?d = length xs" by simp
    have "list_all (cep_safe (length ?b + length ?d) all) (ei_cep_rules e)" using Cons.prems(8) unfolding len .
    moreover have "now \<in> set all" using Cons.prems(3) by simp
    ultimately obtain cep' sigs where b: "batch_signals (ei_rules e) now ?b (ei_cep_rules e) = Some (cep', sigs)"
      "list_all (cep_safe (length ?d) all) cep'" "length sigs \<le> length ?b * ?R" "length cep' = length (ei_cep_rules e)"
      using batch_signals_total [of ?b "length ?d" all "ei_cep_rules e" now "ei_rules e"] by blast
    have "length sigs + length ?d * ?R \<le> length ?b * ?R + length ?d * ?R" using b(3) by simp
    also have "\<dots> = length xs * ?R" unfolding add_mult_distrib [symmetric] len ..
    finally have s: "ring_holds ks (length sigs + length ?d * ?R) ys (ei_signal_ring e)" using ring_holds_le [OF Cons.prems(9)] by blast
    from worker_turn_batch [OF Cons.prems(5,6) False Cons.prems(7) b(1) s, of sink_write False] assms obtain ring sring where
      t: "worker_turn sink_write False now (e, k) = Some (e\<lparr>ei_ring := ring, ei_cep_rules := cep', ei_signal_ring := sring\<rparr>,
            k\<lparr>wk_file := fst (sink_write (wk_file k) ?b), wk_sink_ready := True\<rparr>)"
        "ring_holds kr nr ?d ring" "ring_holds ks (length ?d * ?R) (kept ks ys sigs) sring"
      by (auto simp: good_sink_def)
    have "xs \<noteq> [] \<Longrightarrow> 0 < m" using Cons.prems(2) by (cases m) simp_all
    then obtain m' where m': "m = Suc m'" using False by (cases m) simp_all
    have "\<exists>e' k'. worker_turns sink_write nows (e\<lparr>ei_ring := ring, ei_cep_rules := cep', ei_signal_ring := sring\<rparr>,
            k\<lparr>wk_file := fst (sink_write (wk_file k) ?b), wk_sink_ready := True\<rparr>) = Some (e', k') \<and> wk_exited k' \<and>
          contents (wk_file k') = contents (fst (sink_write (wk_file k) ?b)) @ ?d \<and> ring_holds kr nr [] (ei_ring e')"
      using Cons.IH [of m' ?d "e\<lparr>ei_ring := ring, ei_cep_rules := cep', ei_signal_ring := sring\<rparr>"
          "k\<lparr>wk_file := fst (sink_write (wk_file k) ?b), wk_sink_ready := True\<rparr>" "kept ks ys sigs"] Cons.prems m' t b by simp
    then show ?thesis using t(1) assms by (auto simp: good_sink_def)
  qed
qed

section \<open>Sequences of calls and turns\<close>

datatype engine_op =
    OpRecord u64 u32 u32 u64
  | OpBatch "(u64 \<times> RawEvent) list"
  | OpAddRule bool u32 u32 u64 u8 u32
  | OpAddCep bool u32 u32 u8 u64 u8 u8 u64 u32
  | OpPoll nat
  | OpStart bool string
  | OpStop
  | OpTurn bool u64

text \<open>One call or turn: the state after it, and the payloads it accepted into the ring.\<close>

fun engine_step ::
  "('f \<Rightarrow> TelemetryPayload list \<Rightarrow> 'f \<times> bool) \<Rightarrow> engine_op \<Rightarrow> EngineImpl \<times> 'f worker \<Rightarrow> (TelemetryPayload list \<times> EngineImpl \<times> 'f worker) option" where
  "engine_step sink_write (OpRecord c ev tr v) (e, k) =
     map_option (\<lambda>(ok, e). (if ok then [payload_of (c, \<lparr>re_event_id = ev, re_trace_id = tr, re_metric_value = v\<rparr>)] else [], e, k)) (engine_record c ev tr v e)"
| "engine_step sink_write (OpBatch evs) (e, k) =
     map_option (\<lambda>(n, e). (map payload_of (take n evs), e, k)) (engine_record_batch (Some evs) e)"
| "engine_step sink_write (OpAddRule al rid ev th c sev) (e, k) = Some ([], snd (engine_add_rule al rid ev th c sev e), k)"
| "engine_step sink_write (OpAddCep al rid ev wt ws ag c th sev) (e, k) = Some ([], snd (engine_add_cep_rule al rid ev wt ws ag c th sev e), k)"
| "engine_step sink_write (OpPoll n) (e, k) = map_option (\<lambda>(_, e). ([], e, k)) (engine_poll_signals False n e)"
| "engine_step sink_write (OpStart opened path) s = Some ([], start_persistence opened path s)"
| "engine_step sink_write OpStop (e, k) = Some ([], stop_persistence e, k)"
| "engine_step sink_write (OpTurn reopened now) s = map_option (Pair []) (worker_turn sink_write reopened now s)"

fun engine_run ::
  "('f \<Rightarrow> TelemetryPayload list \<Rightarrow> 'f \<times> bool) \<Rightarrow> engine_op list \<Rightarrow> EngineImpl \<times> 'f worker \<Rightarrow> (TelemetryPayload list \<times> EngineImpl \<times> 'f worker) option" where
  "engine_run sink_write [] s = Some ([], s)"
| "engine_run sink_write (op # ops) s =
     Option.bind (engine_step sink_write op s) (\<lambda>(acc, s). map_option (\<lambda>(acc', s). (acc @ acc', s)) (engine_run sink_write ops s))"

text \<open>The events an operation may push, and whether a CEP rule it registers stays within 64-bit window arithmetic.\<close>

fun op_events :: "engine_op \<Rightarrow> nat" where
  "op_events (OpRecord _ _ _ _) = 1"
| "op_events (OpBatch evs) = length evs"
| "op_events _ = 0"

fun op_cep_safe :: "nat \<Rightarrow> u64 list \<Rightarrow> engine_op \<Rightarrow> bool" where
  "op_cep_safe N nows (OpAddCep al rid ev wt ws ag c th sev) = cep_safe N nows (new_CepRuleState rid ev Count ws AggSum GreaterThan th sev)"
| "op_cep_safe N nows (OpTurn _ now) = (now \<in> set nows)"
| "op_cep_safe N nows _ = True"

text \<open>What every call and turn preserves, with room for \<^term>\<open>nr\<close> more events and \<^term>\<open>t\<close> more calls or turns, of at most
  \<^term>\<open>R\<close> rules in all.\<close>

definition engine_ok :: "nat \<Rightarrow> nat \<Rightarrow> nat \<Rightarrow> nat \<Rightarrow> nat \<Rightarrow> u64 list \<Rightarrow> TelemetryPayload list \<Rightarrow> EngineImpl \<Rightarrow> bool" where
  "engine_ok kr ks nr t R nows xs e \<longleftrightarrow> ring_holds kr nr xs (ei_ring e) \<and> (\<exists>ys. ring_holds ks (t * (BATCH_SIZE * R)) ys (ei_signal_ring e)) \<and>
     length (ei_rules e) + length (ei_cep_rules e) + t \<le> R \<and> list_all (cep_safe (t * BATCH_SIZE) nows) (ei_cep_rules e)"

lemma engine_ok_le:
  assumes "engine_ok kr ks nr (Suc t) R nows xs e" "nr' \<le> nr"
  shows "engine_ok kr ks nr' t R nows xs e"
proof -
  obtain ys where "ring_holds ks (Suc t * (BATCH_SIZE * R)) ys (ei_signal_ring e)" using assms(1) by (auto simp: engine_ok_def)
  then have "ring_holds ks (t * (BATCH_SIZE * R)) ys (ei_signal_ring e)" by (rule ring_holds_le) simp
  moreover have "ring_holds kr nr' xs (ei_ring e)" using assms ring_holds_le by (auto simp: engine_ok_def)
  moreover have "list_all (cep_safe (t * BATCH_SIZE) nows) (ei_cep_rules e)"
    using assms(1) cep_safe_le [of "Suc t * BATCH_SIZE" nows _ "t * BATCH_SIZE"] by (auto simp: engine_ok_def list_all_iff)
  ultimately show ?thesis using assms(1) by (auto simp: engine_ok_def)
qed

lemma engine_ok_turn:
  assumes "engine_ok kr ks nr (Suc t) R nows xs e" "now \<in> set nows" "good_sink contents sink_write"
  shows "\<exists>e' k' xs'. worker_turn sink_write reopened now (e, k) = Some (e', k') \<and> engine_ok kr ks nr t R nows xs' e' \<and>
           contents (wk_file k') @ xs' = contents (wk_file k) @ xs"
proof (cases "wk_exited k \<or> \<not> wk_sink_ready k")
  case True
  have "engine_ok kr ks nr t R nows xs e" using engine_ok_le [OF assms(1) order_refl] .
  then show ?thesis using True by (auto simp: worker_turn_def)
next
  case act: False
  show ?thesis
  proof (cases "xs = []")
    case True
    have ok: "engine_ok kr ks nr t R nows [] e" using engine_ok_le [OF assms(1) order_refl] True by simp
    from worker_turn_empty [of k kr nr e sink_write reopened now] act ok obtain ring where
      "worker_turn sink_write reopened now (e, k) = Some (e\<lparr>ei_ring := ring\<rparr>, k\<lparr>wk_exited := \<not> ei_running e\<rparr>)" "ring_holds kr nr [] ring"
      by (auto simp: engine_ok_def)
    moreover have "engine_ok kr ks nr t R nows [] (e\<lparr>ei_ring := ring\<rparr>)" using ok \<open>ring_holds kr nr [] ring\<close> by (simp add: engine_ok_def)
    ultimately show ?thesis using True by fastforce
  next
    case False
    let ?b = "take BATCH_SIZE xs"
    have B: "length ?b \<le> BATCH_SIZE" by simp
    have "list_all (cep_safe (length ?b + t * BATCH_SIZE) nows) (ei_cep_rules e)"
      using assms(1) cep_safe_le [of "Suc t * BATCH_SIZE" nows _ "length ?b + t * BATCH_SIZE"] B by (auto simp: engine_ok_def list_all_iff)
    from batch_signals_total [OF this assms(2), of "ei_rules e"] obtain cep' sigs where
      b: "batch_signals (ei_rules e) now ?b (ei_cep_rules e) = Some (cep', sigs)" "list_all (cep_safe (t * BATCH_SIZE) nows) cep'"
        "length sigs \<le> length ?b * (length (ei_rules e) + length (ei_cep_rules e))" "length cep' = length (ei_cep_rules e)" by blast
    have "length sigs \<le> BATCH_SIZE * R" using b(3) mult_le_mono [OF B, of "length (ei_rules e) + length (ei_cep_rules e)" R] assms(1)
      by (simp add: engine_ok_def)
    then have le: "length sigs + t * (BATCH_SIZE * R) \<le> Suc t * (BATCH_SIZE * R)" by simp
    obtain ys where "ring_holds ks (Suc t * (BATCH_SIZE * R)) ys (ei_signal_ring e)" using assms(1) by (auto simp: engine_ok_def)
    then have s: "ring_holds ks (length sigs + t * (BATCH_SIZE * R)) ys (ei_signal_ring e)" using le by (rule ring_holds_le)
    have r: "ring_holds kr nr xs (ei_ring e)" using assms(1) by (simp add: engine_ok_def)
    from worker_turn_batch [OF _ _ False r b(1) s, of k sink_write reopened] act assms(3) obtain ring sring where
      "worker_turn sink_write reopened now (e, k) = Some (e\<lparr>ei_ring := ring, ei_cep_rules := cep', ei_signal_ring := sring\<rparr>,
         k\<lparr>wk_file := fst (sink_write (wk_file k) ?b), wk_sink_ready := True\<rparr>)"
      and h: "ring_holds kr nr (drop BATCH_SIZE xs) ring" "ring_holds ks (t * (BATCH_SIZE * R)) (kept ks ys sigs) sring"
      by (auto simp: good_sink_def)
    moreover have "engine_ok kr ks nr t R nows (drop BATCH_SIZE xs) (e\<lparr>ei_ring := ring, ei_cep_rules := cep', ei_signal_ring := sring\<rparr>)"
      using assms(1) h b(2,4) by (auto simp: engine_ok_def)
    ultimately show ?thesis using assms(3) by (fastforce simp: good_sink_def)
  qed
qed

lemma cep_safe_new:
  "cep_safe n nows (new_CepRuleState a b c ws d f g h) \<longleftrightarrow> cep_safe n nows (new_CepRuleState a' b' c' ws d' f' g' h')"
  by (simp add: cep_safe_def new_CepRuleState_def)

lemma engine_ok_ring:
  "engine_ok kr ks nr t R nows xs e \<Longrightarrow> ring_holds kr nr' xs' ring \<Longrightarrow> engine_ok kr ks nr' t R nows xs' (e\<lparr>ei_ring := ring\<rparr>)"
  by (simp add: engine_ok_def)

lemma engine_ok_add_cep:
  assumes "engine_ok kr ks nr (Suc t) R nows xs e" "cep_safe (t * BATCH_SIZE) nows (new_CepRuleState rid ev Count ws AggSum GreaterThan th sev)"
  shows "engine_ok kr ks nr t R nows xs (snd (engine_add_cep_rule al rid ev wt ws ag c th sev e))"
proof -
  have ok: "engine_ok kr ks nr t R nows xs e" using engine_ok_le [OF assms(1) order_refl] .
  have "engine_ok kr ks nr t R nows xs (e\<lparr>ei_cep_rules := ei_cep_rules e @ [new_CepRuleState rid ev wt' ws ag' c' th sev]\<rparr>)" for wt' ag' c'
    using ok assms(1) assms(2) cep_safe_new [of "t * BATCH_SIZE" nows rid ev wt' ws ag' c' th sev rid ev Count AggSum GreaterThan th sev]
    by (auto simp: engine_ok_def)
  with ok show ?thesis by (auto simp: engine_add_cep_rule_def split: option.split)
qed

lemma engine_ok_add_rule:
  assumes "engine_ok kr ks nr (Suc t) R nows xs e"
  shows "engine_ok kr ks nr t R nows xs (snd (engine_add_rule al rid ev th c sev e))"
  using engine_ok_le [OF assms order_refl] assms by (auto simp: engine_add_rule_def engine_ok_def split: option.split)

lemma engine_ok_poll:
  assumes "engine_ok kr ks nr (Suc t) R nows xs e"
  shows "\<exists>sigs e'. engine_poll_signals False n e = Some (sigs, e') \<and> engine_ok kr ks nr t R nows xs e'"
proof -
  have ok: "engine_ok kr ks nr t R nows xs e" using engine_ok_le [OF assms order_refl] .
  then obtain ys where "ring_holds ks (t * (BATCH_SIZE * R)) ys (ei_signal_ring e)" by (auto simp: engine_ok_def)
  from ring_drain_spec [OF this, of n] ok show ?thesis by (fastforce simp: engine_poll_signals_def engine_ok_def)
qed

lemma engine_ok_batch:
  assumes "engine_ok kr ks (length evs + nr) (Suc t) R nows xs e"
  shows "\<exists>n e'. engine_record_batch (Some evs) e = Some (n, e') \<and> engine_ok kr ks nr t R nows (xs @ map payload_of (take n evs)) e'"
proof -
  have ok: "engine_ok kr ks nr t R nows xs e" using engine_ok_le [OF assms] by simp
  have "ring_holds kr (length evs + nr) xs (ei_ring e)" using assms by (simp add: engine_ok_def)
  from record_batch_spec [OF this, of 0] obtain m where m: "record_batch_loop evs 0 (ei_ring e) = Some (min (length evs) (2 ^ kr - length xs), m)"
      "ring_holds kr nr (xs @ map payload_of (take (2 ^ kr - length xs) evs)) m" by auto
  have "take (min (length evs) (2 ^ kr - length xs)) evs = take (2 ^ kr - length xs) evs" by (simp add: min_def)
  with m engine_ok_ring [OF ok m(2)] show ?thesis by (simp add: engine_record_batch_def)
qed

lemma engine_ok_record:
  assumes "engine_ok kr ks (Suc nr) (Suc t) R nows xs e"
  shows "\<exists>ok e'. engine_record c ev tr v e = Some (ok, e') \<and>
    engine_ok kr ks nr t R nows (xs @ (if ok then [payload_of (c, \<lparr>re_event_id = ev, re_trace_id = tr, re_metric_value = v\<rparr>)] else [])) e'"
proof -
  let ?p = "payload_of (c, \<lparr>re_event_id = ev, re_trace_id = tr, re_metric_value = v\<rparr>)"
  have p: "?p = \<lparr>tp_timestamp_cycles = c, tp_event_id = ev, tp_trace_id = tr, tp_metric_value = v\<rparr>" by (simp add: payload_of_def)
  have ok: "engine_ok kr ks nr t R nows xs e" using engine_ok_le [OF assms] by simp
  have "ring_holds kr (Suc nr) xs (ei_ring e)" using assms by (simp add: engine_ok_def)
  from ring_push [OF this, of ?p] obtain m where m: "LockFreeRingBuffer_push ?p (ei_ring e) = Some (length xs < 2 ^ kr, m)"
    "ring_holds kr nr (if length xs < 2 ^ kr then xs @ [?p] else xs) m" by blast
  with engine_ok_ring [OF ok m(2)] show ?thesis unfolding engine_record_def p [symmetric] by (cases "length xs < 2 ^ kr") auto
qed

lemma engine_ok_flags:
  "engine_ok kr ks nr t R nows xs (e\<lparr>ei_running := b\<rparr>) = engine_ok kr ks nr t R nows xs e"
  "engine_ok kr ks nr t R nows xs (e\<lparr>ei_log_file_path := p\<rparr>) = engine_ok kr ks nr t R nows xs e"
  by (simp_all add: engine_ok_def)

lemma engine_step_ok:
  assumes "engine_ok kr ks (op_events op + nr) (Suc t) R nows xs e" "op_cep_safe (t * BATCH_SIZE) nows op" "good_sink contents sink_write"
  shows "\<exists>acc e' k' xs'. engine_step sink_write op (e, k) = Some (acc, e', k') \<and> engine_ok kr ks nr t R nows xs' e' \<and>
           contents (wk_file k') @ xs' = contents (wk_file k) @ xs @ acc"
proof (cases op)
  case (OpRecord c ev tr v)
  then have ok: "engine_ok kr ks (Suc nr) (Suc t) R nows xs e" using assms(1) by simp
  from engine_ok_record [OF ok, of c ev tr v] obtain pushed e' where
    "engine_record c ev tr v e = Some (pushed, e')"
    "engine_ok kr ks nr t R nows (xs @ (if pushed then [payload_of (c, \<lparr>re_event_id = ev, re_trace_id = tr, re_metric_value = v\<rparr>)] else [])) e'"
    by blast
  then show ?thesis unfolding OpRecord by fastforce
next
  case (OpBatch evs)
  then have ok: "engine_ok kr ks (length evs + nr) (Suc t) R nows xs e" using assms(1) by simp
  from engine_ok_batch [OF ok] show ?thesis unfolding OpBatch by auto
next
  case OpAddRule
  then show ?thesis using engine_ok_add_rule assms(1) by fastforce
next
  case OpAddCep
  then show ?thesis using engine_ok_add_cep assms(1,2) by fastforce
next
  case (OpPoll n)
  then show ?thesis using engine_ok_poll [of kr ks nr t R nows xs e n] assms(1) by fastforce
next
  case (OpStart opened path)
  then show ?thesis using engine_ok_le [OF assms(1), of nr] by (auto simp: start_persistence_def engine_ok_flags)
next
  case OpStop
  then show ?thesis using engine_ok_le [OF assms(1), of nr] by (auto simp: stop_persistence_def engine_ok_flags)
next
  case (OpTurn reopened now)
  then show ?thesis using engine_ok_turn [of kr ks nr t R nows xs e now contents sink_write reopened k] assms by fastforce
qed

lemma engine_run_ok:
  assumes "good_sink contents sink_write"
  shows "engine_ok kr ks (sum_list (map op_events ops) + nr) (length ops) R nows xs e \<Longrightarrow>
    list_all (op_cep_safe (length ops * BATCH_SIZE) nows) ops \<Longrightarrow>
    \<exists>acc e' k' xs'. engine_run sink_write ops (e, k) = Some (acc, e', k') \<and> engine_ok kr ks nr 0 R nows xs' e' \<and>
      contents (wk_file k') @ xs' = contents (wk_file k) @ xs @ acc"
proof (induction ops arbitrary: xs e k)
  case (Cons op ops)
  have le: "op_cep_safe (length ops * BATCH_SIZE) nows op'" if "op' \<in> set (op # ops)" for op'
    using Cons.prems(2) that cep_safe_le by (cases op') (fastforce simp: list_all_iff)+
  have "engine_ok kr ks (op_events op + (sum_list (map op_events ops) + nr)) (Suc (length ops)) R nows xs e"
    using Cons.prems(1) by (simp add: add.assoc)
  from engine_step_ok [OF this le assms, of k] obtain acc e1 k1 xs1 where
    s: "engine_step sink_write op (e, k) = Some (acc, e1, k1)" "engine_ok kr ks (sum_list (map op_events ops) + nr) (length ops) R nows xs1 e1"
      "contents (wk_file k1) @ xs1 = contents (wk_file k) @ xs @ acc" by auto
  have "list_all (op_cep_safe (length ops * BATCH_SIZE) nows) ops" using le by (simp add: list_all_iff)
  from Cons.IH [OF s(2) this, of k1] obtain acc' e2 k2 xs2 where
    "engine_run sink_write ops (e1, k1) = Some (acc', e2, k2)" "engine_ok kr ks nr 0 R nows xs2 e2"
      "contents (wk_file k2) @ xs2 = contents (wk_file k1) @ xs1 @ acc'" by auto
  then show ?case using s(1,3) by auto
qed auto

section \<open>Properties\<close>



text \<open>
  C18: one turn of the worker raises exactly the signals of its batch. The signal ring afterwards holds what it held
  followed by the signals the rules and the windows give for the batch, event by event and rule by rule, cut off at
  its capacity; the batch leaves the telemetry ring and goes to the file even when the stream fails.
\<close>

theorem engine_turn_signals:
  assumes "\<not> wk_exited k" "wk_sink_ready k" "xs \<noteq> []" "ring_holds kr nr xs (ei_ring e)"
    and "batch_signals (ei_rules e) now (take BATCH_SIZE xs) (ei_cep_rules e) = Some (cep', sigs)"
    and "ring_holds ks (length sigs + ns) ys (ei_signal_ring e)"
  shows "\<exists>e'. worker_turn sink_write reopened now (e, k) =
      Some (e', k\<lparr>wk_file := fst (sink_write (wk_file k) (take BATCH_SIZE xs)), wk_sink_ready := snd (sink_write (wk_file k) (take BATCH_SIZE xs))\<rparr>) \<and>
      ring_holds kr nr (drop BATCH_SIZE xs) (ei_ring e') \<and> ring_holds ks ns (take (2 ^ ks) (ys @ sigs)) (ei_signal_ring e') \<and>
      ei_cep_rules e' = cep' \<and> ei_rules e' = ei_rules e"
  using worker_turn_batch [OF assms, of sink_write reopened] by (fastforce simp: kept_def)

section \<open>Witnesses\<close>

definition demo_sink :: "TelemetryPayload list \<Rightarrow> TelemetryPayload list \<Rightarrow> TelemetryPayload list \<times> bool" where
  "demo_sink f b = (f @ b, True)"

definition demo_worker :: "TelemetryPayload list worker" where
  "demo_worker = \<lparr>wk_file = [], wk_sink_ready = True, wk_exited = False\<rparr>"

definition demo_engine :: EngineImpl where
  "demo_engine = \<lparr>ei_ring = vy_new (2 ^ 2) (replicate 4 zero_payload), ei_signal_ring = vy_new (2 ^ 2) (replicate 4 zero_signal),
     ei_running = True, ei_log_file_path = [],
     ei_rules = [\<lparr>rt_rule_id = 1, rt_event_id = 7, rt_threshold = 10, rt_comparator = GreaterThan, rt_severity = 2\<rparr>], ei_cep_rules = []\<rparr>"

text \<open>The same engine with one event in its ring.\<close>

definition demo_payload :: TelemetryPayload where
  "demo_payload = \<lparr>tp_timestamp_cycles = 100, tp_event_id = 7, tp_trace_id = 3, tp_metric_value = 20\<rparr>"

definition demo_busy :: EngineImpl where
  "demo_busy = demo_engine\<lparr>ei_ring := \<lparr>vy_enq = 1, vy_deq = 0, vy_mask = 3, vy_seq = [1, 1, 2, 3],
     vy_val = [demo_payload, zero_payload, zero_payload, zero_payload]\<rparr>\<rparr>"

lemma demo_sink_good: "good_sink (\<lambda>f. f) demo_sink"
  by (simp add: good_sink_def demo_sink_def)

lemma ring_holds_new: "length cells = 4 \<Longrightarrow> n < 2 ^ 62 \<Longrightarrow> ring_holds 2 n [] (vy_new (2 ^ 2) cells)"
  unfolding ring_holds_def by (rule exI [of _ 0]) (simp add: vy_quiet_new [of 2 cells, simplified])

lemma demo_busy_ring: "ring_holds 2 5 [demo_payload] (ei_ring demo_busy)"
proof -
  have "quiet_cell 4 0 [demo_payload] [1, 1, 2, 3] [demo_payload, zero_payload, zero_payload, zero_payload] i" if "i < 4" for i
  proof -
    have "i = 0 \<or> i = 1 \<or> i = 2 \<or> i = 3" using that by linarith
    then show ?thesis by (elim disjE) (simp_all add: quiet_cell_def)
  qed
  then have "vy_quiet 2 0 [demo_payload] (ei_ring demo_busy)" by (simp add: vy_quiet_def demo_busy_def)
  then show ?thesis unfolding ring_holds_def by (intro exI [of _ 0]) simp
qed



theorem engine_turn_signals_witness:
  "\<exists>e'. worker_turn demo_sink False 5 (demo_busy, demo_worker) = Some (e', demo_worker\<lparr>wk_file := [demo_payload]\<rparr>) \<and>
     ring_holds 2 5 [] (ei_ring e') \<and> ring_holds 2 0 [signal_of demo_payload 20 1 2] (ei_signal_ring e')"
proof -
  have "batch_signals (ei_rules demo_busy) 5 (take BATCH_SIZE [demo_payload]) (ei_cep_rules demo_busy) = Some ([], [signal_of demo_payload 20 1 2])"
    by (simp add: demo_busy_def demo_engine_def BATCH_SIZE_def rule_signals_def demo_payload_def)
  from engine_turn_signals [OF _ _ _ demo_busy_ring this, of demo_worker 2 0 "[]" demo_sink False] ring_holds_new [of "replicate 4 zero_signal" 1]
  show ?thesis by (fastforce simp: demo_worker_def demo_sink_def BATCH_SIZE_def demo_busy_def demo_engine_def)
qed

end
