(* ===== verification/Trading.thy ===== *)
theory Trading
  imports Engine
begin

text \<open>
  Order routing and market data of \<^verbatim>\<open>AnimusCore_v1/animus.hpp\<close>: the broker gateway interface with its loopback
  implementation, \<^verbatim>\<open>ExecutionClient\<close>, and \<^verbatim>\<open>MarketDataFeed\<close>. A broker gateway is a function from a request to
  whether it was accepted and the report; the clock readings are arguments. The enumerations that cross the C
  boundary unchecked (\<^verbatim>\<open>side\<close>, \<^verbatim>\<open>action\<close>, \<^verbatim>\<open>aggressor_side\<close>) keep their byte.
\<close>

section \<open>Orders\<close>

datatype OrderSide = Buy | Sell
datatype OrderType = Market | Limit
datatype ExecStatus = Accepted | Rejected | Filled | PartiallyFilled

record OrderRequest =
  or_client_order_id :: u64
  or_instrument_id :: u32
  or_side :: OrderSide
  or_type :: OrderType
  or_price_ticks :: u64
  or_quantity :: u64

record ExecutionReport =
  er_client_order_id :: u64
  er_instrument_id :: u32
  er_filled_quantity :: u64
  er_avg_price_ticks :: u64
  er_status :: ExecStatus

definition kExecutionLatencyEventId :: u32 where "kExecutionLatencyEventId = 0xE0000001"

definition loopback_submit_order :: "OrderRequest \<Rightarrow> bool \<times> ExecutionReport" where
  "loopback_submit_order request = (True,
     \<lparr>er_client_order_id = or_client_order_id request, er_instrument_id = or_instrument_id request,
      er_filled_quantity = or_quantity request, er_avg_price_ticks = or_price_ticks request, er_status = Filled\<rparr>)"

text \<open>\<^verbatim>\<open>ExecutionClient::submit\<close>; \<^verbatim>\<open>start\<close> and \<^verbatim>\<open>finish\<close> are the two clock readings in nanoseconds.\<close>

definition execution_submit ::
  "(OrderRequest \<Rightarrow> bool \<times> ExecutionReport) \<Rightarrow> u64 \<Rightarrow> u64 \<Rightarrow> u64 \<Rightarrow> OrderRequest \<Rightarrow> EngineImpl \<Rightarrow> ((bool \<times> ExecutionReport) \<times> EngineImpl) option" where
  "execution_submit submit_order start finish cycles request e =
     (case submit_order request of (accepted, out) \<Rightarrow>
        map_option (\<lambda>(_, e). ((accepted, out), e))
          (engine_record cycles kExecutionLatencyEventId (ucast (or_client_order_id request)) (finish - start) e))"

section \<open>Market data\<close>

record L2Update =
  l2_timestamp_cycles :: u64
  l2_exchange_timestamp_ns :: u64
  l2_sequence_number :: u64
  l2_price_ticks :: u64
  l2_quantity :: u64
  l2_instrument_id :: u32
  l2_level :: u32
  l2_side :: u8
  l2_action :: u8

record TradeTick =
  tt_timestamp_cycles :: u64
  tt_exchange_timestamp_ns :: u64
  tt_sequence_number :: u64
  tt_trade_id :: u64
  tt_price_ticks :: u64
  tt_quantity :: u64
  tt_instrument_id :: u32
  tt_aggressor_side :: u8

record MarketDataFeed =
  mf_l2_ring :: "L2Update vy_mem"
  mf_trade_ring :: "TradeTick vy_mem"

definition zero_l2 :: L2Update where
  "zero_l2 = \<lparr>l2_timestamp_cycles = 0, l2_exchange_timestamp_ns = 0, l2_sequence_number = 0, l2_price_ticks = 0, l2_quantity = 0,
     l2_instrument_id = 0, l2_level = 0, l2_side = 0, l2_action = 0\<rparr>"

definition zero_trade :: TradeTick where
  "zero_trade = \<lparr>tt_timestamp_cycles = 0, tt_exchange_timestamp_ns = 0, tt_sequence_number = 0, tt_trade_id = 0, tt_price_ticks = 0,
     tt_quantity = 0, tt_instrument_id = 0, tt_aggressor_side = 0\<rparr>"

definition feed_create :: "u64 \<Rightarrow> u64 \<Rightarrow> MarketDataFeed option" where
  "feed_create l2_capacity trade_capacity =
     (let l2_capacity = if l2_capacity = 0 then 1 else l2_capacity;
          trade_capacity = if trade_capacity = 0 then 1 else trade_capacity
      in Option.bind (LockFreeRingBuffer_new zero_l2 l2_capacity) (\<lambda>l2.
           map_option (\<lambda>tr. \<lparr>mf_l2_ring = l2, mf_trade_ring = tr\<rparr>) (LockFreeRingBuffer_new zero_trade trade_capacity)))"

definition push_l2_update ::
  "u64 \<Rightarrow> u32 \<Rightarrow> u8 \<Rightarrow> u8 \<Rightarrow> u32 \<Rightarrow> u64 \<Rightarrow> u64 \<Rightarrow> u64 \<Rightarrow> u64 \<Rightarrow> MarketDataFeed \<Rightarrow> (bool \<times> MarketDataFeed) option" where
  "push_l2_update cycles instrument_id side action level price_ticks quantity sequence_number exchange_timestamp_ns f =
     map_option (\<lambda>(ok, ring). (ok, f\<lparr>mf_l2_ring := ring\<rparr>))
       (LockFreeRingBuffer_push
          \<lparr>l2_timestamp_cycles = cycles, l2_exchange_timestamp_ns = exchange_timestamp_ns, l2_sequence_number = sequence_number,
           l2_price_ticks = price_ticks, l2_quantity = quantity, l2_instrument_id = instrument_id, l2_level = level,
           l2_side = side, l2_action = action\<rparr> (mf_l2_ring f))"

definition push_trade ::
  "u64 \<Rightarrow> u32 \<Rightarrow> u64 \<Rightarrow> u8 \<Rightarrow> u64 \<Rightarrow> u64 \<Rightarrow> u64 \<Rightarrow> u64 \<Rightarrow> MarketDataFeed \<Rightarrow> (bool \<times> MarketDataFeed) option" where
  "push_trade cycles instrument_id trade_id aggressor_side price_ticks quantity sequence_number exchange_timestamp_ns f =
     map_option (\<lambda>(ok, ring). (ok, f\<lparr>mf_trade_ring := ring\<rparr>))
       (LockFreeRingBuffer_push
          \<lparr>tt_timestamp_cycles = cycles, tt_exchange_timestamp_ns = exchange_timestamp_ns, tt_sequence_number = sequence_number,
           tt_trade_id = trade_id, tt_price_ticks = price_ticks, tt_quantity = quantity, tt_instrument_id = instrument_id,
           tt_aggressor_side = aggressor_side\<rparr> (mf_trade_ring f))"

definition poll_l2_updates :: "bool \<Rightarrow> nat \<Rightarrow> MarketDataFeed \<Rightarrow> (L2Update list \<times> MarketDataFeed) option" where
  "poll_l2_updates null_out max_count f =
     (if null_out then Some ([], f)
      else map_option (\<lambda>(xs, ring). (xs, f\<lparr>mf_l2_ring := ring\<rparr>)) (ring_drain max_count (mf_l2_ring f)))"

definition poll_trades :: "bool \<Rightarrow> nat \<Rightarrow> MarketDataFeed \<Rightarrow> (TradeTick list \<times> MarketDataFeed) option" where
  "poll_trades null_out max_count f =
     (if null_out then Some ([], f)
      else map_option (\<lambda>(xs, ring). (xs, f\<lparr>mf_trade_ring := ring\<rparr>)) (ring_drain max_count (mf_trade_ring f)))"

section \<open>Behaviour\<close>

text \<open>
  A feed holding the updates \<^term>\<open>us\<close> and the trades \<^term>\<open>ts\<close>.
\<close>

definition feed_holds :: "nat \<Rightarrow> nat \<Rightarrow> nat \<Rightarrow> L2Update list \<Rightarrow> TradeTick list \<Rightarrow> MarketDataFeed \<Rightarrow> bool" where
  "feed_holds k1 k2 n us ts f \<longleftrightarrow> ring_holds k1 n us (mf_l2_ring f) \<and> ring_holds k2 n ts (mf_trade_ring f)"

text \<open>The events that reach a feed, as one sequence.\<close>

datatype feed_op =
    FL2 u64 u32 u8 u8 u32 u64 u64 u64 u64
  | FTrade u64 u32 u64 u8 u64 u64 u64 u64
  | FPollL2 nat
  | FPollTrades nat

text \<open>Runs a sequence; gives the updates and trades accepted, those returned by polls, and the feed.\<close>

record feed_log =
  fl_l2_in :: "L2Update list"
  fl_l2_out :: "L2Update list"
  fl_tr_in :: "TradeTick list"
  fl_tr_out :: "TradeTick list"

fun feed_step :: "feed_op \<Rightarrow> feed_log \<times> MarketDataFeed \<Rightarrow> (feed_log \<times> MarketDataFeed) option" where
  "feed_step (FL2 c i s a l p q n x) (g, f) =
     map_option (\<lambda>(ok, f). (if ok then g\<lparr>fl_l2_in := fl_l2_in g @ [\<lparr>l2_timestamp_cycles = c, l2_exchange_timestamp_ns = x,
        l2_sequence_number = n, l2_price_ticks = p, l2_quantity = q, l2_instrument_id = i, l2_level = l, l2_side = s, l2_action = a\<rparr>]\<rparr> else g, f))
       (push_l2_update c i s a l p q n x f)"
| "feed_step (FTrade c i d s p q n x) (g, f) =
     map_option (\<lambda>(ok, f). (if ok then g\<lparr>fl_tr_in := fl_tr_in g @ [\<lparr>tt_timestamp_cycles = c, tt_exchange_timestamp_ns = x,
        tt_sequence_number = n, tt_trade_id = d, tt_price_ticks = p, tt_quantity = q, tt_instrument_id = i, tt_aggressor_side = s\<rparr>]\<rparr> else g, f))
       (push_trade c i d s p q n x f)"
| "feed_step (FPollL2 m) (g, f) = map_option (\<lambda>(xs, f). (g\<lparr>fl_l2_out := fl_l2_out g @ xs\<rparr>, f)) (poll_l2_updates False m f)"
| "feed_step (FPollTrades m) (g, f) = map_option (\<lambda>(xs, f). (g\<lparr>fl_tr_out := fl_tr_out g @ xs\<rparr>, f)) (poll_trades False m f)"

fun feed_run :: "feed_op list \<Rightarrow> feed_log \<times> MarketDataFeed \<Rightarrow> (feed_log \<times> MarketDataFeed) option" where
  "feed_run [] s = Some s"
| "feed_run (op # ops) s = Option.bind (feed_step op s) (feed_run ops)"

text \<open>The records of both streams are conserved in order.\<close>

definition feed_ok :: "nat \<Rightarrow> nat \<Rightarrow> nat \<Rightarrow> feed_log \<times> MarketDataFeed \<Rightarrow> bool" where
  "feed_ok k1 k2 n s \<longleftrightarrow> (\<exists>us ts. feed_holds k1 k2 n us ts (snd s) \<and>
     fl_l2_in (fst s) = fl_l2_out (fst s) @ us \<and> fl_tr_in (fst s) = fl_tr_out (fst s) @ ts)"

lemma feed_step_ok:
  assumes "feed_ok k1 k2 (Suc n) s"
  shows "\<exists>s'. feed_step op s = Some s' \<and> feed_ok k1 k2 n s'"
proof -
  obtain g f where s: "s = (g, f)" by (cases s)
  obtain us ts where h: "ring_holds k1 (Suc n) us (mf_l2_ring f)" "ring_holds k2 (Suc n) ts (mf_trade_ring f)"
    and l: "fl_l2_in g = fl_l2_out g @ us" "fl_tr_in g = fl_tr_out g @ ts"
    using assms s by (auto simp: feed_ok_def feed_holds_def)
  have h': "ring_holds k1 n us (mf_l2_ring f)" "ring_holds k2 n ts (mf_trade_ring f)" using ring_holds_le [OF h(1), of n] ring_holds_le [OF h(2), of n] by simp_all
  show ?thesis
  proof (cases op)
    case (FL2 c i sd a lv p q nn x)
    let ?u = "\<lparr>l2_timestamp_cycles = c, l2_exchange_timestamp_ns = x, l2_sequence_number = nn, l2_price_ticks = p,
      l2_quantity = q, l2_instrument_id = i, l2_level = lv, l2_side = sd, l2_action = a\<rparr>"
    obtain m where m: "LockFreeRingBuffer_push ?u (mf_l2_ring f) = Some (length us < 2 ^ k1, m)"
      "ring_holds k1 n (if length us < 2 ^ k1 then us @ [?u] else us) m" using ring_push [OF h(1)] by blast
    show ?thesis using m h' l unfolding FL2 s feed_ok_def feed_holds_def
      by (cases "length us < 2 ^ k1") (auto simp: push_l2_update_def)
  next
    case (FTrade c i d sd p q nn x)
    let ?u = "\<lparr>tt_timestamp_cycles = c, tt_exchange_timestamp_ns = x, tt_sequence_number = nn, tt_trade_id = d, tt_price_ticks = p,
      tt_quantity = q, tt_instrument_id = i, tt_aggressor_side = sd\<rparr>"
    obtain m where m: "LockFreeRingBuffer_push ?u (mf_trade_ring f) = Some (length ts < 2 ^ k2, m)"
      "ring_holds k2 n (if length ts < 2 ^ k2 then ts @ [?u] else ts) m" using ring_push [OF h(2)] by blast
    show ?thesis using m h' l unfolding FTrade s feed_ok_def feed_holds_def
      by (cases "length ts < 2 ^ k2") (auto simp: push_trade_def)
  next
    case (FPollL2 mx)
    obtain m where m: "ring_drain mx (mf_l2_ring f) = Some (take mx us, m)" "ring_holds k1 n (drop mx us) m"
      using ring_drain_spec [OF h'(1)] by blast
    show ?thesis using m h' l unfolding FPollL2 s feed_ok_def feed_holds_def
      by (auto simp: poll_l2_updates_def intro!: exI [of _ "drop mx us"])
  next
    case (FPollTrades mx)
    obtain m where m: "ring_drain mx (mf_trade_ring f) = Some (take mx ts, m)" "ring_holds k2 n (drop mx ts) m"
      using ring_drain_spec [OF h'(2)] by blast
    show ?thesis using m h' l unfolding FPollTrades s feed_ok_def feed_holds_def
      by (auto simp: poll_trades_def intro!: exI [of _ "drop mx ts"])
  qed
qed

lemma feed_run_ok:
  "feed_ok k1 k2 (length ops + n) s \<Longrightarrow> \<exists>s'. feed_run ops s = Some s' \<and> feed_ok k1 k2 n s'"
proof (induction ops arbitrary: s)
  case (Cons op ops)
  then obtain s1 where "feed_step op s = Some s1" "feed_ok k1 k2 (length ops + n) s1"
    using feed_step_ok [of k1 k2 "length ops + n" s op] by auto
  then show ?case using Cons.IH by auto
qed auto

section \<open>Properties\<close>

text \<open>
  a market data feed whose rings have at least two cells loses and reorders nothing. After any sequence of
  pushed book updates, pushed trades and polls, which all return, the updates accepted are those returned by polls
  followed by those still in the ring, and likewise the trades; a flood on one stream does not touch the other.
\<close>

theorem feed_conserves_streams:
  assumes "feed_ok k1 k2 (length ops + n) (g, f)"
  shows "\<exists>g' f' us ts. feed_run ops (g, f) = Some (g', f') \<and> feed_holds k1 k2 n us ts f' \<and>
    fl_l2_in g' = fl_l2_out g' @ us \<and> fl_tr_in g' = fl_tr_out g' @ ts"
  using feed_run_ok [OF assms] by (auto simp: feed_ok_def)

definition empty_feed_log :: feed_log where
  "empty_feed_log = \<lparr>fl_l2_in = [], fl_l2_out = [], fl_tr_in = [], fl_tr_out = []\<rparr>"

definition demo_feed :: MarketDataFeed where
  "demo_feed = \<lparr>mf_l2_ring = vy_new (2 ^ 2) (replicate 4 zero_l2), mf_trade_ring = vy_new (2 ^ 2) (replicate 4 zero_trade)\<rparr>"

theorem feed_conserves_streams_witness:
  "\<exists>g' f' us ts. feed_run [FL2 1 2 0 1 3 100 5 7 9, FTrade 2 2 8 1 100 5 8 9, FPollL2 4] (empty_feed_log, demo_feed) = Some (g', f') \<and>
     feed_holds 2 2 0 us ts f' \<and> fl_l2_in g' = fl_l2_out g' @ us \<and> fl_tr_in g' = fl_tr_out g' @ ts"
proof -
  have "feed_ok 2 2 (length [FL2 1 2 0 1 3 100 5 7 9, FTrade 2 2 8 1 100 5 8 9, FPollL2 4] + 0) (empty_feed_log, demo_feed)"
    using ring_holds_new [of "replicate 4 zero_l2" 3] ring_holds_new [of "replicate 4 zero_trade" 3]
    by (simp add: feed_ok_def feed_holds_def demo_feed_def empty_feed_log_def numeral_3_eq_3)
  from feed_conserves_streams [OF this] show ?thesis .
qed

end
