(* ===== verification/Security.thy ===== *)
theory Security
  imports Trading
begin

text \<open>
  Model of \<^verbatim>\<open>AnimusCore_v1/animus_security.hpp\<close>: role based permissions, the bounded audit trail, the tenant
  registry and the two gateways in front of it. The engines live in a store of the registry, because an
  \<^verbatim>\<open>ExecutionClient\<close> keeps a reference to the engine it was made for; using a reference to an engine that was
  destroyed has no defined result (\<^term>\<open>None\<close>). The mutexes make each operation of a component one step.
\<close>

section \<open>Roles and permissions\<close>

datatype Role = Viewer | Operator | Admin
datatype Permission = RecordEvent | PollSignals | AddRule | ManagePersistence | ManageTenants | SubmitOrder

fun is_allowed :: "Role \<Rightarrow> Permission \<Rightarrow> bool" where
  "is_allowed Viewer perm = (perm = PollSignals)"
| "is_allowed Operator perm = (perm = PollSignals \<or> perm = RecordEvent \<or> perm = SubmitOrder)"
| "is_allowed Admin perm = True"

record AccessToken =
  at_tenant_id :: u32
  at_principal_id :: u64
  at_role :: Role

datatype AuditOutcome = Allowed | Denied

record AuditEvent =
  ae_timestamp_cycles :: u64
  ae_tenant_id :: u32
  ae_principal_id :: u64
  ae_permission :: Permission
  ae_outcome :: AuditOutcome

section \<open>The audit trail\<close>

definition AUDIT_LOG_CAPACITY :: u64 where "AUDIT_LOG_CAPACITY = 4096"
definition kAuditMask :: u64 where "kAuditMask = AUDIT_LOG_CAPACITY - 1"

record BoundedAuditLog =
  al_write :: u64
  al_read :: u64
  al_dropped :: u64
  al_entries :: "AuditEvent list"

definition zero_event :: AuditEvent where
  "zero_event = \<lparr>ae_timestamp_cycles = 0, ae_tenant_id = 0, ae_principal_id = 0, ae_permission = RecordEvent, ae_outcome = Allowed\<rparr>"

definition BoundedAuditLog_new :: BoundedAuditLog where
  "BoundedAuditLog_new = \<lparr>al_write = 0, al_read = 0, al_dropped = 0, al_entries = replicate (unat AUDIT_LOG_CAPACITY) zero_event\<rparr>"

definition audit_event :: "u64 \<Rightarrow> AccessToken \<Rightarrow> Permission \<Rightarrow> AuditOutcome \<Rightarrow> AuditEvent" where
  "audit_event cycles token perm outcome = \<lparr>ae_timestamp_cycles = cycles, ae_tenant_id = at_tenant_id token,
     ae_principal_id = at_principal_id token, ae_permission = perm, ae_outcome = outcome\<rparr>"

definition audit_append :: "u64 \<Rightarrow> AccessToken \<Rightarrow> Permission \<Rightarrow> AuditOutcome \<Rightarrow> BoundedAuditLog \<Rightarrow> BoundedAuditLog" where
  "audit_append cycles token perm outcome l =
     (let l = l\<lparr>al_entries := (al_entries l)[unat (al_write l AND kAuditMask) := audit_event cycles token perm outcome],
                al_write := al_write l + 1\<rparr>
      in if AUDIT_LOG_CAPACITY < al_write l - al_read l
         then l\<lparr>al_read := al_read l + 1, al_dropped := al_dropped l + 1\<rparr> else l)"

text \<open>\<^verbatim>\<open>max_count\<close> is a \<^verbatim>\<open>size_t\<close>; the entries moved out are the result.\<close>

definition audit_drain :: "bool \<Rightarrow> u64 \<Rightarrow> BoundedAuditLog \<Rightarrow> AuditEvent list \<times> BoundedAuditLog" where
  "audit_drain null_out max_count l =
     (if null_out then ([], l)
      else let unread = al_write l - al_read l;
               count = if unread < max_count then unread else max_count
           in (map (\<lambda>i. al_entries l ! unat ((al_read l + of_nat i) AND kAuditMask)) [0..<unat count],
               l\<lparr>al_read := al_read l + count\<rparr>))"

definition audit_size :: "BoundedAuditLog \<Rightarrow> u64" where
  "audit_size l = al_write l - al_read l"

section \<open>Tenants\<close>

text \<open>\<^verbatim>\<open>rg_heap\<close>: the engines that are alive, by their address; \<^verbatim>\<open>rg_next\<close>: an address never used so far.\<close>

record 'f TenantRegistry =
  rg_heap :: "nat \<rightharpoonup> EngineImpl \<times> 'f worker"
  rg_next :: nat
  rg_tenants :: "u32 \<rightharpoonup> nat"

text \<open>\<^verbatim>\<open>idle\<close> is the state of a worker that was not started.\<close>

definition create_tenant :: "'f worker \<Rightarrow> u32 \<Rightarrow> u64 \<Rightarrow> 'f TenantRegistry \<Rightarrow> (nat \<times> 'f TenantRegistry) option" where
  "create_tenant idle tenant_id buffer_capacity rg =
     (case rg_tenants rg tenant_id of
        Some i \<Rightarrow> Some (i, rg)
      | None \<Rightarrow> map_option (\<lambda>e. (rg_next rg, rg\<lparr>rg_heap := (rg_heap rg)(rg_next rg \<mapsto> (e, idle)), rg_next := Suc (rg_next rg),
                   rg_tenants := (rg_tenants rg)(tenant_id \<mapsto> rg_next rg)\<rparr>)) (Engine_Create buffer_capacity))"

definition get_tenant :: "u32 \<Rightarrow> 'f TenantRegistry \<Rightarrow> nat option" where
  "get_tenant tenant_id rg = rg_tenants rg tenant_id"

text \<open>Erasing the entry destroys the engine.\<close>

definition remove_tenant :: "u32 \<Rightarrow> 'f TenantRegistry \<Rightarrow> bool \<times> 'f TenantRegistry" where
  "remove_tenant tenant_id rg =
     (case rg_tenants rg tenant_id of
        None \<Rightarrow> (False, rg)
      | Some i \<Rightarrow> (True, rg\<lparr>rg_heap := (rg_heap rg)(i := None), rg_tenants := (rg_tenants rg)(tenant_id := None)\<rparr>))"

section \<open>The gateways\<close>

text \<open>
  One registry with both gateways: the telemetry gateway's trail, and the execution gateway's clients (the address of
  the engine each is bound to), trail and licence switch.
\<close>

record 'f security_sys =
  sy_registry :: "'f TenantRegistry"
  sy_audit :: BoundedAuditLog
  sy_clients :: "u32 \<rightharpoonup> nat"
  sy_exec_audit :: BoundedAuditLog
  sy_require_license :: bool

abbreviation sy_engine :: "nat \<Rightarrow> 'f security_sys \<Rightarrow> (EngineImpl \<times> 'f worker) option" where
  "sy_engine i sys \<equiv> rg_heap (sy_registry sys) i"

definition set_engine :: "nat \<Rightarrow> EngineImpl \<times> 'f worker \<Rightarrow> 'f security_sys \<Rightarrow> 'f security_sys" where
  "set_engine i e sys = sys\<lparr>sy_registry := (sy_registry sys)\<lparr>rg_heap := (rg_heap (sy_registry sys))(i \<mapsto> e)\<rparr>\<rparr>"

definition append_audit :: "u64 \<Rightarrow> AccessToken \<Rightarrow> Permission \<Rightarrow> AuditOutcome \<Rightarrow> 'f security_sys \<Rightarrow> 'f security_sys" where
  "append_audit cycles token perm outcome sys = sys\<lparr>sy_audit := audit_append cycles token perm outcome (sy_audit sys)\<rparr>"

definition append_exec_audit :: "u64 \<Rightarrow> AccessToken \<Rightarrow> Permission \<Rightarrow> AuditOutcome \<Rightarrow> 'f security_sys \<Rightarrow> 'f security_sys" where
  "append_exec_audit cycles token perm outcome sys = sys\<lparr>sy_exec_audit := audit_append cycles token perm outcome (sy_exec_audit sys)\<rparr>"

text \<open>\<^verbatim>\<open>refused\<close> is the result when no engine is called.\<close>

definition authorize_and_dispatch ::
  "u64 \<Rightarrow> AccessToken \<Rightarrow> Permission \<Rightarrow> 'r \<Rightarrow> (EngineImpl \<times> 'f worker \<Rightarrow> ('r \<times> EngineImpl \<times> 'f worker) option) \<Rightarrow>
   'f security_sys \<Rightarrow> ('r \<times> 'f security_sys) option" where
  "authorize_and_dispatch cycles token perm refused fn sys =
     (let allowed = is_allowed (at_role token) perm;
          engine = if allowed then get_tenant (at_tenant_id token) (sy_registry sys) else None
      in case engine of
           None \<Rightarrow> Some (refused, append_audit cycles token perm Denied sys)
         | Some i \<Rightarrow> Option.bind (sy_engine i sys) (\<lambda>e.
             map_option (\<lambda>(r, e). (r, append_audit cycles token perm Allowed (set_engine i e sys))) (fn e)))"

datatype gateway_result = RBool bool | RSignals "ThreatSignal list" | RReport "(bool \<times> ExecutionReport) option"

definition gw_record :: "u64 \<Rightarrow> AccessToken \<Rightarrow> u64 \<Rightarrow> u32 \<Rightarrow> u32 \<Rightarrow> u64 \<Rightarrow> 'f security_sys \<Rightarrow> (gateway_result \<times> 'f security_sys) option" where
  "gw_record now token cycles event_id trace_id v =
     authorize_and_dispatch now token RecordEvent (RBool False)
       (\<lambda>(e, k). map_option (\<lambda>(ok, e). (RBool ok, e, k)) (engine_record cycles event_id trace_id v e))"

definition gw_add_rule :: "u64 \<Rightarrow> AccessToken \<Rightarrow> bool \<Rightarrow> u32 \<Rightarrow> u32 \<Rightarrow> u64 \<Rightarrow> u8 \<Rightarrow> u32 \<Rightarrow> 'f security_sys \<Rightarrow> (gateway_result \<times> 'f security_sys) option" where
  "gw_add_rule now token alloc rule_id event_id threshold comparator severity =
     authorize_and_dispatch now token AddRule (RBool False)
       (\<lambda>(e, k). case engine_add_rule alloc rule_id event_id threshold comparator severity e of (ok, e) \<Rightarrow> Some (RBool ok, e, k))"

definition gw_poll_signals :: "u64 \<Rightarrow> AccessToken \<Rightarrow> bool \<Rightarrow> nat \<Rightarrow> 'f security_sys \<Rightarrow> (gateway_result \<times> 'f security_sys) option" where
  "gw_poll_signals now token null_out max_count =
     authorize_and_dispatch now token PollSignals (RSignals [])
       (\<lambda>(e, k). map_option (\<lambda>(xs, e). (RSignals xs, e, k)) (engine_poll_signals null_out max_count e))"

definition gw_start_persistence :: "u64 \<Rightarrow> AccessToken \<Rightarrow> bool \<Rightarrow> string \<Rightarrow> 'f security_sys \<Rightarrow> (gateway_result \<times> 'f security_sys) option" where
  "gw_start_persistence now token opened log_filepath =
     authorize_and_dispatch now token ManagePersistence (RBool False) (\<lambda>s. Some (RBool True, start_persistence opened log_filepath s))"

text \<open>Stopping waits for the worker: \<^verbatim>\<open>turns\<close> are its clock readings until it exits.\<close>

definition gw_stop_persistence ::
  "('f \<Rightarrow> TelemetryPayload list \<Rightarrow> 'f \<times> bool) \<Rightarrow> u64 \<Rightarrow> AccessToken \<Rightarrow> u64 list \<Rightarrow> 'f security_sys \<Rightarrow> (gateway_result \<times> 'f security_sys) option" where
  "gw_stop_persistence sink_write now token turns =
     authorize_and_dispatch now token ManagePersistence (RBool False)
       (\<lambda>(e, k). if \<not> ei_running e then Some (RBool True, e, k)
         else map_option (Pair (RBool True)) (worker_turns sink_write turns (stop_persistence e, k)))"

definition gw_create_tenant :: "'f worker \<Rightarrow> u64 \<Rightarrow> AccessToken \<Rightarrow> u32 \<Rightarrow> u64 \<Rightarrow> 'f security_sys \<Rightarrow> (gateway_result \<times> 'f security_sys) option" where
  "gw_create_tenant idle now token new_tenant_id buffer_capacity sys =
     (let allowed = is_allowed (at_role token) ManageTenants
      in map_option (\<lambda>sys. (RBool allowed, append_audit now token ManageTenants (if allowed then Allowed else Denied) sys))
           (if allowed
            then map_option (\<lambda>(_, rg). sys\<lparr>sy_registry := rg\<rparr>) (create_tenant idle new_tenant_id buffer_capacity (sy_registry sys))
            else Some sys))"

definition gw_create_execution_tenant :: "u64 \<Rightarrow> AccessToken \<Rightarrow> u32 \<Rightarrow> 'f security_sys \<Rightarrow> (gateway_result \<times> 'f security_sys) option" where
  "gw_create_execution_tenant now token tenant_id sys =
     (let allowed = is_allowed (at_role token) ManageTenants;
          engine = if allowed then get_tenant tenant_id (sy_registry sys) else None
      in case engine of
           None \<Rightarrow> Some (RBool False, append_exec_audit now token ManageTenants Denied sys)
         | Some i \<Rightarrow>
             let sys = (if sy_clients sys tenant_id = None then sys\<lparr>sy_clients := (sy_clients sys)(tenant_id \<mapsto> i)\<rparr> else sys)
             in Some (RBool True, append_exec_audit now token ManageTenants Allowed sys))"

definition set_execution_license_required :: "bool \<Rightarrow> 'f security_sys \<Rightarrow> 'f security_sys" where
  "set_execution_license_required required sys = sys\<lparr>sy_require_license := required\<rparr>"

text \<open>\<^verbatim>\<open>licensed\<close> is what \<^verbatim>\<open>animus_is_licensed()\<close> says when the call is made.\<close>

definition gw_submit ::
  "u64 \<Rightarrow> AccessToken \<Rightarrow> bool \<Rightarrow> u64 \<Rightarrow> u64 \<Rightarrow> u64 \<Rightarrow> OrderRequest \<Rightarrow> 'f security_sys \<Rightarrow> (gateway_result \<times> 'f security_sys) option" where
  "gw_submit now token licensed start finish cycles request sys =
     (let allowed = is_allowed (at_role token) SubmitOrder;
          allowed = (if allowed \<and> sy_require_license sys \<and> \<not> licensed then False else allowed);
          client = if allowed then sy_clients sys (at_tenant_id token) else None
      in case client of
           None \<Rightarrow> Some (RReport None, append_exec_audit now token SubmitOrder Denied sys)
         | Some i \<Rightarrow> Option.bind (sy_engine i sys) (\<lambda>(e, k).
             map_option (\<lambda>(r, e). (RReport (Some r), append_exec_audit now token SubmitOrder Allowed (set_engine i (e, k) sys)))
               (execution_submit loopback_submit_order start finish cycles request e)))"

section \<open>Calls\<close>

datatype gateway_call =
    GRecord u64 u32 u32 u64
  | GAddRule bool u32 u32 u64 u8 u32
  | GPoll bool nat
  | GStart bool string
  | GStop "u64 list"
  | GCreateTenant u32 u64
  | GCreateExecution u32
  | GSubmit bool u64 u64 u64 OrderRequest

fun call_permission :: "gateway_call \<Rightarrow> Permission" where
  "call_permission (GRecord _ _ _ _) = RecordEvent"
| "call_permission (GAddRule _ _ _ _ _ _) = AddRule"
| "call_permission (GPoll _ _) = PollSignals"
| "call_permission (GStart _ _) = ManagePersistence"
| "call_permission (GStop _) = ManagePersistence"
| "call_permission (GCreateTenant _ _) = ManageTenants"
| "call_permission (GCreateExecution _) = ManageTenants"
| "call_permission (GSubmit _ _ _ _ _) = SubmitOrder"

fun is_execution_call :: "gateway_call \<Rightarrow> bool" where
  "is_execution_call (GCreateExecution _) = True"
| "is_execution_call (GSubmit _ _ _ _ _) = True"
| "is_execution_call _ = False"

fun refusal :: "gateway_call \<Rightarrow> gateway_result" where
  "refusal (GPoll _ _) = RSignals []"
| "refusal (GSubmit _ _ _ _ _) = RReport None"
| "refusal _ = RBool False"

fun gateway_step ::
  "('f \<Rightarrow> TelemetryPayload list \<Rightarrow> 'f \<times> bool) \<Rightarrow> 'f worker \<Rightarrow> u64 \<Rightarrow> AccessToken \<Rightarrow> gateway_call \<Rightarrow> 'f security_sys \<Rightarrow>
   (gateway_result \<times> 'f security_sys) option" where
  "gateway_step w idle now token (GRecord c ev tr v) sys = gw_record now token c ev tr v sys"
| "gateway_step w idle now token (GAddRule al r ev th c sv) sys = gw_add_rule now token al r ev th c sv sys"
| "gateway_step w idle now token (GPoll nl n) sys = gw_poll_signals now token nl n sys"
| "gateway_step w idle now token (GStart opened path) sys = gw_start_persistence now token opened path sys"
| "gateway_step w idle now token (GStop turns) sys = gw_stop_persistence w now token turns sys"
| "gateway_step w idle now token (GCreateTenant t cap) sys = gw_create_tenant idle now token t cap sys"
| "gateway_step w idle now token (GCreateExecution t) sys = gw_create_execution_tenant now token t sys"
| "gateway_step w idle now token (GSubmit li st fi cy rq) sys = gw_submit now token li st fi cy rq sys"

fun gateway_run ::
  "('f \<Rightarrow> TelemetryPayload list \<Rightarrow> 'f \<times> bool) \<Rightarrow> 'f worker \<Rightarrow> (u64 \<times> AccessToken \<times> gateway_call) list \<Rightarrow> 'f security_sys \<Rightarrow>
   (gateway_result list \<times> 'f security_sys) option" where
  "gateway_run w idle [] sys = Some ([], sys)"
| "gateway_run w idle ((now, token, call) # calls) sys =
     Option.bind (gateway_step w idle now token call sys) (\<lambda>(r, sys). map_option (\<lambda>(rs, sys). (r # rs, sys)) (gateway_run w idle calls sys))"

section \<open>The audit trail as a drop-oldest queue\<close>

text \<open>
  What the gateways rely on: a trail that holds the newest \<^term>\<open>cap\<close> of the unread entries and counts the rest.
\<close>

locale audit_trail =
  fixes holds :: "nat \<Rightarrow> 'e list \<Rightarrow> 'l \<Rightarrow> bool" and cap :: nat
    and append :: "'e \<Rightarrow> 'l \<Rightarrow> 'l"
  assumes bounded: "holds d xs l \<Longrightarrow> length xs \<le> cap"
    and append_law: "holds d xs l \<Longrightarrow> holds (d + (Suc (length xs) - cap)) (drop (Suc (length xs) - cap) (xs @ [e])) (append e l)"
begin

lemma append_all:
  "holds d xs l \<Longrightarrow>
   holds (d + (length (xs @ es) - cap)) (drop (length (xs @ es) - cap) (xs @ es)) (fold append es l)"
proof (induction es arbitrary: d xs l)
  case Nil
  then show ?case using bounded [OF Nil] by simp
next
  case (Cons e es)
  note ih = Cons.IH [OF append_law [OF Cons.prems, of e]]
  show ?case
  proof (cases "length xs < cap")
    case True
    then show ?thesis using ih by simp
  next
    case False
    then have n: "Suc (length xs) - cap = 1" and len: "length xs = cap" using bounded [OF Cons.prems] by linarith+
    define ys where "ys = drop 1 (xs @ [e]) @ es"
    have "length ys = cap + length es" using len by (simp add: ys_def)
    moreover obtain x where "xs @ e # es = x # ys" by (cases xs) (auto simp: ys_def)
    moreover have "holds (d + 1 + (length ys - cap)) (drop (length ys - cap) ys) (fold append es (append e l))"
      using ih unfolding n ys_def by simp
    ultimately show ?thesis by simp
  qed
qed

end

definition audit_holds :: "nat \<Rightarrow> AuditEvent list \<Rightarrow> BoundedAuditLog \<Rightarrow> bool" where
  "audit_holds d xs l \<longleftrightarrow> length (al_entries l) = 4096 \<and> length xs \<le> 4096 \<and> al_dropped l = of_nat d \<and>
     (\<exists>R. al_read l = of_nat R \<and> al_write l = of_nat (R + length xs) \<and> ring_contents 4096 (al_entries l) R (R + length xs) = xs)"

lemma audit_slot: "unat ((of_nat n :: u64) AND kAuditMask) = n mod 4096"
  using slot_of_cursor [of 12 n] by (simp add: kAuditMask_def AUDIT_LOG_CAPACITY_def)

definition store_event :: "AuditEvent \<Rightarrow> BoundedAuditLog \<Rightarrow> BoundedAuditLog" where
  "store_event ev = audit_append (ae_timestamp_cycles ev)
     \<lparr>at_tenant_id = ae_tenant_id ev, at_principal_id = ae_principal_id ev, at_role = Viewer\<rparr> (ae_permission ev) (ae_outcome ev)"

lemma audit_append_store: "audit_append c t p out l = store_event (audit_event c t p out) l"
  by (simp add: store_event_def audit_append_def audit_event_def)

lemma store_event_holds:
  assumes "audit_holds d xs l"
  shows "audit_holds (d + (Suc (length xs) - 4096)) (drop (Suc (length xs) - 4096) (xs @ [ev])) (store_event ev l)"
proof -
  obtain R where R: "al_read l = of_nat R" "al_write l = of_nat (R + length xs)" "ring_contents 4096 (al_entries l) R (R + length xs) = xs"
    and len: "length (al_entries l) = 4096" "length xs \<le> 4096" "al_dropped l = of_nat d"
    using assms by (auto simp: audit_holds_def)
  let ?es = "(al_entries l)[(R + length xs) mod 4096 := ev]"
  have diff: "unat (of_nat (Suc (R + length xs)) - of_nat R :: u64) = Suc (length xs)"
    using cursor_diff [of R "Suc (R + length xs)"] len(2) by simp
  have full: "AUDIT_LOG_CAPACITY < of_nat (Suc (R + length xs)) - of_nat R \<longleftrightarrow> length xs = 4096"
    using len(2) by (auto simp: AUDIT_LOG_CAPACITY_def word_less_nat_alt diff simp del: of_nat_Suc of_nat_add)
  have ev: "audit_event (ae_timestamp_cycles ev) \<lparr>at_tenant_id = ae_tenant_id ev, at_principal_id = ae_principal_id ev, at_role = Viewer\<rparr>
      (ae_permission ev) (ae_outcome ev) = ev" by (simp add: audit_event_def)
  have st: "store_event ev l = (if length xs = 4096
      then l\<lparr>al_entries := ?es, al_write := of_nat (Suc (R + length xs)), al_read := of_nat (Suc R), al_dropped := of_nat (Suc d)\<rparr>
      else l\<lparr>al_entries := ?es, al_write := of_nat (Suc (R + length xs))\<rparr>)"
    using full R(1,2) len(3) audit_slot [of "R + length xs"]
    by (simp add: store_event_def audit_append_def ev cursor_succ add.commute)
  show ?thesis
  proof (cases "length xs = 4096")
    case False
    then have "ring_contents 4096 ?es R (Suc (R + length xs)) = xs @ [ev]"
      using ring_contents_push [of R "R + length xs" 4096 "al_entries l" ev] R(3) len by simp
    then show ?thesis using False R len st unfolding audit_holds_def by (auto intro!: exI [of _ R])
  next
    case True
    then have ne: "xs \<noteq> []" by auto
    have "ring_contents 4096 (al_entries l) (Suc R) (R + length xs) = tl xs"
      using ring_contents_pop [of R "R + length xs" 4096 "al_entries l"] R(3) True by (metis less_add_same_cancel1 list.sel(3) zero_less_numeral)
    then have "ring_contents 4096 ?es (Suc R) (Suc (R + length xs)) = tl xs @ [ev]"
      using ring_contents_push [of "Suc R" "R + length xs" 4096 "al_entries l" ev] True len by simp
    then show ?thesis using True ne R len st unfolding audit_holds_def
      by (auto simp: drop_Suc intro!: exI [of _ "Suc R"])
  qed
qed

lemma audit_holds_bounded: "audit_holds d xs l \<Longrightarrow> length xs \<le> 4096"
  by (simp add: audit_holds_def)

interpretation trail: audit_trail audit_holds 4096 store_event
  by unfold_locales (blast intro: audit_holds_bounded store_event_holds)+

section \<open>Isolation\<close>

text \<open>Every tenant has an engine of its own that is alive, and every execution client is bound to its tenant's engine.\<close>

definition sys_ok :: "'f security_sys \<Rightarrow> bool" where
  "sys_ok sys \<longleftrightarrow>
     (\<forall>t i. rg_tenants (sy_registry sys) t = Some i \<longrightarrow> i < rg_next (sy_registry sys) \<and> sy_engine i sys \<noteq> None) \<and>
     (\<forall>t t' i. rg_tenants (sy_registry sys) t = Some i \<longrightarrow> rg_tenants (sy_registry sys) t' = Some i \<longrightarrow> t = t') \<and>
     (\<forall>t i. sy_clients sys t = Some i \<longrightarrow> rg_tenants (sy_registry sys) t = Some i)"

text \<open>A change that keeps this and touches at most the engine of tenant \<^term>\<open>t0\<close>, or makes new engines.\<close>

definition confined :: "u32 \<Rightarrow> 'f security_sys \<Rightarrow> 'f security_sys \<Rightarrow> bool" where
  "confined t0 sys sys' \<longleftrightarrow> sys_ok sys' \<and>
     (\<forall>t i. rg_tenants (sy_registry sys) t = Some i \<longrightarrow> rg_tenants (sy_registry sys') t = Some i \<and> (t \<noteq> t0 \<longrightarrow> sy_engine i sys' = sy_engine i sys))"

lemma confined_audit [simp]:
  "confined t0 sys (append_audit c t p out sys') = confined t0 sys sys'"
  "confined t0 sys (append_exec_audit c t p out sys') = confined t0 sys sys'"
  by (simp_all add: confined_def sys_ok_def append_audit_def append_exec_audit_def)

lemma confined_refl: "sys_ok sys \<Longrightarrow> confined t0 sys sys"
  by (simp add: confined_def)

lemma confined_set_engine:
  "sys_ok sys \<Longrightarrow> rg_tenants (sy_registry sys) t0 = Some i \<Longrightarrow> confined t0 sys (set_engine i e sys)"
  unfolding confined_def sys_ok_def set_engine_def by simp

lemma confined_create:
  assumes "sys_ok sys" "create_tenant idle t cap (sy_registry sys) = Some (i, rg)"
  shows "confined t0 sys (sys\<lparr>sy_registry := rg\<rparr>)"
proof (cases "rg_tenants (sy_registry sys) t")
  case Some
  then have "rg = sy_registry sys" using assms(2) by (simp add: create_tenant_def)
  then show ?thesis using assms(1) by (simp add: confined_refl)
next
  case None
  have fresh: "rg_tenants (sy_registry sys) t' \<noteq> Some (rg_next (sy_registry sys))" for t' using assms(1) unfolding sys_ok_def by blast
  obtain e where "rg = (sy_registry sys)\<lparr>rg_heap := (rg_heap (sy_registry sys))(rg_next (sy_registry sys) \<mapsto> (e, idle)),
      rg_next := Suc (rg_next (sy_registry sys)), rg_tenants := (rg_tenants (sy_registry sys))(t \<mapsto> rg_next (sy_registry sys))\<rparr>"
    using assms(2) None by (auto simp: create_tenant_def)
  then show ?thesis using assms(1) None fresh unfolding confined_def sys_ok_def
    by (auto simp: less_Suc_eq split: if_splits)
qed

lemma confined_dispatch:
  "sys_ok sys \<Longrightarrow> authorize_and_dispatch c token perm r0 fn sys = Some (r, sys') \<Longrightarrow> confined (at_tenant_id token) sys sys'"
  by (auto simp: authorize_and_dispatch_def get_tenant_def Let_def confined_refl confined_set_engine bind_eq_Some_conv
      split: option.splits if_splits)

lemma confined_client:
  "sys_ok sys \<Longrightarrow> rg_tenants (sy_registry sys) t = Some i \<Longrightarrow> confined t0 sys (sys\<lparr>sy_clients := (sy_clients sys)(t \<mapsto> i)\<rparr>)"
  unfolding confined_def sys_ok_def by simp

lemma confined_step:
  assumes "sys_ok sys" "gateway_step w idle now token call sys = Some (r, sys')"
  shows "confined (at_tenant_id token) sys sys'"
proof (cases call)
  case (GCreateTenant t cap)
  then show ?thesis using assms confined_create [OF assms(1)]
    by (auto simp: gw_create_tenant_def Let_def confined_refl split: if_splits)
next
  case (GCreateExecution t)
  then show ?thesis using assms
    by (auto simp: gw_create_execution_tenant_def Let_def get_tenant_def confined_refl confined_client split: if_splits option.splits)
next
  case (GSubmit li st fi cy rq)
  have c: "rg_tenants (sy_registry sys) t = Some i" if "sy_clients sys t = Some i" for t i using assms(1) that by (simp add: sys_ok_def)
  show ?thesis using assms c unfolding GSubmit
    by (auto simp: gw_submit_def Let_def bind_eq_Some_conv confined_refl confined_set_engine split: if_splits option.splits)
qed (use assms in \<open>auto simp: gw_record_def gw_add_rule_def gw_poll_signals_def gw_start_persistence_def gw_stop_persistence_def
  dest: confined_dispatch\<close>)

lemma gateway_run_isolated:
  "sys_ok sys \<Longrightarrow> gateway_run w idle calls sys = Some (rs, sys') \<Longrightarrow> rg_tenants (sy_registry sys) t = Some i \<Longrightarrow>
   list_all (\<lambda>(_, token, _). at_tenant_id token \<noteq> t) calls \<Longrightarrow>
   rg_tenants (sy_registry sys') t = Some i \<and> sy_engine i sys' = sy_engine i sys"
proof (induction calls arbitrary: sys rs)
  case (Cons c calls)
  obtain now token call where c: "c = (now, token, call)" by (cases c)
  then obtain r sys1 rs1 where s: "gateway_step w idle now token call sys = Some (r, sys1)" "gateway_run w idle calls sys1 = Some (rs1, sys')"
    using Cons.prems(2) by (auto simp: bind_eq_Some_conv)
  have "confined (at_tenant_id token) sys sys1" using confined_step [OF Cons.prems(1) s(1)] .
  then have "sys_ok sys1" "rg_tenants (sy_registry sys1) t = Some i" "sy_engine i sys1 = sy_engine i sys"
    using Cons.prems(3,4) c by (auto simp: confined_def)
  then show ?case using Cons.IH [OF _ s(2)] Cons.prems(4) by simp
qed simp

section \<open>Mediation and audit\<close>

text \<open>The trail a call writes to, and the event it must leave there.\<close>

definition call_trail :: "gateway_call \<Rightarrow> 'f security_sys \<Rightarrow> BoundedAuditLog" where
  "call_trail call sys = (if is_execution_call call then sy_exec_audit sys else sy_audit sys)"

text \<open>When a call is let through to an engine.\<close>

fun let_through :: "AccessToken \<Rightarrow> gateway_call \<Rightarrow> 'f security_sys \<Rightarrow> bool" where
  "let_through token (GCreateTenant t cap) sys = is_allowed (at_role token) ManageTenants"
| "let_through token (GCreateExecution t) sys = (is_allowed (at_role token) ManageTenants \<and> rg_tenants (sy_registry sys) t \<noteq> None)"
| "let_through token (GSubmit licensed st fi cy rq) sys =
     (is_allowed (at_role token) SubmitOrder \<and> (sy_require_license sys \<longrightarrow> licensed) \<and> sy_clients sys (at_tenant_id token) \<noteq> None)"
| "let_through token call sys = (is_allowed (at_role token) (call_permission call) \<and> rg_tenants (sy_registry sys) (at_tenant_id token) \<noteq> None)"

lemma dispatch_audit:
  "authorize_and_dispatch c token perm r0 fn sys = Some (r, sys') \<Longrightarrow>
   sy_exec_audit sys' = sy_exec_audit sys \<and>
   sy_audit sys' = store_event (audit_event c token perm
     (if is_allowed (at_role token) perm \<and> rg_tenants (sy_registry sys) (at_tenant_id token) \<noteq> None then Allowed else Denied)) (sy_audit sys)"
  by (auto simp: authorize_and_dispatch_def get_tenant_def Let_def append_audit_def set_engine_def audit_append_store bind_eq_Some_conv
      split: option.splits if_splits)

lemma step_audit:
  assumes "gateway_step w idle now token call sys = Some (r, sys')"
  shows "(if is_execution_call call then sy_audit sys' = sy_audit sys else sy_exec_audit sys' = sy_exec_audit sys) \<and>
    call_trail call sys' = store_event (audit_event now token (call_permission call) (if let_through token call sys then Allowed else Denied)) (call_trail call sys)"
proof (cases call)
  case (GCreateTenant t cap)
  then show ?thesis using assms
    by (auto simp: gw_create_tenant_def call_trail_def Let_def append_audit_def audit_append_store split: if_splits)
next
  case (GCreateExecution t)
  then show ?thesis using assms
    by (auto simp: gw_create_execution_tenant_def call_trail_def Let_def get_tenant_def append_exec_audit_def audit_append_store
        split: if_splits option.splits)
next
  case (GSubmit li st fi cy rq)
  show ?thesis using assms unfolding GSubmit
    by (auto simp: gw_submit_def call_trail_def Let_def bind_eq_Some_conv append_exec_audit_def audit_append_store set_engine_def
        split: if_splits option.splits)
qed (use assms in \<open>auto simp: call_trail_def gw_record_def gw_add_rule_def gw_poll_signals_def gw_start_persistence_def
  gw_stop_persistence_def dest!: dispatch_audit split: if_splits\<close>)

text \<open>The events of a sequence of calls on the two trails.\<close>

definition told :: "AuditEvent \<Rightarrow> u64 \<times> u32 \<times> u64 \<times> Permission" where
  "told ev = (ae_timestamp_cycles ev, ae_tenant_id ev, ae_principal_id ev, ae_permission ev)"

definition asked :: "u64 \<times> AccessToken \<times> gateway_call \<Rightarrow> u64 \<times> u32 \<times> u64 \<times> Permission" where
  "asked c = (fst c, at_tenant_id (fst (snd c)), at_principal_id (fst (snd c)), call_permission (snd (snd c)))"

lemma told_event: "told (audit_event c t p out) = (c, at_tenant_id t, at_principal_id t, p)"
  by (simp add: told_def audit_event_def)

lemma run_audit:
  "gateway_run w idle calls sys = Some (rs, sys') \<Longrightarrow>
   \<exists>es xs. sy_audit sys' = fold store_event es (sy_audit sys) \<and> sy_exec_audit sys' = fold store_event xs (sy_exec_audit sys) \<and>
     map told es = map asked (filter (\<lambda>c. \<not> is_execution_call (snd (snd c))) calls) \<and>
     map told xs = map asked (filter (\<lambda>c. is_execution_call (snd (snd c))) calls)"
proof (induction calls arbitrary: sys rs)
  case (Cons c calls)
  obtain now token call where c: "c = (now, token, call)" by (cases c)
  then obtain r sys1 rs1 where s: "gateway_step w idle now token call sys = Some (r, sys1)" "gateway_run w idle calls sys1 = Some (rs1, sys')"
    using Cons.prems by (auto simp: bind_eq_Some_conv)
  let ?ev = "audit_event now token (call_permission call) (if let_through token call sys then Allowed else Denied)"
  obtain es xs where e: "sy_audit sys' = fold store_event es (sy_audit sys1)" "sy_exec_audit sys' = fold store_event xs (sy_exec_audit sys1)"
     "map told es = map asked (filter (\<lambda>c. \<not> is_execution_call (snd (snd c))) calls)"
     "map told xs = map asked (filter (\<lambda>c. is_execution_call (snd (snd c))) calls)"
    using Cons.IH [OF s(2)] by blast
  have t: "told ?ev = asked c" by (simp add: told_event asked_def c)
  show ?case
  proof (cases "is_execution_call call")
    case True
    then have "sy_audit sys1 = sy_audit sys" "sy_exec_audit sys1 = store_event ?ev (sy_exec_audit sys)"
      using step_audit [OF s(1)] by (simp_all add: call_trail_def)
    then show ?thesis using e t True by (intro exI [of _ es] conjI exI [of _ "?ev # xs"]) (simp_all add: c)
  next
    case False
    then have "sy_exec_audit sys1 = sy_exec_audit sys" "sy_audit sys1 = store_event ?ev (sy_audit sys)"
      using step_audit [OF s(1)] by (simp_all add: call_trail_def)
    then show ?thesis using e t False by (intro exI [of _ "?ev # es"] conjI exI [of _ xs]) (simp_all add: c)
  qed
qed auto

section \<open>Properties\<close>

text \<open>
  C8: tenants are isolated. Whatever calls the holders of tokens of other tenants make on both gateways, in any number
  and order, creating tenants and execution paths included, tenant \<^verbatim>\<open>t\<close> keeps its engine and the engine's state
  (rings, rules, windows, persistence) is exactly what it was.
\<close>

theorem gateway_isolation:
  assumes "sys_ok sys" and "gateway_run w idle calls sys = Some (rs, sys')" and "rg_tenants (sy_registry sys) t = Some i"
    and "list_all (\<lambda>(_, token, _). at_tenant_id token \<noteq> t) calls"
  shows "rg_tenants (sy_registry sys') t = Some i \<and> sy_engine i sys' = sy_engine i sys"
  by (rule gateway_run_isolated [OF assms])

text \<open>
  C9: every call is mediated. A call whose token's role lacks the permission returns its refusal at once; it changes
  no engine, no tenant, no client, and leaves exactly one entry, marked denied, on the trail of its gateway.
\<close>

theorem gateway_mediation:
  assumes "\<not> is_allowed (at_role token) (call_permission call)"
  shows "gateway_step w idle now token call sys = Some (refusal call,
    if is_execution_call call
    then sys\<lparr>sy_exec_audit := audit_append now token (call_permission call) Denied (sy_exec_audit sys)\<rparr>
    else sys\<lparr>sy_audit := audit_append now token (call_permission call) Denied (sy_audit sys)\<rparr>)"
  using assms
  by (cases call) (simp_all add: gw_record_def gw_add_rule_def gw_poll_signals_def gw_start_persistence_def gw_stop_persistence_def
      gw_create_tenant_def gw_create_execution_tenant_def gw_submit_def authorize_and_dispatch_def append_audit_def append_exec_audit_def)

text \<open>
  C19: the audit trail is complete. After any sequence of calls the trail of the telemetry gateway is the newest 4096 of
  the entries it had followed by one entry per telemetry call, in order, with the caller's identity and permission, and
  the drop counter has grown by exactly the number of entries that no longer fit; the same for the execution gateway.
\<close>

theorem gateway_audit_complete:
  assumes "gateway_run w idle calls sys = Some (rs, sys')" and "audit_holds d old (sy_audit sys)" and "audit_holds d' old' (sy_exec_audit sys)"
  shows "\<exists>es xs. audit_holds (d + (length (old @ es) - 4096)) (drop (length (old @ es) - 4096) (old @ es)) (sy_audit sys') \<and>
     audit_holds (d' + (length (old' @ xs) - 4096)) (drop (length (old' @ xs) - 4096) (old' @ xs)) (sy_exec_audit sys') \<and>
     map told es = map asked (filter (\<lambda>c. \<not> is_execution_call (snd (snd c))) calls) \<and>
     map told xs = map asked (filter (\<lambda>c. is_execution_call (snd (snd c))) calls)"
proof -
  obtain es xs where e: "sy_audit sys' = fold store_event es (sy_audit sys)" "sy_exec_audit sys' = fold store_event xs (sy_exec_audit sys)"
     "map told es = map asked (filter (\<lambda>c. \<not> is_execution_call (snd (snd c))) calls)"
     "map told xs = map asked (filter (\<lambda>c. is_execution_call (snd (snd c))) calls)" using run_audit [OF assms(1)] by blast
  from trail.append_all [OF assms(2), of es] trail.append_all [OF assms(3), of xs] e show ?thesis by metis
qed

text \<open>
  C38: removing a tenant leaves its execution client with a reference to the destroyed engine. After
  \<^verbatim>\<open>remove_tenant\<close> an order that the gateway lets through for that tenant has no defined result.
\<close>

theorem removed_tenant_dangles:
  assumes "sys_ok sys" and "sy_clients sys (at_tenant_id token) = Some i"
    and "is_allowed (at_role token) SubmitOrder" and "\<not> sy_require_license sys"
  shows "gw_submit now token licensed start finish cycles request
           (sys\<lparr>sy_registry := snd (remove_tenant (at_tenant_id token) (sy_registry sys))\<rparr>) = None"
  using assms by (simp add: gw_submit_def remove_tenant_def sys_ok_def)

section \<open>Witnesses\<close>

definition demo_token :: AccessToken where
  "demo_token = \<lparr>at_tenant_id = 2, at_principal_id = 77, at_role = Operator\<rparr>"

definition demo_sys :: "TelemetryPayload list security_sys" where
  "demo_sys = \<lparr>sy_registry = \<lparr>rg_heap = [0 \<mapsto> (demo_engine, demo_worker), 1 \<mapsto> (demo_busy, demo_worker)], rg_next = 2, rg_tenants = [1 \<mapsto> 0, 2 \<mapsto> 1]\<rparr>,
     sy_audit = BoundedAuditLog_new, sy_clients = [2 \<mapsto> 1], sy_exec_audit = BoundedAuditLog_new, sy_require_license = False\<rparr>"

lemma demo_sys_ok: "sys_ok demo_sys"
  by (auto simp: sys_ok_def demo_sys_def split: if_splits)

definition demo_calls :: "(u64 \<times> AccessToken \<times> gateway_call) list" where
  "demo_calls = [(5, demo_token, GStart True ''x''), (6, demo_token, GCreateTenant 3 8), (7, demo_token\<lparr>at_role := Admin\<rparr>, GAddRule True 1 2 3 0 1)]"

lemma demo_run: "\<exists>rs sys'. gateway_run demo_sink demo_worker demo_calls demo_sys = Some (rs, sys')"
  by (simp add: demo_calls_def demo_token_def demo_sys_def gw_start_persistence_def gw_create_tenant_def gw_add_rule_def authorize_and_dispatch_def
      get_tenant_def append_audit_def engine_add_rule_def comparator_of_def)

theorem gateway_isolation_witness:
  "\<exists>rs sys'. gateway_run demo_sink demo_worker demo_calls demo_sys = Some (rs, sys') \<and>
     rg_tenants (sy_registry sys') 1 = Some 0 \<and> sy_engine 0 sys' = sy_engine 0 demo_sys"
proof -
  obtain rs sys' where r: "gateway_run demo_sink demo_worker demo_calls demo_sys = Some (rs, sys')" using demo_run by blast
  have t: "rg_tenants (sy_registry demo_sys) 1 = Some 0" by (simp add: demo_sys_def)
  have "list_all (\<lambda>(_, token, _). at_tenant_id token \<noteq> 1) demo_calls" by (simp add: demo_calls_def demo_token_def)
  from gateway_isolation [OF demo_sys_ok r t this] r show ?thesis by blast
qed

theorem gateway_mediation_witness:
  "gateway_step demo_sink demo_worker 5 demo_token (GCreateTenant 3 8) demo_sys =
     Some (RBool False, demo_sys\<lparr>sy_audit := audit_append 5 demo_token ManageTenants Denied (sy_audit demo_sys)\<rparr>)"
  using gateway_mediation [of demo_token "GCreateTenant 3 8" demo_sink demo_worker 5 demo_sys] by (simp add: demo_token_def)

lemma audit_new_holds: "audit_holds 0 [] BoundedAuditLog_new"
  by (auto simp: audit_holds_def BoundedAuditLog_new_def AUDIT_LOG_CAPACITY_def intro!: exI [of _ 0])

theorem gateway_audit_complete_witness:
  "\<exists>rs sys' es. gateway_run demo_sink demo_worker demo_calls demo_sys = Some (rs, sys') \<and> audit_holds 0 es (sy_audit sys') \<and>
     map told es = [(5, 2, 77, ManagePersistence), (6, 2, 77, ManageTenants), (7, 2, 77, AddRule)]"
proof -
  obtain rs sys' where r: "gateway_run demo_sink demo_worker demo_calls demo_sys = Some (rs, sys')" using demo_run by blast
  have a: "audit_holds 0 [] (sy_audit demo_sys)" "audit_holds 0 [] (sy_exec_audit demo_sys)" by (simp_all add: demo_sys_def audit_new_holds)
  from gateway_audit_complete [OF r a] obtain es where es: "audit_holds (0 + (length ([] @ es) - 4096)) (drop (length ([] @ es) - 4096) ([] @ es)) (sy_audit sys')"
    "map told es = map asked (filter (\<lambda>c. \<not> is_execution_call (snd (snd c))) demo_calls)" by blast
  have m: "map told es = [(5, 2, 77, ManagePersistence), (6, 2, 77, ManageTenants), (7, 2, 77, AddRule)]"
    using es(2) by (simp add: demo_calls_def asked_def demo_token_def)
  have "length (map told es) = 3" unfolding m by simp
  then have "audit_holds 0 es (sy_audit sys')" using es(1) by simp
  with r m show ?thesis by - (rule exI [of _ rs], rule exI [of _ sys'], rule exI [of _ es], intro conjI)
qed

theorem removed_tenant_dangles_witness:
  "gw_submit 1 demo_token False 0 9 4 \<lparr>or_client_order_id = 1, or_instrument_id = 2, or_side = Buy, or_type = Limit, or_price_ticks = 3, or_quantity = 4\<rparr>
     (demo_sys\<lparr>sy_registry := snd (remove_tenant 2 (sy_registry demo_sys))\<rparr>) = None"
  using removed_tenant_dangles [OF demo_sys_ok, of demo_token 1 1 False 0 9 4] by (simp add: demo_token_def demo_sys_def)

end
