(* ===== verification/Bytes.thy ===== *)
theory Bytes
  imports Prelude
begin

text \<open>
  Bytes of fixed-width integers, little and big endian, and reading them back at an offset of a buffer. The wire
  formats of the cluster, ITCH, CME and the telemetry snapshot are written in these.
\<close>

fun le_bytes :: "nat \<Rightarrow> nat \<Rightarrow> u8 list" where
  "le_bytes 0 v = []"
| "le_bytes (Suc n) v = of_nat (v mod 256) # le_bytes n (v div 256)"

fun le_value :: "u8 list \<Rightarrow> nat" where
  "le_value [] = 0"
| "le_value (b # bs) = unat b + 256 * le_value bs"

definition be_bytes :: "nat \<Rightarrow> nat \<Rightarrow> u8 list" where
  "be_bytes n v = rev (le_bytes n v)"

definition be_value :: "u8 list \<Rightarrow> nat" where
  "be_value bs = le_value (rev bs)"

definition le_at :: "nat \<Rightarrow> nat \<Rightarrow> u8 list \<Rightarrow> nat" where
  "le_at off n bs = le_value (take n (drop off bs))"

definition be_at :: "nat \<Rightarrow> nat \<Rightarrow> u8 list \<Rightarrow> nat" where
  "be_at off n bs = be_value (take n (drop off bs))"

text \<open>The \<open>n\<close> bytes, or the byte, at an offset of a buffer; \<^term>\<open>None\<close> is a read outside it.\<close>

definition rd :: "nat \<Rightarrow> nat \<Rightarrow> u8 list \<Rightarrow> u8 list option" where
  "rd off n w = (if off + n \<le> length w then Some (take n (drop off w)) else None)"

definition byte_at :: "nat \<Rightarrow> u8 list \<Rightarrow> u8 option" where
  "byte_at off w = (if off < length w then Some (w ! off) else None)"

named_theorems wire_simps

lemma length_le_bytes [simp]: "length (le_bytes n v) = n"
  by (induction n arbitrary: v) simp_all

lemma length_be_bytes [simp]: "length (be_bytes n v) = n"
  by (simp add: be_bytes_def)

lemma unat_u8_less: "unat (b :: u8) < 256"
  using unsigned_less [where 'b = 8 and 'a = nat, of b] by simp

lemma unat_of_nat8: "unat (of_nat (v mod 256) :: u8) = v mod 256"
  by (simp add: unat_of_nat take_bit_eq_mod)

lemma le_value_bytes: "le_value (le_bytes n v) = v mod 256 ^ n"
proof (induction n arbitrary: v)
  case (Suc n)
  have "v mod (256 * 256 ^ n) = v mod 256 + 256 * (v div 256 mod 256 ^ n)" by (simp add: mod_mult2_eq)
  then show ?case using Suc [of "v div 256"] by (simp add: unat_of_nat8)
qed simp

lemma le_value_less: "le_value bs < 256 ^ length bs"
proof (induction bs)
  case (Cons b bs)
  have "unat b < 256" by (rule unat_u8_less)
  moreover have "256 * le_value bs + 256 \<le> 256 * 256 ^ length bs" using Cons by linarith
  ultimately show ?case by (simp only: le_value.simps list.size power_Suc add_Suc_right add_0_right)
qed simp

lemma le_bytes_value: "le_bytes (length bs) (le_value bs) = bs"
proof (induction bs)
  case (Cons b bs)
  have b: "unat b < 256" by (rule unat_u8_less)
  then have "(unat b + 256 * le_value bs) div 256 = le_value bs" "(unat b + 256 * le_value bs) mod 256 = unat b" by simp_all
  then show ?case using Cons by simp
qed simp

lemma be_value_bytes: "be_value (be_bytes n v) = v mod 256 ^ n"
  by (simp add: be_value_def be_bytes_def le_value_bytes)

lemma be_bytes_value: "be_bytes (length bs) (be_value bs) = bs"
  using le_bytes_value [of "rev bs"] by (simp add: be_bytes_def be_value_def)

lemma pow_256: "(256::nat) ^ n = 2 ^ (8 * n)"
  by (simp add: power_mult)

lemma le_word [wire_simps]: "n * 8 = LENGTH('a) \<Longrightarrow> (of_nat (le_value (le_bytes n (unat w))) :: 'a::len word) = w"
proof -
  assume "n * 8 = LENGTH('a)"
  then have "(256::nat) ^ n = 2 ^ LENGTH('a)" by (simp add: pow_256 mult.commute)
  then show ?thesis using unsigned_less [of w] by (simp add: le_value_bytes)
qed

lemma be_word [wire_simps]: "n * 8 = LENGTH('a) \<Longrightarrow> (of_nat (be_value (be_bytes n (unat w))) :: 'a::len word) = w"
  using le_word [of n w] by (simp add: be_value_def be_bytes_def)

lemma le_nat_small [wire_simps]: "v < 256 ^ n \<Longrightarrow> le_value (le_bytes n v) = v"
  by (simp add: le_value_bytes)

text \<open>Reading a field of a buffer that is a concatenation.\<close>

lemma at_here [wire_simps]:
  "length xs = off \<Longrightarrow> length ys = n \<Longrightarrow> take n (drop off (xs @ ys @ zs)) = ys"
  by simp

lemma le_single [wire_simps]: "le_value [b] = unat b"
  by simp

end
