(* ===== verification/Raft.thy ===== *)
theory Raft
  imports Engine Bytes
begin

text \<open>
  Model of one node of the cluster in \<^verbatim>\<open>AnimusCore_v1/animus_cluster.hpp\<close>: the wire messages, the two request
  handlers, elections, replication and the application of committed entries to the engine. Each block of the
  source that holds \<^verbatim>\<open>state_mutex_\<close> is one operation here. Positions in the log are \<^typ>\<open>nat\<close> (a vector in memory
  has less than 2^64 entries; the wire writes them as 64 bits); terms are 64-bit words. The election deadline is
  left out: an election may start at any time.
\<close>

section \<open>Messages\<close>

type_synonym NodeId = u32

record AddRuleCommand =
  ac_rule_id :: u32
  ac_event_id :: u32
  ac_threshold :: u64
  ac_comparator :: u8
  ac_severity :: u32

record LogEntry =
  le_term :: u64
  le_is_noop :: u8
  le_command :: AddRuleCommand

datatype NodeRole = Follower | Candidate | Leader
datatype ProposeResult = ProposeOk | ProposeNotLeader | ProposeFailed
datatype MsgType = RequestVoteReq | RequestVoteResp | AppendEntriesReq | AppendEntriesResp

record RequestVoteArgs =
  ra_term :: u64
  ra_candidate_id :: NodeId
  ra_last_log_index :: nat
  ra_last_log_term :: u64

record RequestVoteResult =
  rr_term :: u64
  rr_vote_granted :: bool

record AppendEntriesHeader =
  ah_term :: u64
  ah_leader_id :: NodeId
  ah_prev_log_index :: nat
  ah_prev_log_term :: u64
  ah_leader_commit :: nat
  ah_entry_count :: nat

record AppendEntriesResult =
  ar_term :: u64
  ar_success :: bool
  ar_match_index :: nat

section \<open>Wire format\<close>

text \<open>The structs are packed; their bytes are those of a little-endian machine.\<close>

fun msg_byte :: "MsgType \<Rightarrow> u8" where
  "msg_byte RequestVoteReq = 1"
| "msg_byte RequestVoteResp = 2"
| "msg_byte AppendEntriesReq = 3"
| "msg_byte AppendEntriesResp = 4"

definition RequestVoteArgs_bytes :: "RequestVoteArgs \<Rightarrow> u8 list" where
  "RequestVoteArgs_bytes a = le_bytes 8 (unat (ra_term a)) @ le_bytes 4 (unat (ra_candidate_id a)) @ le_bytes 8 (ra_last_log_index a) @
     le_bytes 8 (unat (ra_last_log_term a))"

definition RequestVoteResult_bytes :: "RequestVoteResult \<Rightarrow> u8 list" where
  "RequestVoteResult_bytes r = le_bytes 8 (unat (rr_term r)) @ [if rr_vote_granted r then 1 else 0]"

definition AppendEntriesHeader_bytes :: "AppendEntriesHeader \<Rightarrow> u8 list" where
  "AppendEntriesHeader_bytes h = le_bytes 8 (unat (ah_term h)) @ le_bytes 4 (unat (ah_leader_id h)) @ le_bytes 8 (ah_prev_log_index h) @
     le_bytes 8 (unat (ah_prev_log_term h)) @ le_bytes 8 (ah_leader_commit h) @ le_bytes 4 (ah_entry_count h)"

definition AppendEntriesResult_bytes :: "AppendEntriesResult \<Rightarrow> u8 list" where
  "AppendEntriesResult_bytes r = le_bytes 8 (unat (ar_term r)) @ [if ar_success r then 1 else 0] @ le_bytes 8 (ar_match_index r)"

definition LogEntry_bytes :: "LogEntry \<Rightarrow> u8 list" where
  "LogEntry_bytes e = le_bytes 8 (unat (le_term e)) @ [le_is_noop e] @ le_bytes 4 (unat (ac_rule_id (le_command e))) @
     le_bytes 4 (unat (ac_event_id (le_command e))) @ le_bytes 8 (unat (ac_threshold (le_command e))) @ [ac_comparator (le_command e)] @
     le_bytes 4 (unat (ac_severity (le_command e)))"

definition wire_pack :: "MsgType \<Rightarrow> u8 list \<Rightarrow> u8 list" where
  "wire_pack type body = msg_byte type # body"

definition pack_append_entries :: "AppendEntriesHeader \<Rightarrow> LogEntry list \<Rightarrow> u8 list" where
  "pack_append_entries hdr entries = msg_byte AppendEntriesReq # AppendEntriesHeader_bytes hdr @ concat (map LogEntry_bytes entries)"

text \<open>The reads by \<^verbatim>\<open>memcpy\<close> from the body of a message.\<close>

definition RequestVoteArgs_of :: "u8 list \<Rightarrow> RequestVoteArgs" where
  "RequestVoteArgs_of bs = \<lparr>ra_term = of_nat (le_at 0 8 bs), ra_candidate_id = of_nat (le_at 8 4 bs), ra_last_log_index = le_at 12 8 bs,
     ra_last_log_term = of_nat (le_at 20 8 bs)\<rparr>"

definition AppendEntriesHeader_of :: "u8 list \<Rightarrow> AppendEntriesHeader" where
  "AppendEntriesHeader_of bs = \<lparr>ah_term = of_nat (le_at 0 8 bs), ah_leader_id = of_nat (le_at 8 4 bs), ah_prev_log_index = le_at 12 8 bs,
     ah_prev_log_term = of_nat (le_at 20 8 bs), ah_leader_commit = le_at 28 8 bs, ah_entry_count = le_at 36 4 bs\<rparr>"

definition LogEntry_of :: "u8 list \<Rightarrow> LogEntry" where
  "LogEntry_of bs = \<lparr>le_term = of_nat (le_at 0 8 bs), le_is_noop = of_nat (le_at 8 1 bs),
     le_command = \<lparr>ac_rule_id = of_nat (le_at 9 4 bs), ac_event_id = of_nat (le_at 13 4 bs), ac_threshold = of_nat (le_at 17 8 bs),
       ac_comparator = of_nat (le_at 25 1 bs), ac_severity = of_nat (le_at 26 4 bs)\<rparr>\<rparr>"

definition sizeof_RequestVoteArgs :: nat where "sizeof_RequestVoteArgs = 28"
definition sizeof_AppendEntriesHeader :: nat where "sizeof_AppendEntriesHeader = 40"
definition sizeof_LogEntry :: nat where "sizeof_LogEntry = 30"

fun LogEntries_of :: "nat \<Rightarrow> u8 list \<Rightarrow> LogEntry list" where
  "LogEntries_of 0 bs = []"
| "LogEntries_of (Suc n) bs = LogEntry_of (take sizeof_LogEntry bs) # LogEntries_of n (drop sizeof_LogEntry bs)"

section \<open>The node\<close>

record RaftNode =
  rn_id :: NodeId
  rn_peers :: "NodeId list"
  rn_role :: NodeRole
  rn_current_term :: u64
  rn_voted_for :: NodeId
  rn_has_voted_this_term :: bool
  rn_log :: "LogEntry list"
  rn_commit_index :: nat
  rn_last_applied :: nat
  rn_current_leader :: NodeId
  rn_has_leader :: bool
  rn_next_index :: "NodeId \<Rightarrow> nat"
  rn_match_index :: "NodeId \<Rightarrow> nat"
  rn_engine :: EngineImpl

definition leader_hint :: "RaftNode \<Rightarrow> NodeId" where
  "leader_hint n = (if rn_has_leader n then rn_current_leader n else 0)"

definition last_log_term :: "RaftNode \<Rightarrow> u64" where
  "last_log_term n = (if rn_log n = [] then 0 else le_term (last (rn_log n)))"

definition handle_request_vote :: "NodeId \<Rightarrow> RequestVoteArgs \<Rightarrow> RaftNode \<Rightarrow> RequestVoteResult \<times> RaftNode" where
  "handle_request_vote candidate_id args n =
     (let n = (if rn_current_term n < ra_term args
               then n\<lparr>rn_current_term := ra_term args, rn_role := Follower, rn_has_voted_this_term := False\<rparr> else n);
          log_ok = (last_log_term n < ra_last_log_term args \<or>
                    ra_last_log_term args = last_log_term n \<and> length (rn_log n) \<le> ra_last_log_index args);
          vote_granted = (rn_current_term n \<le> ra_term args \<and> (\<not> rn_has_voted_this_term n \<or> rn_voted_for n = candidate_id) \<and> log_ok);
          n = (if vote_granted then n\<lparr>rn_has_voted_this_term := True, rn_voted_for := candidate_id\<rparr> else n)
      in (\<lparr>rr_term = rn_current_term n, rr_vote_granted = vote_granted\<rparr>, n))"

text \<open>Applies the committed entries; reading past the end of the log has no defined result. \<^verbatim>\<open>engine_.add_rule\<close> reports an
  unknown comparator by its result, which is ignored.\<close>

function apply_committed_entries :: "RaftNode \<Rightarrow> RaftNode option" where
  "apply_committed_entries n =
     (if rn_last_applied n < rn_commit_index n
      then (if length (rn_log n) \<le> rn_last_applied n then None
            else let entry = rn_log n ! rn_last_applied n; cmd = le_command entry;
                     n = (if le_is_noop entry = 0
                          then n\<lparr>rn_engine := snd (engine_add_rule True (ac_rule_id cmd) (ac_event_id cmd) (ac_threshold cmd)
                                 (ac_comparator cmd) (ac_severity cmd) (rn_engine n))\<rparr> else n)
                 in apply_committed_entries (n\<lparr>rn_last_applied := rn_last_applied n + 1\<rparr>))
      else Some n)"
  by pat_completeness auto

termination by (relation "measure (\<lambda>n. rn_commit_index n - rn_last_applied n)") (auto simp: Let_def)

declare apply_committed_entries.simps [simp del]

text \<open>The loop that merges the received entries into the log from position \<^verbatim>\<open>idx\<close>.\<close>

fun merge_entries :: "nat \<Rightarrow> LogEntry list \<Rightarrow> LogEntry list \<Rightarrow> LogEntry list" where
  "merge_entries idx [] log = log"
| "merge_entries idx (e # es) log =
     merge_entries (Suc idx) es
       (if idx < length log then (if le_term (log ! idx) \<noteq> le_term e then take idx log @ [e] else log) else log @ [e])"

definition handle_append_entries ::
  "NodeId \<Rightarrow> AppendEntriesHeader \<Rightarrow> LogEntry list \<Rightarrow> RaftNode \<Rightarrow> (AppendEntriesResult \<times> RaftNode) option" where
  "handle_append_entries leader_id hdr entries n =
     (if ah_term hdr < rn_current_term n then Some (\<lparr>ar_term = rn_current_term n, ar_success = False, ar_match_index = 0\<rparr>, n)
      else
        let n = (if rn_current_term n < ah_term hdr then n\<lparr>rn_current_term := ah_term hdr, rn_has_voted_this_term := False\<rparr> else n);
            n = n\<lparr>rn_role := Follower, rn_current_leader := leader_id, rn_has_leader := True\<rparr>;
            refused = \<lparr>ar_term = rn_current_term n, ar_success = False, ar_match_index = 0\<rparr>
        in if 0 < ah_prev_log_index hdr \<and> length (rn_log n) < ah_prev_log_index hdr then Some (refused, n)
           else if 0 < ah_prev_log_index hdr \<and> le_term (rn_log n ! (ah_prev_log_index hdr - 1)) \<noteq> ah_prev_log_term hdr
           then Some (refused, n\<lparr>rn_log := take (ah_prev_log_index hdr - 1) (rn_log n)\<rparr>)
           else
             let n = n\<lparr>rn_log := merge_entries (ah_prev_log_index hdr) entries (rn_log n)\<rparr>
             in map_option (\<lambda>n. (\<lparr>ar_term = rn_current_term n, ar_success = True, ar_match_index = length (rn_log n)\<rparr>, n))
                  (if rn_commit_index n < ah_leader_commit hdr
                   then apply_committed_entries (n\<lparr>rn_commit_index := min (ah_leader_commit hdr) (length (rn_log n))\<rparr>)
                   else Some n))"

text \<open>\<^verbatim>\<open>dispatch_request\<close>: the reply, where the empty reply closes the connection. The request is not empty.\<close>

definition dispatch_request :: "NodeId \<Rightarrow> u8 list \<Rightarrow> RaftNode \<Rightarrow> (u8 list \<times> RaftNode) option" where
  "dispatch_request from req n =
     (if hd req = msg_byte RequestVoteReq \<and> length req = 1 + sizeof_RequestVoteArgs
      then (case handle_request_vote from (RequestVoteArgs_of (tl req)) n of
              (result, n) \<Rightarrow> Some (wire_pack RequestVoteResp (RequestVoteResult_bytes result), n))
      else if hd req = msg_byte AppendEntriesReq \<and> 1 + sizeof_AppendEntriesHeader \<le> length req
      then let hdr = AppendEntriesHeader_of (tl req)
           in if length req \<noteq> 1 + sizeof_AppendEntriesHeader + ah_entry_count hdr * sizeof_LogEntry then Some ([], n)
              else map_option (\<lambda>(result, n). (wire_pack AppendEntriesResp (AppendEntriesResult_bytes result), n))
                     (handle_append_entries from hdr (LogEntries_of (ah_entry_count hdr) (drop (1 + sizeof_AppendEntriesHeader) req)) n)
      else Some ([], n))"

section \<open>Elections\<close>

definition begin_election :: "RaftNode \<Rightarrow> RequestVoteArgs \<times> RaftNode" where
  "begin_election n =
     (let n = n\<lparr>rn_current_term := rn_current_term n + 1, rn_role := Candidate, rn_voted_for := rn_id n, rn_has_voted_this_term := True,
               rn_has_leader := False\<rparr>
      in (\<lparr>ra_term = rn_current_term n, ra_candidate_id = rn_id n, ra_last_log_index = length (rn_log n), ra_last_log_term = last_log_term n\<rparr>, n))"

text \<open>What a worker does with the answer of its peer: whether it counts as a vote.\<close>

definition vote_answer :: "u64 \<Rightarrow> RequestVoteResult \<Rightarrow> RaftNode \<Rightarrow> bool \<times> RaftNode" where
  "vote_answer term_at_election result n =
     (if rn_current_term n < rr_term result
      then (False, n\<lparr>rn_current_term := rr_term result, rn_role := Follower, rn_has_voted_this_term := False\<rparr>)
      else (rr_vote_granted result \<and> rr_term result = term_at_election, n))"

definition majority :: "RaftNode \<Rightarrow> nat" where
  "majority n = (length (rn_peers n) + 1) div 2 + 1"

definition noop_command :: AddRuleCommand where
  "noop_command = \<lparr>ac_rule_id = 0, ac_event_id = 0, ac_threshold = 0, ac_comparator = 0, ac_severity = 0\<rparr>"

definition finish_election :: "u64 \<Rightarrow> nat \<Rightarrow> RaftNode \<Rightarrow> bool \<times> RaftNode" where
  "finish_election term_at_election votes n =
     (if rn_role n = Candidate \<and> rn_current_term n = term_at_election \<and> majority n \<le> votes
      then (True, n\<lparr>rn_role := Leader, rn_current_leader := rn_id n, rn_has_leader := True,
              rn_next_index := (\<lambda>p. if p \<in> set (rn_peers n) then length (rn_log n) + 1 else rn_next_index n p),
              rn_match_index := (\<lambda>p. if p \<in> set (rn_peers n) then 0 else rn_match_index n p),
              rn_log := rn_log n @ [\<lparr>le_term = rn_current_term n, le_is_noop = 1, le_command = noop_command\<rparr>]\<rparr>)
      else (False, n))"

section \<open>Replication\<close>

definition propose_append :: "AddRuleCommand \<Rightarrow> RaftNode \<Rightarrow> nat option \<times> RaftNode" where
  "propose_append cmd n =
     (if rn_role n \<noteq> Leader then (None, n)
      else let n = n\<lparr>rn_log := rn_log n @ [\<lparr>le_term = rn_current_term n, le_is_noop = 0, le_command = cmd\<rparr>]\<rparr>
           in (Some (length (rn_log n)), n))"

text \<open>One look of the waiting loop of \<^verbatim>\<open>propose\<close>; \<^term>\<open>None\<close>: keep waiting.\<close>

definition propose_poll :: "nat \<Rightarrow> RaftNode \<Rightarrow> ProposeResult option" where
  "propose_poll my_index n =
     (if my_index \<le> rn_commit_index n then Some ProposeOk
      else if rn_role n \<noteq> Leader then Some ProposeNotLeader else None)"

definition kMaxEntriesPerRpc :: nat where "kMaxEntriesPerRpc = 64"

definition replicate_snapshot :: "RaftNode \<Rightarrow> (u64 \<times> nat) option" where
  "replicate_snapshot n = (if rn_role n \<noteq> Leader then None else Some (rn_current_term n, rn_commit_index n))"

definition replicate_request :: "NodeId \<Rightarrow> u64 \<Rightarrow> nat \<Rightarrow> RaftNode \<Rightarrow> (AppendEntriesHeader \<times> LogEntry list) option" where
  "replicate_request peer_id term_snapshot commit_snapshot n =
     (if rn_role n \<noteq> Leader \<or> rn_current_term n \<noteq> term_snapshot then None
      else let next_idx = rn_next_index n peer_id;
               prev_log_index = (if 0 < next_idx then next_idx - 1 else 0);
               prev_log_term = (if 0 < prev_log_index \<and> prev_log_index \<le> length (rn_log n) then le_term (rn_log n ! (prev_log_index - 1)) else 0);
               entries = take kMaxEntriesPerRpc (drop (next_idx - 1) (rn_log n))
           in Some (\<lparr>ah_term = term_snapshot, ah_leader_id = rn_id n, ah_prev_log_index = prev_log_index, ah_prev_log_term = prev_log_term,
                     ah_leader_commit = commit_snapshot, ah_entry_count = length entries\<rparr>, entries))"

definition replicate_answer :: "NodeId \<Rightarrow> u64 \<Rightarrow> nat \<Rightarrow> nat \<Rightarrow> AppendEntriesResult \<Rightarrow> RaftNode \<Rightarrow> RaftNode" where
  "replicate_answer peer_id term_snapshot prev_log_index sent result n =
     (if rn_current_term n < ar_term result
      then n\<lparr>rn_current_term := ar_term result, rn_role := Follower, rn_has_voted_this_term := False\<rparr>
      else if rn_role n \<noteq> Leader \<or> rn_current_term n \<noteq> term_snapshot then n
      else if ar_success result
      then n\<lparr>rn_next_index := (rn_next_index n)(peer_id := prev_log_index + sent + 1),
             rn_match_index := (rn_match_index n)(peer_id := prev_log_index + sent)\<rparr>
      else if 1 < rn_next_index n peer_id then n\<lparr>rn_next_index := (rn_next_index n)(peer_id := rn_next_index n peer_id - 1)\<rparr> else n)"

text \<open>The search for the commit position, from \<^verbatim>\<open>k\<close> downwards.\<close>

fun commit_search :: "RaftNode \<Rightarrow> nat \<Rightarrow> nat option" where
  "commit_search n 0 = None"
| "commit_search n (Suc k) =
     (if Suc k \<le> rn_commit_index n then None
      else if le_term (rn_log n ! k) = rn_current_term n \<and>
              majority n \<le> 1 + length (filter (\<lambda>p. Suc k \<le> rn_match_index n p) (rn_peers n)) then Some (Suc k)
      else commit_search n k)"

definition advance_commit :: "u64 \<Rightarrow> RaftNode \<Rightarrow> RaftNode option" where
  "advance_commit term_snapshot n =
     (if rn_role n \<noteq> Leader \<or> rn_current_term n \<noteq> term_snapshot then Some n
      else case commit_search n (length (rn_log n)) of
             None \<Rightarrow> Some n
           | Some k \<Rightarrow> apply_committed_entries (n\<lparr>rn_commit_index := k\<rparr>))"

section \<open>The wire format is read back\<close>

lemma RequestVoteArgs_read: "ra_last_log_index a < 2 ^ 64 \<Longrightarrow> RequestVoteArgs_of (RequestVoteArgs_bytes a) = a"
  by (simp add: RequestVoteArgs_of_def RequestVoteArgs_bytes_def le_at_def le_word le_nat_small)

lemma AppendEntriesHeader_read:
  "ah_prev_log_index h < 2 ^ 64 \<Longrightarrow> ah_leader_commit h < 2 ^ 64 \<Longrightarrow> ah_entry_count h < 2 ^ 32 \<Longrightarrow>
   AppendEntriesHeader_of (AppendEntriesHeader_bytes h @ rest) = h"
  by (simp add: AppendEntriesHeader_of_def AppendEntriesHeader_bytes_def le_at_def le_word le_nat_small)

lemma LogEntry_read: "LogEntry_of (LogEntry_bytes e) = e"
  by (simp add: LogEntry_of_def LogEntry_bytes_def le_at_def le_word)

lemma length_LogEntry_bytes [simp]: "length (LogEntry_bytes e) = sizeof_LogEntry"
  by (simp add: LogEntry_bytes_def sizeof_LogEntry_def)

lemma LogEntries_read: "LogEntries_of (length es) (concat (map LogEntry_bytes es)) = es"
  by (induction es) (simp_all add: LogEntry_read)

lemma length_LogEntries_bytes: "length (concat (map LogEntry_bytes es)) = length es * sizeof_LogEntry"
  by (induction es) simp_all

text \<open>
  C31: what one node packs, the other unpacks. A vote request or an append request put on the wire by the sender's
  packing functions reaches the handler of the receiver with exactly the sender's arguments, header and entries, and
  the reply is the packed result of that handler. The log positions are below 2^64 and the entries fewer than 2^32.
\<close>

theorem raft_wire_roundtrip:
  assumes "ra_last_log_index args < 2 ^ 64" and "ah_prev_log_index hdr < 2 ^ 64" and "ah_leader_commit hdr < 2 ^ 64"
    and "ah_entry_count hdr = length entries" and "length entries < 2 ^ 32"
  shows "dispatch_request from (wire_pack RequestVoteReq (RequestVoteArgs_bytes args)) n =
      (case handle_request_vote from args n of (result, n) \<Rightarrow> Some (wire_pack RequestVoteResp (RequestVoteResult_bytes result), n)) \<and>
    dispatch_request from (pack_append_entries hdr entries) n =
      map_option (\<lambda>(result, n). (wire_pack AppendEntriesResp (AppendEntriesResult_bytes result), n)) (handle_append_entries from hdr entries n)"
proof
  have "length (RequestVoteArgs_bytes args) = 28" by (simp add: RequestVoteArgs_bytes_def)
  then show "dispatch_request from (wire_pack RequestVoteReq (RequestVoteArgs_bytes args)) n =
      (case handle_request_vote from args n of (result, n) \<Rightarrow> Some (wire_pack RequestVoteResp (RequestVoteResult_bytes result), n))"
    using RequestVoteArgs_read [OF assms(1)] by (simp add: dispatch_request_def wire_pack_def sizeof_RequestVoteArgs_def)
  let ?b = "concat (map LogEntry_bytes entries)"
  have l: "length (AppendEntriesHeader_bytes hdr) = 40" by (simp add: AppendEntriesHeader_bytes_def)
  have r: "AppendEntriesHeader_of (AppendEntriesHeader_bytes hdr @ ?b) = hdr" using AppendEntriesHeader_read [of hdr] assms by simp
  show "dispatch_request from (pack_append_entries hdr entries) n =
      map_option (\<lambda>(result, n). (wire_pack AppendEntriesResp (AppendEntriesResult_bytes result), n)) (handle_append_entries from hdr entries n)"
    using l r assms(4) LogEntries_read [of entries]
    by (simp add: dispatch_request_def pack_append_entries_def sizeof_AppendEntriesHeader_def length_LogEntries_bytes)
qed

definition demo_node :: RaftNode where
  "demo_node = \<lparr>rn_id = 2, rn_peers = [1, 3], rn_role = Follower, rn_current_term = 4, rn_voted_for = 0, rn_has_voted_this_term = False,
     rn_log = [\<lparr>le_term = 4, le_is_noop = 1, le_command = noop_command\<rparr>], rn_commit_index = 1, rn_last_applied = 1, rn_current_leader = 1,
     rn_has_leader = True, rn_next_index = (\<lambda>p. 0), rn_match_index = (\<lambda>p. 0), rn_engine = demo_engine\<rparr>"

theorem raft_wire_roundtrip_witness:
  "dispatch_request 1 (wire_pack RequestVoteReq (RequestVoteArgs_bytes \<lparr>ra_term = 5, ra_candidate_id = 1, ra_last_log_index = 1, ra_last_log_term = 4\<rparr>)) demo_node =
     Some (wire_pack RequestVoteResp (RequestVoteResult_bytes \<lparr>rr_term = 5, rr_vote_granted = True\<rparr>),
       demo_node\<lparr>rn_current_term := 5, rn_has_voted_this_term := True, rn_voted_for := 1\<rparr>)"
  using raft_wire_roundtrip [of "\<lparr>ra_term = 5, ra_candidate_id = 1, ra_last_log_index = 1, ra_last_log_term = 4\<rparr>"
      "\<lparr>ah_term = 5, ah_leader_id = 1, ah_prev_log_index = 1, ah_prev_log_term = 4, ah_leader_commit = 1, ah_entry_count = 0\<rparr>" "[]" 1 demo_node]
  by (simp add: handle_request_vote_def demo_node_def last_log_term_def)

end
