(* ===== verification/Raft_Safety.thy ===== *)
theory Raft_Safety
  imports Raft
begin

text \<open>
  A cluster of nodes of \<^verbatim>\<open>Raft\<close> that exchange messages in any order, with any delay, loss and repetition: election
  safety and log matching. A message once sent stays available; delivering it any number of times, or never, are
  runs of the model. An answer is tied to the request it answers, as the source's worker threads are.
\<close>

section \<open>The cluster\<close>

record election =
  el_term :: u64
  el_votes :: "NodeId list"

text \<open>
  \<^verbatim>\<open>cl_grants\<close> (term, voter, candidate), \<^verbatim>\<open>cl_leaders\<close> (term, node) and \<^verbatim>\<open>cl_tlog\<close> (the log of the leader of a term)
  record what happened; no step depends on them.
\<close>

record cluster =
  cl_node :: "NodeId \<Rightarrow> RaftNode"
  cl_election :: "NodeId \<Rightarrow> election option"
  cl_vote_reqs :: "(NodeId \<times> NodeId \<times> RequestVoteArgs) list"
  cl_vote_resps :: "(NodeId \<times> NodeId \<times> u64 \<times> RequestVoteResult) list"
  cl_snaps :: "(NodeId \<times> u64 \<times> nat) list"
  cl_app_reqs :: "(NodeId \<times> NodeId \<times> AppendEntriesHeader \<times> LogEntry list) list"
  cl_app_resps :: "(NodeId \<times> NodeId \<times> u64 \<times> nat \<times> nat \<times> AppendEntriesResult) list"
  cl_grants :: "(u64 \<times> NodeId \<times> NodeId) list"
  cl_leaders :: "(u64 \<times> NodeId) list"
  cl_tlog :: "u64 \<Rightarrow> LogEntry list"

definition new_node :: "NodeId list \<Rightarrow> EngineImpl \<Rightarrow> NodeId \<Rightarrow> RaftNode" where
  "new_node ids e i = \<lparr>rn_id = i, rn_peers = filter (\<lambda>p. p \<noteq> i) ids, rn_role = Follower, rn_current_term = 0, rn_voted_for = 0,
     rn_has_voted_this_term = False, rn_log = [], rn_commit_index = 0, rn_last_applied = 0, rn_current_leader = 0, rn_has_leader = False,
     rn_next_index = (\<lambda>p. 0), rn_match_index = (\<lambda>p. 0), rn_engine = e\<rparr>"

definition new_cluster :: "NodeId list \<Rightarrow> EngineImpl \<Rightarrow> cluster" where
  "new_cluster ids e = \<lparr>cl_node = new_node ids e, cl_election = (\<lambda>i. None), cl_vote_reqs = [], cl_vote_resps = [], cl_snaps = [],
     cl_app_reqs = [], cl_app_resps = [], cl_grants = [], cl_leaders = [], cl_tlog = (\<lambda>T. [])\<rparr>"

definition set_node :: "NodeId \<Rightarrow> RaftNode \<Rightarrow> cluster \<Rightarrow> cluster" where
  "set_node i n c = c\<lparr>cl_node := (cl_node c)(i := n)\<rparr>"

datatype raft_action =
    AStart NodeId
  | AVoteReq nat
  | AVoteResp nat
  | AFinish NodeId
  | APropose NodeId AddRuleCommand
  | ASnap NodeId
  | ASend nat NodeId
  | AAppReq nat
  | AAppResp nat
  | AAdvance nat

text \<open>
  One step. \<^verbatim>\<open>AStart\<close>: the tick of a node that is not leader and has no election running; \<^verbatim>\<open>AVoteReq\<close>, \<^verbatim>\<open>AVoteResp\<close>,
  \<^verbatim>\<open>AAppReq\<close>, \<^verbatim>\<open>AAppResp\<close>: delivery of the message with that number; \<^verbatim>\<open>AFinish\<close>: the workers of an election are joined;
  \<^verbatim>\<open>ASnap\<close>, \<^verbatim>\<open>ASend\<close>, \<^verbatim>\<open>AAdvance\<close>: the three blocks of \<^verbatim>\<open>replicate_to_all_peers\<close>. A step that does not apply changes nothing.
\<close>

fun raft_exec :: "NodeId list \<Rightarrow> raft_action \<Rightarrow> cluster \<Rightarrow> cluster option" where
  "raft_exec ids (AStart i) c =
     (if i \<in> set ids \<and> cl_election c i = None \<and> rn_role (cl_node c i) \<noteq> Leader
      then (case begin_election (cl_node c i) of (args, n) \<Rightarrow>
              Some ((set_node i n c)\<lparr>cl_grants := (ra_term args, i, i) # cl_grants c,
                cl_vote_reqs := cl_vote_reqs c @ map (\<lambda>p. (i, p, args)) (rn_peers n),
                cl_election := (cl_election c)(i \<mapsto> \<lparr>el_term = ra_term args, el_votes = []\<rparr>)\<rparr>))
      else Some c)"
| "raft_exec ids (AVoteReq k) c =
     (if k < length (cl_vote_reqs c)
      then (case cl_vote_reqs c ! k of (cand, v, args) \<Rightarrow>
              case handle_request_vote cand args (cl_node c v) of (res, n) \<Rightarrow>
                Some ((set_node v n c)\<lparr>cl_grants := (if rr_vote_granted res then [(rr_term res, v, cand)] else []) @ cl_grants c,
                  cl_vote_resps := cl_vote_resps c @ [(v, cand, ra_term args, res)]\<rparr>))
      else Some c)"
| "raft_exec ids (AVoteResp k) c =
     (if k < length (cl_vote_resps c)
      then (case cl_vote_resps c ! k of (v, cand, t, res) \<Rightarrow>
              case cl_election c cand of
                None \<Rightarrow> Some c
              | Some el \<Rightarrow>
                  if el_term el = t \<and> v \<notin> set (el_votes el)
                  then (case vote_answer t res (cl_node c cand) of (counts, n) \<Rightarrow>
                          Some ((set_node cand n c)\<lparr>cl_election :=
                            (cl_election c)(cand \<mapsto> el\<lparr>el_votes := (if counts then [v] else []) @ el_votes el\<rparr>)\<rparr>))
                  else Some c)
      else Some c)"
| "raft_exec ids (AFinish i) c =
     (case cl_election c i of
        None \<Rightarrow> Some c
      | Some el \<Rightarrow>
          (case finish_election (el_term el) (1 + length (el_votes el)) (cl_node c i) of (won, n) \<Rightarrow>
             let c = (set_node i n c)\<lparr>cl_election := (cl_election c)(i := None)\<rparr>
             in Some (if won then c\<lparr>cl_leaders := (el_term el, i) # cl_leaders c, cl_tlog := (cl_tlog c)(el_term el := rn_log n)\<rparr> else c)))"
| "raft_exec ids (APropose i cmd) c =
     (if i \<in> set ids
      then (case propose_append cmd (cl_node c i) of (r, n) \<Rightarrow>
              Some ((set_node i n c)\<lparr>cl_tlog := (if r = None then cl_tlog c else (cl_tlog c)(rn_current_term n := rn_log n))\<rparr>))
      else Some c)"
| "raft_exec ids (ASnap i) c =
     (if i \<in> set ids
      then (case replicate_snapshot (cl_node c i) of None \<Rightarrow> Some c | Some (t, k) \<Rightarrow> Some (c\<lparr>cl_snaps := cl_snaps c @ [(i, t, k)]\<rparr>))
      else Some c)"
| "raft_exec ids (ASend k p) c =
     (if k < length (cl_snaps c)
      then (case cl_snaps c ! k of (i, t, ci) \<Rightarrow>
              if p \<in> set (rn_peers (cl_node c i))
              then (case replicate_request p t ci (cl_node c i) of
                      None \<Rightarrow> Some c
                    | Some (hdr, es) \<Rightarrow> Some (c\<lparr>cl_app_reqs := cl_app_reqs c @ [(i, p, hdr, es)]\<rparr>))
              else Some c)
      else Some c)"
| "raft_exec ids (AAppReq k) c =
     (if k < length (cl_app_reqs c)
      then (case cl_app_reqs c ! k of (l, p, hdr, es) \<Rightarrow>
              map_option (\<lambda>(res, n). (set_node p n c)\<lparr>cl_app_resps := cl_app_resps c @ [(p, l, ah_term hdr, ah_prev_log_index hdr, length es, res)]\<rparr>)
                (handle_append_entries l hdr es (cl_node c p)))
      else Some c)"
| "raft_exec ids (AAppResp k) c =
     (if k < length (cl_app_resps c)
      then (case cl_app_resps c ! k of (p, l, t, prev, sent, res) \<Rightarrow> Some (set_node l (replicate_answer p t prev sent res (cl_node c l)) c))
      else Some c)"
| "raft_exec ids (AAdvance k) c =
     (if k < length (cl_snaps c)
      then (case cl_snaps c ! k of (i, t, ci) \<Rightarrow> map_option (\<lambda>n. set_node i n c) (advance_commit t (cl_node c i)))
      else Some c)"

fun raft_run :: "NodeId list \<Rightarrow> raft_action list \<Rightarrow> cluster \<Rightarrow> cluster option" where
  "raft_run ids [] c = Some c"
| "raft_run ids (a # as) c = Option.bind (raft_exec ids a c) (raft_run ids as)"

section \<open>How a node may change\<close>

text \<open>Terms do not decrease, a vote is kept within its term, and a node does not become leader by itself.\<close>

definition evolves :: "RaftNode \<Rightarrow> RaftNode \<Rightarrow> bool" where
  "evolves n n' \<longleftrightarrow> rn_id n' = rn_id n \<and> rn_peers n' = rn_peers n \<and> rn_current_term n \<le> rn_current_term n' \<and>
     (rn_current_term n' = rn_current_term n \<longrightarrow> rn_has_voted_this_term n \<longrightarrow> rn_has_voted_this_term n' \<and> rn_voted_for n' = rn_voted_for n) \<and>
     (rn_role n' = Leader \<longrightarrow> rn_role n = Leader \<and> rn_current_term n' = rn_current_term n)"

text \<open>The log stays, and so do the positions of a leader.\<close>

definition keeps_log :: "RaftNode \<Rightarrow> RaftNode \<Rightarrow> bool" where
  "keeps_log n n' \<longleftrightarrow> rn_log n' = rn_log n \<and>
     (rn_role n' = Leader \<longrightarrow> rn_role n = Leader \<and> rn_current_term n' = rn_current_term n \<and> rn_next_index n' = rn_next_index n)"

lemma apply_fields:
  "rn_commit_index n \<le> length (rn_log n) \<Longrightarrow>
   \<exists>n'. apply_committed_entries n = Some n' \<and> evolves n n' \<and> keeps_log n n' \<and> rn_current_term n' = rn_current_term n"
proof (induction n rule: apply_committed_entries.induct)
  case (1 n)
  show ?case
  proof (cases "rn_last_applied n < rn_commit_index n")
    case False
    then show ?thesis by (subst apply_committed_entries.simps) (simp add: evolves_def keeps_log_def)
  next
    case True
    let ?e = "rn_log n ! rn_last_applied n"
    define n1 where "n1 = (if le_is_noop ?e = 0
                          then n\<lparr>rn_engine := snd (engine_add_rule True (ac_rule_id (le_command ?e)) (ac_event_id (le_command ?e)) (ac_threshold (le_command ?e))
                                 (ac_comparator (le_command ?e)) (ac_severity (le_command ?e)) (rn_engine n))\<rparr> else n)"
    let ?n2 = "n1\<lparr>rn_last_applied := rn_last_applied n1 + 1\<rparr>"
    have l: "\<not> length (rn_log n) \<le> rn_last_applied n" using True 1(2) by simp
    have "rn_commit_index ?n2 \<le> length (rn_log ?n2)" using 1(2) by (simp add: n1_def)
    then obtain n' where n': "apply_committed_entries ?n2 = Some n'" "evolves ?n2 n'" "keeps_log ?n2 n'" "rn_current_term n' = rn_current_term ?n2"
      using 1(1) [OF True l refl refl n1_def] by blast
    have "apply_committed_entries n = apply_committed_entries ?n2"
      using True l by (subst apply_committed_entries.simps) (simp add: n1_def Let_def)
    then show ?thesis using n' by (auto simp: evolves_def keeps_log_def n1_def split: if_splits)
  qed
qed

lemma vote_evolves:
  "handle_request_vote c args n = (res, n') \<Longrightarrow>
   evolves n n' \<and> keeps_log n n' \<and> rr_term res = rn_current_term n' \<and>
   (rr_vote_granted res \<longrightarrow> rn_has_voted_this_term n' \<and> rn_voted_for n' = c) \<and>
   rn_current_term n' = max (rn_current_term n) (ra_term args)"
  by (auto simp: handle_request_vote_def Let_def evolves_def keeps_log_def max_def split: if_splits)

lemma answer_evolves:
  "vote_answer t res n = (b, n') \<Longrightarrow>
   evolves n n' \<and> keeps_log n n' \<and> (b \<longrightarrow> rr_vote_granted res \<and> rr_term res = t) \<and> rn_current_term n' = max (rn_current_term n) (rr_term res)"
  by (auto simp: vote_answer_def evolves_def keeps_log_def max_def split: if_splits)

lemma replicate_answer_evolves:
  "evolves n (replicate_answer p t prev sent res n) \<and>
   rn_log (replicate_answer p t prev sent res n) = rn_log n \<and>
   rn_current_term (replicate_answer p t prev sent res n) = max (rn_current_term n) (ar_term res)"
  by (auto simp: replicate_answer_def evolves_def max_def)

lemma commit_search_le: "commit_search n k = Some j \<Longrightarrow> j \<le> k"
  by (induction k) (auto split: if_splits)

lemma advance_evolves:
  "\<exists>n'. advance_commit t n = Some n' \<and> evolves n n' \<and> keeps_log n n' \<and> rn_current_term n' = rn_current_term n"
proof (cases "rn_role n \<noteq> Leader \<or> rn_current_term n \<noteq> t \<or> commit_search n (length (rn_log n)) = None")
  case True
  then show ?thesis by (auto simp: advance_commit_def evolves_def keeps_log_def)
next
  case False
  then obtain k where k: "commit_search n (length (rn_log n)) = Some k" by auto
  let ?n = "n\<lparr>rn_commit_index := k\<rparr>"
  obtain n' where "apply_committed_entries ?n = Some n'" "evolves ?n n'" "keeps_log ?n n'" "rn_current_term n' = rn_current_term ?n"
    using apply_fields [of ?n] commit_search_le [OF k] by auto
  then show ?thesis using False k by (auto simp: advance_commit_def evolves_def keeps_log_def)
qed

text \<open>What a follower's log is after a request, and that the handler always returns.\<close>

definition append_log :: "AppendEntriesHeader \<Rightarrow> LogEntry list \<Rightarrow> RaftNode \<Rightarrow> LogEntry list" where
  "append_log hdr es n =
     (if ah_term hdr < rn_current_term n \<or> length (rn_log n) < ah_prev_log_index hdr then rn_log n
      else if 0 < ah_prev_log_index hdr \<and> le_term (rn_log n ! (ah_prev_log_index hdr - 1)) \<noteq> ah_prev_log_term hdr
      then take (ah_prev_log_index hdr - 1) (rn_log n)
      else merge_entries (ah_prev_log_index hdr) es (rn_log n))"

lemma append_evolves:
  "\<exists>res n'. handle_append_entries l hdr es n = Some (res, n') \<and> evolves n n' \<and> rn_log n' = append_log hdr es n \<and>
     rn_current_term n' = max (rn_current_term n) (ah_term hdr) \<and> ar_term res = rn_current_term n' \<and>
     (rn_role n' = Leader \<longrightarrow> n' = n \<and> ah_term hdr < rn_current_term n)"
proof (cases "ah_term hdr < rn_current_term n")
  case True
  then show ?thesis by (auto simp: handle_append_entries_def evolves_def append_log_def max_def)
next
  case ge: False
  let ?n0 = "if rn_current_term n < ah_term hdr then n\<lparr>rn_current_term := ah_term hdr, rn_has_voted_this_term := False\<rparr> else n"
  let ?n1 = "?n0\<lparr>rn_role := Follower, rn_current_leader := l, rn_has_leader := True\<rparr>"
  have e1: "evolves n ?n1" "rn_log ?n1 = rn_log n" "rn_current_term ?n1 = max (rn_current_term n) (ah_term hdr)" "rn_role ?n1 = Follower"
    using ge by (auto simp: evolves_def max_def)
  show ?thesis
  proof (cases "0 < ah_prev_log_index hdr \<and> (length (rn_log n) < ah_prev_log_index hdr \<or>
      le_term (rn_log n ! (ah_prev_log_index hdr - 1)) \<noteq> ah_prev_log_term hdr)")
    case True
    then show ?thesis using ge e1 by (auto simp: handle_append_entries_def append_log_def Let_def evolves_def)
  next
    case False
    let ?log = "merge_entries (ah_prev_log_index hdr) es (rn_log n)"
    let ?n2 = "?n1\<lparr>rn_log := ?log\<rparr>"
    let ?n3 = "?n2\<lparr>rn_commit_index := min (ah_leader_commit hdr) (length ?log)\<rparr>"
    have al: "append_log hdr es n = ?log" using False ge by (auto simp: append_log_def)
    obtain n3 where n3: "apply_committed_entries ?n3 = Some n3" "evolves ?n3 n3" "keeps_log ?n3 n3" "rn_current_term n3 = rn_current_term ?n3"
      using apply_fields [of ?n3] by auto
    have h: "handle_append_entries l hdr es n =
        map_option (\<lambda>n. (\<lparr>ar_term = rn_current_term n, ar_success = True, ar_match_index = length (rn_log n)\<rparr>, n))
          (if rn_commit_index ?n2 < ah_leader_commit hdr then apply_committed_entries ?n3 else Some ?n2)"
      using False ge e1(2) by (auto simp: handle_append_entries_def Let_def)
    show ?thesis
    proof (cases "rn_commit_index ?n2 < ah_leader_commit hdr")
      case True
      have "evolves n n3" "rn_log n3 = ?log" "rn_role n3 \<noteq> Leader" using n3(2,3) e1(1,3) by (auto simp: evolves_def keeps_log_def)
      then show ?thesis using h True n3(1,4) e1(3) al by auto
    next
      case f: False
      have "evolves n ?n2" using e1(1) by (auto simp: evolves_def)
      then show ?thesis using h f e1(3) al by auto
    qed
  qed
qed

section \<open>Election safety\<close>

definition el_nodes :: "NodeId list \<Rightarrow> nat \<Rightarrow> cluster \<Rightarrow> bool" where
  "el_nodes ids N c \<longleftrightarrow> (\<forall>i. rn_id (cl_node c i) = i \<and> rn_peers (cl_node c i) = filter (\<lambda>p. p \<noteq> i) ids \<and> unat (rn_current_term (cl_node c i)) \<le> N)"

definition el_msgs :: "NodeId list \<Rightarrow> nat \<Rightarrow> cluster \<Rightarrow> bool" where
  "el_msgs ids N c \<longleftrightarrow>
     (\<forall>(cand, v, args) \<in> set (cl_vote_reqs c). v \<in> set ids \<and> v \<noteq> cand \<and> unat (ra_term args) \<le> N) \<and>
     (\<forall>(v, cand, t, res) \<in> set (cl_vote_resps c). v \<in> set ids \<and> v \<noteq> cand \<and> unat (rr_term res) \<le> N \<and>
        (rr_vote_granted res \<longrightarrow> (rr_term res, v, cand) \<in> set (cl_grants c))) \<and>
     (\<forall>(l, p, hdr, es) \<in> set (cl_app_reqs c). unat (ah_term hdr) \<le> N) \<and>
     (\<forall>(p, l, t, prev, sent, res) \<in> set (cl_app_resps c). unat (ar_term res) \<le> N)"

definition el_grants :: "cluster \<Rightarrow> bool" where
  "el_grants c \<longleftrightarrow>
     (\<forall>T v d. (T, v, d) \<in> set (cl_grants c) \<longrightarrow> T \<le> rn_current_term (cl_node c v) \<and>
        (T = rn_current_term (cl_node c v) \<longrightarrow> rn_has_voted_this_term (cl_node c v) \<and> rn_voted_for (cl_node c v) = d)) \<and>
     (\<forall>T v d d'. (T, v, d) \<in> set (cl_grants c) \<longrightarrow> (T, v, d') \<in> set (cl_grants c) \<longrightarrow> d = d')"

definition el_running :: "NodeId list \<Rightarrow> cluster \<Rightarrow> bool" where
  "el_running ids c \<longleftrightarrow> (\<forall>i el. cl_election c i = Some el \<longrightarrow> i \<in> set ids \<and> el_term el \<le> rn_current_term (cl_node c i) \<and> (el_term el, i) \<notin> set (cl_leaders c) \<and>
     distinct (i # el_votes el) \<and> set (el_votes el) \<subseteq> set ids \<and> (\<forall>v \<in> set (i # el_votes el). (el_term el, v, i) \<in> set (cl_grants c)))"

definition elected :: "NodeId list \<Rightarrow> cluster \<Rightarrow> u64 \<Rightarrow> NodeId \<Rightarrow> bool" where
  "elected ids c T d \<longleftrightarrow> (\<exists>Q. distinct Q \<and> set Q \<subseteq> set ids \<and> length ids div 2 + 1 \<le> length Q \<and> (\<forall>v \<in> set Q. (T, v, d) \<in> set (cl_grants c)))"

definition el_leaders :: "NodeId list \<Rightarrow> cluster \<Rightarrow> bool" where
  "el_leaders ids c \<longleftrightarrow>
     (\<forall>T d. (T, d) \<in> set (cl_leaders c) \<longrightarrow> T \<le> rn_current_term (cl_node c d) \<and> elected ids c T d) \<and>
     (\<forall>i. rn_role (cl_node c i) = Leader \<longrightarrow> (rn_current_term (cl_node c i), i) \<in> set (cl_leaders c))"

definition election_inv :: "NodeId list \<Rightarrow> nat \<Rightarrow> cluster \<Rightarrow> bool" where
  "election_inv ids N c \<longleftrightarrow> el_nodes ids N c \<and> el_msgs ids N c \<and> el_grants c \<and> el_running ids c \<and> el_leaders ids c"

lemmas election_defs = election_inv_def el_nodes_def el_msgs_def el_grants_def el_running_def el_leaders_def

text \<open>Two majorities share a voter, who votes once per term.\<close>

lemma majorities_meet:
  assumes "distinct Q" "distinct Q'" "set Q \<subseteq> set ids" "set Q' \<subseteq> set ids" "length ids div 2 + 1 \<le> length Q" "length ids div 2 + 1 \<le> length Q'"
  shows "set Q \<inter> set Q' \<noteq> {}"
proof
  assume "set Q \<inter> set Q' = {}"
  then have "card (set Q \<union> set Q') = length Q + length Q'" using assms(1,2) by (simp add: card_Un_disjoint distinct_card)
  moreover have "card (set Q \<union> set Q') \<le> card (set ids)" using assms(3,4) by (intro card_mono) auto
  moreover have "card (set ids) \<le> length ids" by (rule card_length)
  ultimately show False using assms(5,6) by linarith
qed

lemma elected_unique:
  assumes "el_grants c" "elected ids c T d" "elected ids c T d'"
  shows "d = d'"
proof -
  obtain Q Q' where Q: "distinct Q" "set Q \<subseteq> set ids" "length ids div 2 + 1 \<le> length Q" "\<forall>v \<in> set Q. (T, v, d) \<in> set (cl_grants c)"
    "distinct Q'" "set Q' \<subseteq> set ids" "length ids div 2 + 1 \<le> length Q'" "\<forall>v \<in> set Q'. (T, v, d') \<in> set (cl_grants c)"
    using assms(2,3) unfolding elected_def by blast
  then obtain v where "v \<in> set Q" "v \<in> set Q'" using majorities_meet [of Q Q' ids] by blast
  then show ?thesis using Q(4,8) assms(1) unfolding el_grants_def by blast
qed

text \<open>Replacing a node by one it evolves to.\<close>

lemma set_node_simps [simp]:
  "cl_node (set_node i n c) = (cl_node c)(i := n)" "cl_election (set_node i n c) = cl_election c" "cl_vote_reqs (set_node i n c) = cl_vote_reqs c"
  "cl_vote_resps (set_node i n c) = cl_vote_resps c" "cl_snaps (set_node i n c) = cl_snaps c" "cl_app_reqs (set_node i n c) = cl_app_reqs c"
  "cl_app_resps (set_node i n c) = cl_app_resps c" "cl_grants (set_node i n c) = cl_grants c" "cl_leaders (set_node i n c) = cl_leaders c"
  "cl_tlog (set_node i n c) = cl_tlog c"
  by (simp_all add: set_node_def)

lemma el_msgs_mono: "el_msgs ids N c \<Longrightarrow> N \<le> N' \<Longrightarrow> el_msgs ids N' c"
  unfolding el_msgs_def by fastforce

lemma el_grants_evolve:
  assumes "el_grants c" "evolves (cl_node c i) n"
  shows "el_grants (set_node i n c)"
proof -
  let ?n = "cl_node c i"
  have "T \<le> rn_current_term n \<and> (T = rn_current_term n \<longrightarrow> rn_has_voted_this_term n \<and> rn_voted_for n = d)" if g: "(T, i, d) \<in> set (cl_grants c)" for T d
  proof -
    have o: "T \<le> rn_current_term ?n" "T = rn_current_term ?n \<longrightarrow> rn_has_voted_this_term ?n \<and> rn_voted_for ?n = d"
      using assms(1) g unfolding el_grants_def by blast+
    have m: "rn_current_term ?n \<le> rn_current_term n" using assms(2) by (simp add: evolves_def)
    then show ?thesis using o assms(2) order_antisym [of T "rn_current_term ?n"] unfolding evolves_def by auto
  qed
  then show ?thesis using assms(1) unfolding el_grants_def by simp
qed

lemma election_evolve:
  assumes "election_inv ids N c" "N \<le> N'" "evolves (cl_node c i) n" "unat (rn_current_term n) \<le> N'"
  shows "election_inv ids N' (set_node i n c)"
proof -
  have le: "rn_current_term (cl_node c i) \<le> rn_current_term n" using assms(3) by (simp add: evolves_def)
  have "el_nodes ids N' (set_node i n c)" using assms unfolding election_inv_def el_nodes_def evolves_def by (auto intro: order_trans)
  moreover have "el_msgs ids N' (set_node i n c)" using assms(1,2) el_msgs_mono [of ids N c N'] by (simp add: election_inv_def el_msgs_def)
  moreover have "el_grants (set_node i n c)" using assms(1,3) by (simp add: election_inv_def el_grants_evolve)
  moreover have "el_running ids (set_node i n c)" using assms(1) le unfolding election_inv_def el_running_def by (auto intro: order_trans)
  moreover have "el_leaders ids (set_node i n c)"
    using assms(1,3) le unfolding election_inv_def el_leaders_def elected_def evolves_def by (auto intro: order_trans)
  ultimately show ?thesis by (simp add: election_inv_def)
qed

text \<open>Recording a vote the voter has just given.\<close>

lemma election_grant:
  assumes "election_inv ids N c" "rn_current_term (cl_node c v) = T" "rn_has_voted_this_term (cl_node c v)" "rn_voted_for (cl_node c v) = d"
  shows "election_inv ids N (c\<lparr>cl_grants := (T, v, d) # cl_grants c\<rparr>)"
proof -
  have g: "el_grants c" using assms(1) by (simp add: election_inv_def)
  have same: "d = d'" if "(T, v, d') \<in> set (cl_grants c)" for d' using g that assms(2,4) unfolding el_grants_def by blast
  have "el_grants (c\<lparr>cl_grants := (T, v, d) # cl_grants c\<rparr>)"
    using g same assms(2-4) unfolding el_grants_def by (auto dest: sym)
  moreover have "el_msgs ids N (c\<lparr>cl_grants := (T, v, d) # cl_grants c\<rparr>)" using assms(1) unfolding election_inv_def el_msgs_def by fastforce
  moreover have "el_running ids (c\<lparr>cl_grants := (T, v, d) # cl_grants c\<rparr>)" using assms(1) unfolding election_inv_def el_running_def by auto
  moreover have "el_leaders ids (c\<lparr>cl_grants := (T, v, d) # cl_grants c\<rparr>)"
    using assms(1) unfolding election_inv_def el_leaders_def elected_def by (auto 0 4)
  ultimately show ?thesis using assms(1) by (simp add: election_inv_def el_nodes_def)
qed

text \<open>Recording a message or the progress of an election.\<close>

lemma election_vote_reqs:
  "election_inv ids N c \<Longrightarrow> \<forall>(cand, v, args) \<in> set ms. v \<in> set ids \<and> v \<noteq> cand \<and> unat (ra_term args) \<le> N \<Longrightarrow>
   election_inv ids N (c\<lparr>cl_vote_reqs := cl_vote_reqs c @ ms\<rparr>)"
  unfolding election_defs elected_def by auto

lemma election_vote_resp:
  "election_inv ids N c \<Longrightarrow> v \<in> set ids \<Longrightarrow> v \<noteq> cand \<Longrightarrow> unat (rr_term res) \<le> N \<Longrightarrow>
   (rr_vote_granted res \<longrightarrow> (rr_term res, v, cand) \<in> set (cl_grants c)) \<Longrightarrow>
   election_inv ids N (c\<lparr>cl_vote_resps := cl_vote_resps c @ [(v, cand, t, res)]\<rparr>)"
  unfolding election_defs elected_def by auto

lemma election_app:
  "election_inv ids N c \<Longrightarrow> unat (ah_term hdr) \<le> N \<Longrightarrow> election_inv ids N (c\<lparr>cl_app_reqs := cl_app_reqs c @ [(l, p, hdr, es)]\<rparr>)"
  "election_inv ids N c \<Longrightarrow> unat (ar_term res) \<le> N \<Longrightarrow> election_inv ids N (c\<lparr>cl_app_resps := cl_app_resps c @ [(p, l, t, prev, sent, res)]\<rparr>)"
  "election_inv ids N c \<Longrightarrow> election_inv ids N (c\<lparr>cl_snaps := x\<rparr>)"
  "election_inv ids N c \<Longrightarrow> election_inv ids N (c\<lparr>cl_tlog := y\<rparr>)"
  unfolding election_defs elected_def by auto

lemma election_running:
  "election_inv ids N c \<Longrightarrow> i \<in> set ids \<Longrightarrow> el_term el \<le> rn_current_term (cl_node c i) \<Longrightarrow> (el_term el, i) \<notin> set (cl_leaders c) \<Longrightarrow>
   distinct (i # el_votes el) \<Longrightarrow> set (el_votes el) \<subseteq> set ids \<Longrightarrow> \<forall>v \<in> set (i # el_votes el). (el_term el, v, i) \<in> set (cl_grants c) \<Longrightarrow>
   election_inv ids N (c\<lparr>cl_election := (cl_election c)(i \<mapsto> el)\<rparr>)"
  unfolding election_inv_def by (auto simp: el_nodes_def el_msgs_def el_grants_def el_running_def el_leaders_def elected_def)

lemma election_start:
  assumes inv: "election_inv ids N c" and N: "Suc N < 2 ^ 64" and b: "begin_election (cl_node c i) = (args, n)" and i: "i \<in> set ids"
  shows "election_inv ids (Suc N) ((set_node i n c)\<lparr>cl_grants := (ra_term args, i, i) # cl_grants c,
           cl_vote_reqs := cl_vote_reqs c @ map (\<lambda>p. (i, p, args)) (rn_peers n),
           cl_election := (cl_election c)(i \<mapsto> \<lparr>el_term = ra_term args, el_votes = []\<rparr>)\<rparr>)"
proof -
  let ?o = "cl_node c i" let ?T = "rn_current_term ?o + 1"
  have id: "rn_id ?o = i" "rn_peers ?o = filter (\<lambda>p. p \<noteq> i) ids" "unat (rn_current_term ?o) \<le> N"
    using inv by (auto simp: election_inv_def el_nodes_def)
  have T: "unat ?T = Suc (unat (rn_current_term ?o))" using id(3) N by (intro unat_succ64) simp
  have n: "ra_term args = ?T" "rn_current_term n = ?T" "rn_has_voted_this_term n" "rn_voted_for n = i" "rn_peers n = rn_peers ?o"
    and ev: "evolves ?o n"
    using b T id by (auto simp: begin_election_def Let_def evolves_def word_le_nat_alt)
  have new: "(?T, i) \<notin> set (cl_leaders c)"
  proof
    assume "(?T, i) \<in> set (cl_leaders c)"
    then have "?T \<le> rn_current_term ?o" using inv unfolding election_inv_def el_leaders_def by blast
    then show False using T by (simp add: word_le_nat_alt)
  qed
  have "election_inv ids (Suc N) (set_node i n c)" using election_evolve [OF inv _ ev] T id(3) n(2) by simp
  from election_grant [OF this, of i ?T i] n have g: "election_inv ids (Suc N) ((set_node i n c)\<lparr>cl_grants := (?T, i, i) # cl_grants c\<rparr>)" by simp
  have "\<forall>(cand, v, a) \<in> set (map (\<lambda>p. (i, p, args)) (rn_peers n)). v \<in> set ids \<and> v \<noteq> cand \<and> unat (ra_term a) \<le> Suc N"
    using n id T by auto
  from election_vote_reqs [OF g this] have r: "election_inv ids (Suc N)
      ((set_node i n c)\<lparr>cl_grants := (?T, i, i) # cl_grants c, cl_vote_reqs := cl_vote_reqs c @ map (\<lambda>p. (i, p, args)) (rn_peers n)\<rparr>)" by simp
  from election_running [OF r i, of "\<lparr>el_term = ?T, el_votes = []\<rparr>"] n new show ?thesis by simp
qed

lemma election_vote:
  assumes inv: "election_inv ids N c" and m: "(cand, v, args) \<in> set (cl_vote_reqs c)" and h: "handle_request_vote cand args (cl_node c v) = (res, n)"
  shows "election_inv ids N ((set_node v n c)\<lparr>cl_grants := (if rr_vote_granted res then [(rr_term res, v, cand)] else []) @ cl_grants c,
           cl_vote_resps := cl_vote_resps c @ [(v, cand, ra_term args, res)]\<rparr>)"
proof -
  note e = vote_evolves [OF h]
  have v: "v \<in> set ids" "v \<noteq> cand" "unat (ra_term args) \<le> N" using inv m by (auto simp: election_inv_def el_msgs_def)
  have t: "unat (rn_current_term n) \<le> N"
    using e v inv by (auto simp: max_def election_inv_def el_nodes_def)
  have 1: "election_inv ids N (set_node v n c)" using election_evolve [OF inv order_refl _ t] e by simp
  have 2: "election_inv ids N ((set_node v n c)\<lparr>cl_grants := (if rr_vote_granted res then [(rr_term res, v, cand)] else []) @ cl_grants c\<rparr>)"
    using election_grant [OF 1, of v "rr_term res" cand] 1 e by (cases "rr_vote_granted res") (simp_all add: set_node_def)
  from election_vote_resp [OF this v(1,2), of res "ra_term args"] t e show ?thesis by simp
qed

lemma election_answer:
  assumes inv: "election_inv ids N c" and m: "(v, cand, t, res) \<in> set (cl_vote_resps c)" and el: "cl_election c cand = Some el"
    and t: "el_term el = t" "v \<notin> set (el_votes el)" and h: "vote_answer t res (cl_node c cand) = (counts, n)"
  shows "election_inv ids N ((set_node cand n c)\<lparr>cl_election := (cl_election c)(cand \<mapsto> el\<lparr>el_votes := (if counts then [v] else []) @ el_votes el\<rparr>)\<rparr>)"
proof -
  note e = answer_evolves [OF h]
  have v: "v \<in> set ids" "v \<noteq> cand" "unat (rr_term res) \<le> N" "rr_vote_granted res \<longrightarrow> (rr_term res, v, cand) \<in> set (cl_grants c)"
    using inv m by (auto simp: election_inv_def el_msgs_def)
  have b: "unat (rn_current_term n) \<le> N" using e v inv by (auto simp: max_def election_inv_def el_nodes_def)
  have 1: "election_inv ids N (set_node cand n c)" using election_evolve [OF inv order_refl _ b] e by simp
  then have r: "el_running ids (set_node cand n c)" by (simp add: election_inv_def)
  then have f: "cand \<in> set ids" "el_term el \<le> rn_current_term n" "(el_term el, cand) \<notin> set (cl_leaders c)" "distinct (cand # el_votes el)"
      "set (el_votes el) \<subseteq> set ids" "\<forall>w \<in> set (cand # el_votes el). (el_term el, w, cand) \<in> set (cl_grants c)"
    using r [unfolded el_running_def, THEN spec, THEN spec, of cand el] el by simp_all
  from election_running [OF 1 f(1), of "el\<lparr>el_votes := (if counts then [v] else []) @ el_votes el\<rparr>"] f v e t show ?thesis by auto
qed

lemma election_finish:
  assumes inv: "election_inv ids N c" and el: "cl_election c i = Some el" and d: "distinct ids"
    and h: "finish_election (el_term el) (1 + length (el_votes el)) (cl_node c i) = (won, n)"
  shows "(won \<longrightarrow> (\<forall>j. (el_term el, j) \<notin> set (cl_leaders c))) \<and>
    election_inv ids N ((set_node i n c)\<lparr>cl_election := (cl_election c)(i := None), cl_leaders := (if won then [(el_term el, i)] else []) @ cl_leaders c\<rparr>)"
proof -
  let ?o = "cl_node c i"
  have r: "i \<in> set ids" "(el_term el, i) \<notin> set (cl_leaders c)" "distinct (i # el_votes el)" "set (el_votes el) \<subseteq> set ids"
      "\<forall>v \<in> set (i # el_votes el). (el_term el, v, i) \<in> set (cl_grants c)" using inv el unfolding election_inv_def el_running_def by auto
  have nd: "rn_id ?o = i" "rn_peers ?o = filter (\<lambda>p. p \<noteq> i) ids" using inv by (auto simp: election_inv_def el_nodes_def)
  have "filter (\<lambda>p. p \<noteq> i) ids = removeAll i ids" by (induction ids) auto
  then have len: "length (filter (\<lambda>p. p \<noteq> i) ids) + 1 = length ids"
    using r(1) length_pos_if_in_set [OF r(1)] by (simp add: distinct_remove1_removeAll [OF d, symmetric] length_remove1)
  show ?thesis
  proof (cases won)
    case False
    then have n: "n = ?o" using h by (auto simp: finish_election_def split: if_splits)
    have "(cl_node c)(i := cl_node c i) = cl_node c" by simp
    then show ?thesis using inv False n unfolding election_defs elected_def by (auto simp: set_node_def)
  next
    case True
    then have w: "rn_role ?o = Candidate" "rn_current_term ?o = el_term el" "majority ?o \<le> 1 + length (el_votes el)"
      and n: "rn_id n = rn_id ?o" "rn_peers n = rn_peers ?o" "rn_current_term n = rn_current_term ?o" "rn_voted_for n = rn_voted_for ?o"
        "rn_has_voted_this_term n = rn_has_voted_this_term ?o"
      using h by (auto simp: finish_election_def split: if_splits)
    have q: "elected ids c (el_term el) i"
      unfolding elected_def by (rule exI [of _ "i # el_votes el"]) (use r w(3) nd(2) len in \<open>simp add: majority_def\<close>)
    have u: "(el_term el, j) \<notin> set (cl_leaders c)" for j
    proof
      assume j: "(el_term el, j) \<in> set (cl_leaders c)"
      then have "elected ids c (el_term el) j" "el_grants c" using inv unfolding election_inv_def el_leaders_def by blast+
      then show False using elected_unique q j r(2) by blast
    qed
    let ?c = "(set_node i n c)\<lparr>cl_election := (cl_election c)(i := None), cl_leaders := (el_term el, i) # cl_leaders c\<rparr>"
    have "el_nodes ids N ?c" "el_msgs ids N ?c" "el_grants ?c" using inv n unfolding election_defs by auto
    moreover have "el_running ids ?c" using inv n u unfolding election_defs by auto
    moreover have "el_leaders ids ?c"
    proof -
      have l: "(T, d) \<in> set (cl_leaders c) \<Longrightarrow> T \<le> rn_current_term (cl_node c d) \<and> elected ids c T d"
        "rn_role (cl_node c j) = Leader \<Longrightarrow> (rn_current_term (cl_node c j), j) \<in> set (cl_leaders c)" for T d j
        using inv unfolding election_inv_def el_leaders_def by blast+
      have "elected ids ?c = elected ids c" by (intro ext) (simp add: elected_def)
      then show ?thesis using l q n(3) w(2) unfolding el_leaders_def by simp metis
    qed
    ultimately show ?thesis using u True by (simp add: election_inv_def)
  qed
qed

section \<open>Log matching\<close>

text \<open>Every entry fixes all that is before it: up to it the log is that of the leader of its term.\<close>

definition log_ok :: "(u64 \<Rightarrow> LogEntry list) \<Rightarrow> LogEntry list \<Rightarrow> bool" where
  "log_ok lg L \<longleftrightarrow> (\<forall>k < length L. take (Suc k) L = take (Suc k) (lg (le_term (L ! k))))"

definition extends :: "(u64 \<Rightarrow> LogEntry list) \<Rightarrow> (u64 \<Rightarrow> LogEntry list) \<Rightarrow> bool" where
  "extends lg lg' \<longleftrightarrow> (\<forall>T. take (length (lg T)) (lg' T) = lg T)"

lemma log_ok_match:
  "log_ok lg L \<Longrightarrow> log_ok lg M \<Longrightarrow> k < length L \<Longrightarrow> k < length M \<Longrightarrow> le_term (L ! k) = le_term (M ! k) \<Longrightarrow> take (Suc k) L = take (Suc k) M"
  unfolding log_ok_def by metis

lemma log_ok_take: "log_ok lg L \<Longrightarrow> log_ok lg (take m L)"
  unfolding log_ok_def by (auto simp: min_def)

lemma extends_take:
  assumes "extends lg lg'" "k \<le> length (lg T)"
  shows "take k (lg' T) = take k (lg T)" "k \<le> length (lg' T)"
proof -
  have e: "take (length (lg T)) (lg' T) = lg T" using assms(1) by (simp add: extends_def)
  have "take k (lg T) = take k (take (length (lg T)) (lg' T))" unfolding e ..
  then show "take k (lg' T) = take k (lg T)" using assms(2) by (simp add: min_def)
  have "length (take (length (lg T)) (lg' T)) = length (lg T)" unfolding e ..
  then show "k \<le> length (lg' T)" using assms(2) by simp
qed

lemma log_ok_extends:
  assumes "log_ok lg L" "extends lg lg'"
  shows "log_ok lg' L"
  unfolding log_ok_def
proof (intro allI impI)
  fix k assume k: "k < length L"
  let ?T = "le_term (L ! k)"
  have t: "take (Suc k) L = take (Suc k) (lg ?T)" using assms(1) k by (simp add: log_ok_def)
  have "length (take (Suc k) (lg ?T)) = Suc k" unfolding t [symmetric] using k by simp
  then have "Suc k \<le> length (lg ?T)" by simp
  then show "take (Suc k) L = take (Suc k) (lg' ?T)" using t extends_take(1) [OF assms(2)] by simp
qed

text \<open>A log to which the leader of term \<^term>\<open>T\<close> adds an entry.\<close>

lemma log_ok_snoc:
  assumes "log_ok lg L" "extends lg lg'" "le_term e = T" "lg' T = L @ [e]"
  shows "log_ok lg' (L @ [e])"
proof -
  have o: "log_ok lg' L" using assms log_ok_extends by blast
  show ?thesis unfolding log_ok_def
  proof (intro allI impI)
    fix k assume "k < length (L @ [e])"
    then consider "k < length L" | "k = length L" by force
    then show "take (Suc k) (L @ [e]) = take (Suc k) (lg' (le_term ((L @ [e]) ! k)))"
    proof cases
      case 1
      then show ?thesis using o by (simp add: log_ok_def nth_append)
    next
      case 2
      then show ?thesis using assms(3,4) by simp
    qed
  qed
qed

lemma merge_log_ok:
  "log_ok lg L \<Longrightarrow> log_ok lg M \<Longrightarrow> take p L = take p M \<Longrightarrow> p \<le> length L \<Longrightarrow> p + length es \<le> length M \<Longrightarrow> take (length es) (drop p M) = es \<Longrightarrow>
   log_ok lg (merge_entries p es L)"
proof (induction es arbitrary: p L)
  case (Cons e es)
  have pM: "p < length M" using Cons.prems(5) by simp
  have e: "M ! p = e" and rest: "take (length es) (drop (Suc p) M) = es"
    using Cons.prems(6) by (simp_all add: Cons_nth_drop_Suc [OF pM, symmetric])
  let ?L = "if p < length L then (if le_term (L ! p) \<noteq> le_term e then take p L @ [e] else L) else L @ [e]"
  have M: "take (Suc p) M = take p M @ [e]" using pM e by (simp add: take_Suc_conv_app_nth)
  have "log_ok lg ?L \<and> take (Suc p) ?L = take (Suc p) M \<and> Suc p \<le> length ?L"
  proof (cases "p < length L \<and> le_term (L ! p) = le_term e")
    case True
    then show ?thesis using log_ok_match [OF Cons.prems(1,2), of p] pM e Cons.prems(1) by simp
  next
    case False
    then have "?L = take (Suc p) M" using M Cons.prems(3,4) by (cases "p < length L") auto
    then show ?thesis using log_ok_take [OF Cons.prems(2)] pM by simp
  qed
  then show ?case using Cons.IH [of ?L "Suc p"] Cons.prems(2,5) rest by simp
qed simp

definition req_ok :: "(u64 \<Rightarrow> LogEntry list) \<Rightarrow> AppendEntriesHeader \<Rightarrow> LogEntry list \<Rightarrow> bool" where
  "req_ok lg hdr es \<longleftrightarrow> (let M = lg (ah_term hdr); p = ah_prev_log_index hdr in
     p + length es \<le> length M \<and> take (length es) (drop p M) = es \<and> (0 < p \<longrightarrow> ah_prev_log_term hdr = le_term (M ! (p - 1))))"

lemma append_log_ok:
  assumes "log_ok lg (rn_log n)" "log_ok lg (lg (ah_term hdr))" "req_ok lg hdr es"
  shows "log_ok lg (append_log hdr es n)"
proof -
  let ?p = "ah_prev_log_index hdr" and ?M = "lg (ah_term hdr)" and ?L = "rn_log n"
  have r: "?p + length es \<le> length ?M" "take (length es) (drop ?p ?M) = es" "0 < ?p \<longrightarrow> ah_prev_log_term hdr = le_term (?M ! (?p - 1))"
    using assms(3) by (simp_all add: req_ok_def Let_def)
  have "log_ok lg (merge_entries ?p es ?L)" if p: "?p \<le> length ?L" "0 < ?p \<longrightarrow> le_term (?L ! (?p - 1)) = ah_prev_log_term hdr"
  proof -
    have "take ?p ?L = take ?p ?M"
    proof (cases ?p)
      case (Suc q)
      then show ?thesis using log_ok_match [OF assms(1,2), of q] p r by simp
    qed simp
    then show ?thesis using merge_log_ok [OF assms(1,2)] p(1) r by blast
  qed
  then show ?thesis using assms(1) log_ok_take by (auto simp: append_log_def)
qed

text \<open>A leader keeps the log of its term, sends pieces of it, and knows no position beyond its end.\<close>

definition leader_ok :: "(u64 \<Rightarrow> LogEntry list) \<Rightarrow> RaftNode \<Rightarrow> bool" where
  "leader_ok lg n \<longleftrightarrow> (rn_role n = Leader \<longrightarrow> rn_log n = lg (rn_current_term n) \<and>
     (\<forall>p \<in> set (rn_peers n). 1 \<le> rn_next_index n p \<and> rn_next_index n p \<le> length (rn_log n) + 1))"

definition log_inv :: "cluster \<Rightarrow> bool" where
  "log_inv c \<longleftrightarrow>
     (\<forall>T. log_ok (cl_tlog c) (cl_tlog c T)) \<and> (\<forall>T. (\<forall>j. (T, j) \<notin> set (cl_leaders c)) \<longrightarrow> cl_tlog c T = []) \<and>
     (\<forall>i. log_ok (cl_tlog c) (rn_log (cl_node c i)) \<and> leader_ok (cl_tlog c) (cl_node c i)) \<and>
     (\<forall>(l, p, hdr, es) \<in> set (cl_app_reqs c). (ah_term hdr, l) \<in> set (cl_leaders c) \<and> p \<noteq> l \<and> req_ok (cl_tlog c) hdr es) \<and>
     (\<forall>(p, l, t, prev, sent, res) \<in> set (cl_app_resps c). prev + sent \<le> length (cl_tlog c t))"

lemma req_ok_extends:
  assumes "req_ok lg hdr es" "extends lg lg'"
  shows "req_ok lg' hdr es"
proof -
  let ?p = "ah_prev_log_index hdr" and ?M = "lg (ah_term hdr)" and ?M' = "lg' (ah_term hdr)"
  have r: "?p + length es \<le> length ?M" "take (length es) (drop ?p ?M) = es" "0 < ?p \<longrightarrow> ah_prev_log_term hdr = le_term (?M ! (?p - 1))"
    using assms(1) by (simp_all add: req_ok_def Let_def)
  note x = extends_take [OF assms(2) r(1)]
  have "take (length es) (drop ?p ?M') = drop ?p (take (?p + length es) ?M')" by (simp add: take_drop add.commute)
  also have "\<dots> = take (length es) (drop ?p ?M)" unfolding x(1) by (simp add: take_drop add.commute)
  finally have d: "take (length es) (drop ?p ?M') = es" using r(2) by simp
  have "?M' ! (?p - 1) = ?M ! (?p - 1)" if "0 < ?p"
  proof -
    have "?M' ! (?p - 1) = take (?p + length es) ?M' ! (?p - 1)" using that by simp
    also have "\<dots> = ?M ! (?p - 1)" unfolding x(1) using that by simp
    finally show ?thesis .
  qed
  then show ?thesis using d x(2) r(3) by (simp add: req_ok_def Let_def)
qed

text \<open>Replacing a node whose log is as it must be.\<close>

lemma log_set_node:
  "log_inv c \<Longrightarrow> log_ok (cl_tlog c) (rn_log n) \<Longrightarrow> leader_ok (cl_tlog c) n \<Longrightarrow> log_inv (set_node i n c)"
  unfolding log_inv_def by auto

lemma log_keeps:
  assumes "log_inv c" "keeps_log (cl_node c i) n" "evolves (cl_node c i) n"
  shows "log_inv (set_node i n c)"
proof (rule log_set_node [OF assms(1)])
  have o: "log_ok (cl_tlog c) (rn_log (cl_node c i))" "leader_ok (cl_tlog c) (cl_node c i)" using assms(1) by (auto simp: log_inv_def)
  show "log_ok (cl_tlog c) (rn_log n)" using o(1) assms(2) by (simp add: keeps_log_def)
  show "leader_ok (cl_tlog c) n" using o(2) assms(2,3) by (auto simp: leader_ok_def keeps_log_def evolves_def)
qed

lemma log_other:
  "log_inv c \<Longrightarrow> log_inv (c\<lparr>cl_election := x1\<rparr>)" "log_inv c \<Longrightarrow> log_inv (c\<lparr>cl_vote_reqs := x2\<rparr>)"
  "log_inv c \<Longrightarrow> log_inv (c\<lparr>cl_vote_resps := x3\<rparr>)" "log_inv c \<Longrightarrow> log_inv (c\<lparr>cl_snaps := x4\<rparr>)" "log_inv c \<Longrightarrow> log_inv (c\<lparr>cl_grants := x5\<rparr>)"
  by (simp_all add: log_inv_def)

text \<open>The leader of term \<^term>\<open>T\<close> adds an entry: by \<^verbatim>\<open>propose\<close>, or on its election.\<close>

lemma log_leader_adds:
  assumes inv: "log_inv c" and L: "cl_tlog c T = [] \<or> cl_tlog c T = rn_log (cl_node c i)" and e: "le_term e = T"
    and n: "rn_log n = rn_log (cl_node c i) @ [e]" "rn_current_term n = T"
      "\<forall>p \<in> set (rn_peers n). 1 \<le> rn_next_index n p \<and> rn_next_index n p \<le> length (rn_log n) + 1"
    and others: "\<And>j. j \<noteq> i \<Longrightarrow> rn_role (cl_node c j) = Leader \<Longrightarrow> rn_current_term (cl_node c j) \<noteq> T"
  shows "log_inv ((set_node i n c)\<lparr>cl_leaders := (T, i) # cl_leaders c, cl_tlog := (cl_tlog c)(T := rn_log n)\<rparr>)"
proof -
  let ?t = "cl_tlog c"
  define t' where "t' = (cl_tlog c)(T := rn_log n)"
  have x: "extends ?t t'" using L n(1) by (auto simp: extends_def t'_def)
  have oi: "log_ok ?t (rn_log (cl_node c j))" "leader_ok ?t (cl_node c j)" "log_ok ?t (?t S)" for j S using inv by (auto simp: log_inv_def)
  have new: "log_ok t' (rn_log n)" using log_ok_snoc [OF oi(1) x e, of i] n(1) by (simp add: t'_def)
  have "log_ok t' (t' S)" for S using log_ok_extends [OF oi(3) x, of S] new by (simp add: t'_def)
  moreover have "log_ok t' (rn_log (((cl_node c)(i := n)) j))" for j using log_ok_extends [OF oi(1) x] new by simp
  moreover have "leader_ok t' (((cl_node c)(i := n)) j)" for j using oi(2) [of j] others [of j] n(2,3) by (auto simp: leader_ok_def t'_def)
  moreover have "\<forall>(p, l, t, prev, sent, res) \<in> set (cl_app_resps c). prev + sent \<le> length (t' t)"
    using inv extends_take(2) [OF x] by (fastforce simp: log_inv_def)
  moreover have "\<forall>(l, p, hdr, es) \<in> set (cl_app_reqs c). (ah_term hdr, l) \<in> set ((T, i) # cl_leaders c) \<and> p \<noteq> l \<and> req_ok t' hdr es"
    using inv req_ok_extends [OF _ x] by (fastforce simp: log_inv_def)
  moreover have "t' S = []" if "\<forall>j. (S, j) \<notin> set ((T, i) # cl_leaders c)" for S using inv that by (auto simp: log_inv_def t'_def)
  ultimately show ?thesis unfolding log_inv_def t'_def [symmetric] by simp
qed

lemma log_request:
  assumes inv: "log_inv c" and el: "election_inv ids N c" and r: "replicate_request p t ci (cl_node c i) = Some (hdr, es)" and p: "p \<in> set (rn_peers (cl_node c i))"
  shows "log_inv (c\<lparr>cl_app_reqs := cl_app_reqs c @ [(i, p, hdr, es)]\<rparr>) \<and> ah_term hdr = rn_current_term (cl_node c i)"
proof -
  let ?n = "cl_node c i"
  have n: "rn_role ?n = Leader" "rn_current_term ?n = t" using r by (auto simp: replicate_request_def split: if_splits)
  have "leader_ok (cl_tlog c) ?n" using inv by (simp add: log_inv_def)
  then have l: "rn_log ?n = cl_tlog c t" "1 \<le> rn_next_index ?n p" "rn_next_index ?n p \<le> length (rn_log ?n) + 1" using n p by (auto simp: leader_ok_def)
  have "(t, i) \<in> set (cl_leaders c)" "p \<noteq> i" using el n p by (auto simp: election_inv_def el_leaders_def el_nodes_def)
  moreover have "req_ok (cl_tlog c) hdr es \<and> ah_term hdr = t"
    using r n l by (auto simp: replicate_request_def Let_def req_ok_def min_def split: if_splits)
  ultimately show ?thesis using inv n(2) by (auto simp: log_inv_def)
qed

lemma log_append:
  assumes inv: "log_inv c" and m: "(l, p, hdr, es) \<in> set (cl_app_reqs c)" and el: "election_inv ids N c"
    and h: "handle_append_entries l hdr es (cl_node c p) = Some (res, n)"
  shows "log_inv ((set_node p n c)\<lparr>cl_app_resps := cl_app_resps c @ [(p, l, ah_term hdr, ah_prev_log_index hdr, length es, res)]\<rparr>)"
proof -
  have r: "req_ok (cl_tlog c) hdr es" using inv m by (auto simp: log_inv_def)
  obtain res' n' where e: "handle_append_entries l hdr es (cl_node c p) = Some (res', n')" "rn_log n' = append_log hdr es (cl_node c p)"
      "rn_role n' = Leader \<longrightarrow> n' = cl_node c p" using append_evolves by blast
  have o: "log_ok (cl_tlog c) (rn_log (cl_node c p))" "log_ok (cl_tlog c) (cl_tlog c (ah_term hdr))" "leader_ok (cl_tlog c) (cl_node c p)"
    using inv by (auto simp: log_inv_def)
  have "log_ok (cl_tlog c) (rn_log n)" using append_log_ok [OF o(1,2) r] e h by simp
  moreover have "leader_ok (cl_tlog c) n" using o(3) e h by (cases "rn_role n = Leader") (auto simp: leader_ok_def)
  ultimately have "log_inv (set_node p n c)" using log_set_node [OF inv] by blast
  then show ?thesis using r by (auto simp: log_inv_def req_ok_def Let_def)
qed

lemma log_answer:
  assumes inv: "log_inv c" and m: "(p, l, t, prev, sent, res) \<in> set (cl_app_resps c)"
  shows "log_inv (set_node l (replicate_answer p t prev sent res (cl_node c l)) c)"
proof (rule log_set_node [OF inv])
  let ?n = "cl_node c l"
  have o: "log_ok (cl_tlog c) (rn_log ?n)" "leader_ok (cl_tlog c) ?n" "prev + sent \<le> length (cl_tlog c t)" using inv m by (auto simp: log_inv_def)
  show "log_ok (cl_tlog c) (rn_log (replicate_answer p t prev sent res ?n))" using o(1) replicate_answer_evolves [of ?n p t prev sent res] by simp
  show "leader_ok (cl_tlog c) (replicate_answer p t prev sent res ?n)" using o(2,3) by (auto simp: leader_ok_def replicate_answer_def)
qed

section \<open>All steps\<close>

definition raft_inv :: "NodeId list \<Rightarrow> nat \<Rightarrow> cluster \<Rightarrow> bool" where
  "raft_inv ids N c \<longleftrightarrow> election_inv ids N c \<and> log_inv c"

lemma election_mono: "election_inv ids N c \<Longrightarrow> election_inv ids (Suc N) c"
  unfolding election_inv_def el_nodes_def using el_msgs_mono [of ids N c "Suc N"] le_SucI by blast

lemma raft_inv_mono: "raft_inv ids N c \<Longrightarrow> raft_inv ids (Suc N) c"
  by (simp add: raft_inv_def election_mono)

lemma leader_unique: "election_inv ids N c \<Longrightarrow> (T, i) \<in> set (cl_leaders c) \<Longrightarrow> (T, j) \<in> set (cl_leaders c) \<Longrightarrow> i = j"
  unfolding election_inv_def el_leaders_def using elected_unique by blast

lemma leader_known: "election_inv ids N c \<Longrightarrow> rn_role (cl_node c j) = Leader \<Longrightarrow> (rn_current_term (cl_node c j), j) \<in> set (cl_leaders c)"
  unfolding election_inv_def el_leaders_def by blast

lemma raft_start_step:
  assumes "raft_inv ids N c" "Suc N < 2 ^ 64" "i \<in> set ids" "begin_election (cl_node c i) = (args, n)"
  shows "raft_inv ids (Suc N) ((set_node i n c)\<lparr>cl_grants := (ra_term args, i, i) # cl_grants c,
           cl_vote_reqs := cl_vote_reqs c @ map (\<lambda>p. (i, p, args)) (rn_peers n),
           cl_election := (cl_election c)(i \<mapsto> \<lparr>el_term = ra_term args, el_votes = []\<rparr>)\<rparr>)"
proof -
  have e: "election_inv ids N c" "log_inv c" using assms(1) by (auto simp: raft_inv_def)
  have k: "rn_log n = rn_log (cl_node c i)" "rn_role n \<noteq> Leader" using assms(4) by (auto simp: begin_election_def Let_def)
  then have "log_inv (set_node i n c)" using e(2) by (intro log_set_node) (auto simp: log_inv_def leader_ok_def)
  then show ?thesis using election_start [OF e(1) assms(2,4,3)] by (simp add: raft_inv_def log_other)
qed

lemma raft_finish_step:
  assumes inv: "raft_inv ids N c" and d: "distinct ids" and el: "cl_election c i = Some el"
    and h: "finish_election (el_term el) (1 + length (el_votes el)) (cl_node c i) = (won, n)"
  shows "raft_inv ids N (let c = (set_node i n c)\<lparr>cl_election := (cl_election c)(i := None)\<rparr>
     in if won then c\<lparr>cl_leaders := (el_term el, i) # cl_leaders c, cl_tlog := (cl_tlog c)(el_term el := rn_log n)\<rparr> else c)"
proof -
  let ?c = "(set_node i n c)\<lparr>cl_election := (cl_election c)(i := None)\<rparr>"
  have e: "election_inv ids N c" "log_inv c" using inv by (auto simp: raft_inv_def)
  note f = election_finish [OF e(1) el d h]
  show ?thesis
  proof (cases won)
    case False
    then have n: "n = cl_node c i" using h by (auto simp: finish_election_def split: if_splits)
    have eq: "?c\<lparr>cl_leaders := cl_leaders c\<rparr> = ?c" by (rule cluster.equality) simp_all
    have "election_inv ids N (?c\<lparr>cl_leaders := cl_leaders c\<rparr>)" using f False by simp
    then have "election_inv ids N ?c" by (simp only: eq)
    moreover have "log_inv ?c" using e(2) n by (intro log_other log_set_node) (auto simp: log_inv_def)
    ultimately show ?thesis using False by (simp add: raft_inv_def)
  next
    case True
    then have n: "rn_current_term n = el_term el" "rn_log n = rn_log (cl_node c i) @ [\<lparr>le_term = el_term el, le_is_noop = 1, le_command = noop_command\<rparr>]"
        "rn_peers n = rn_peers (cl_node c i)" "\<forall>p \<in> set (rn_peers (cl_node c i)). rn_next_index n p = length (rn_log (cl_node c i)) + 1"
      using h by (auto simp: finish_election_def split: if_splits)
    have u: "(el_term el, j) \<notin> set (cl_leaders c)" for j using f True by blast
    have "log_inv ((set_node i n c)\<lparr>cl_leaders := (el_term el, i) # cl_leaders c, cl_tlog := (cl_tlog c)(el_term el := rn_log n)\<rparr>)"
    proof (rule log_leader_adds [OF e(2) _ _ n(2,1)])
      show "cl_tlog c (el_term el) = [] \<or> cl_tlog c (el_term el) = rn_log (cl_node c i)" using e(2) u by (auto simp: log_inv_def)
      show "rn_current_term (cl_node c j) \<noteq> el_term el" if "rn_role (cl_node c j) = Leader" for j using leader_known [OF e(1) that] u by metis
      show "\<forall>p \<in> set (rn_peers n). 1 \<le> rn_next_index n p \<and> rn_next_index n p \<le> length (rn_log n) + 1" using n(2-4) by simp
    qed simp
    then have "log_inv (?c\<lparr>cl_leaders := (el_term el, i) # cl_leaders c, cl_tlog := (cl_tlog c)(el_term el := rn_log n)\<rparr>)"
      by (simp add: log_inv_def)
    moreover have "election_inv ids N (?c\<lparr>cl_leaders := (el_term el, i) # cl_leaders c, cl_tlog := (cl_tlog c)(el_term el := rn_log n)\<rparr>)"
      using f True by (intro election_app) simp
    ultimately show ?thesis using True by (simp add: raft_inv_def)
  qed
qed

lemma raft_propose_step:
  assumes inv: "raft_inv ids N c" and h: "propose_append cmd (cl_node c i) = (r, n)"
  shows "raft_inv ids N ((set_node i n c)\<lparr>cl_tlog := (if r = None then cl_tlog c else (cl_tlog c)(rn_current_term n := rn_log n))\<rparr>)"
proof -
  have e: "election_inv ids N c" "log_inv c" using inv by (auto simp: raft_inv_def)
  let ?o = "cl_node c i" let ?T = "rn_current_term ?o"
  have ev: "evolves ?o n" "rn_current_term n = ?T" using h by (auto simp: propose_append_def evolves_def Let_def split: if_splits)
  have b: "unat ?T \<le> N" using e(1) by (simp add: election_inv_def el_nodes_def)
  have 1: "election_inv ids N ((set_node i n c)\<lparr>cl_tlog := x\<rparr>)" for x
    using election_evolve [OF e(1) order_refl ev(1)] ev(2) b by (intro election_app) simp
  show ?thesis
  proof (cases "rn_role ?o = Leader")
    case False
    then have "r = None" "n = ?o" using h by (auto simp: propose_append_def)
    then have "(set_node i n c)\<lparr>cl_tlog := (if r = None then cl_tlog c else (cl_tlog c)(rn_current_term n := rn_log n))\<rparr> = c"
      by (simp add: set_node_def)
    then show ?thesis using inv by (simp only:)
  next
    case True
    then have n: "rn_log n = rn_log ?o @ [\<lparr>le_term = ?T, le_is_noop = 0, le_command = cmd\<rparr>]" "r \<noteq> None" "rn_peers n = rn_peers ?o"
        "rn_next_index n = rn_next_index ?o" using h by (auto simp: propose_append_def Let_def)
    have l: "rn_log ?o = cl_tlog c ?T" "\<forall>p \<in> set (rn_peers ?o). 1 \<le> rn_next_index ?o p \<and> rn_next_index ?o p \<le> length (rn_log ?o) + 1"
      using e(2) True by (auto simp: log_inv_def leader_ok_def)
    have k: "(?T, i) \<in> set (cl_leaders c)" using leader_known [OF e(1) True] .
    have "log_inv ((set_node i n c)\<lparr>cl_leaders := (?T, i) # cl_leaders c, cl_tlog := (cl_tlog c)(?T := rn_log n)\<rparr>)"
    proof (rule log_leader_adds [OF e(2) _ _ n(1) ev(2)])
      show "cl_tlog c ?T = [] \<or> cl_tlog c ?T = rn_log ?o" using l(1) by simp
      show "rn_current_term (cl_node c j) \<noteq> ?T" if "j \<noteq> i" "rn_role (cl_node c j) = Leader" for j
        using leader_known [OF e(1) that(2)] leader_unique [OF e(1) k] that(1) by metis
      show "\<forall>p \<in> set (rn_peers n). 1 \<le> rn_next_index n p \<and> rn_next_index n p \<le> length (rn_log n) + 1" using l(2) n by fastforce
    qed simp
    then have "log_inv ((set_node i n c)\<lparr>cl_tlog := (cl_tlog c)(?T := rn_log n)\<rparr>)" using k by (simp add: log_inv_def insert_absorb)
    then show ?thesis using 1 n(2) ev(2) by (auto simp: raft_inv_def)
  qed
qed

lemma step_vote_req:
  assumes inv: "raft_inv ids N c"
  shows "\<exists>c'. raft_exec ids (AVoteReq k) c = Some c' \<and> raft_inv ids N c'"
proof (cases "k < length (cl_vote_reqs c)")
  case True
  obtain cand v args where m: "cl_vote_reqs c ! k = (cand, v, args)" by (metis prod_cases3)
  obtain res n where h: "handle_request_vote cand args (cl_node c v) = (res, n)" by (cases "handle_request_vote cand args (cl_node c v)")
  have e: "election_inv ids N c" "log_inv c" using inv by (auto simp: raft_inv_def)
  have i: "(cand, v, args) \<in> set (cl_vote_reqs c)" using nth_mem [OF True] m by simp
  have "log_inv (set_node v n c)" using log_keeps [OF e(2)] vote_evolves [OF h] by simp
  then show ?thesis using election_vote [OF e(1) i h] True m h by (simp add: raft_inv_def log_other)
qed (use inv in simp)

lemma step_vote_resp:
  assumes inv: "raft_inv ids N c"
  shows "\<exists>c'. raft_exec ids (AVoteResp k) c = Some c' \<and> raft_inv ids N c'"
proof (cases "k < length (cl_vote_resps c)")
  case True
  obtain v cand t res where m: "cl_vote_resps c ! k = (v, cand, t, res)" by (metis prod_cases4)
  have e: "election_inv ids N c" "log_inv c" using inv by (auto simp: raft_inv_def)
  have i: "(v, cand, t, res) \<in> set (cl_vote_resps c)" using nth_mem [OF True] m by simp
  show ?thesis
  proof (cases "\<exists>el. cl_election c cand = Some el \<and> el_term el = t \<and> v \<notin> set (el_votes el)")
    case f: False
    then show ?thesis using True m inv by (auto split: option.split)
  next
    case t: True
    then obtain el where el: "cl_election c cand = Some el" "el_term el = t" "v \<notin> set (el_votes el)" by blast
    obtain counts n where h: "vote_answer t res (cl_node c cand) = (counts, n)" by (cases "vote_answer t res (cl_node c cand)")
    have "log_inv (set_node cand n c)" using log_keeps [OF e(2)] answer_evolves [OF h] by simp
    then show ?thesis using election_answer [OF e(1) i el h] True m h el by (simp add: raft_inv_def log_other)
  qed
qed (use inv in simp)

lemma step_send:
  assumes inv: "raft_inv ids N c"
  shows "\<exists>c'. raft_exec ids (ASend k p) c = Some c' \<and> raft_inv ids N c'"
proof (cases "k < length (cl_snaps c)")
  case True
  obtain i t ci where m: "cl_snaps c ! k = (i, t, ci)" by (metis prod_cases3)
  have e: "election_inv ids N c" "log_inv c" using inv by (auto simp: raft_inv_def)
  have b: "unat (rn_current_term (cl_node c i)) \<le> N" using e(1) by (simp add: election_inv_def el_nodes_def)
  show ?thesis
  proof (cases "p \<in> set (rn_peers (cl_node c i)) \<and> replicate_request p t ci (cl_node c i) \<noteq> None")
    case f: False
    then show ?thesis using True m inv by (auto split: option.split)
  next
    case t: True
    then obtain hdr es where h: "replicate_request p t ci (cl_node c i) = Some (hdr, es)" by auto
    then show ?thesis using log_request [OF e(2,1) h] election_app(1) [OF e(1), of hdr i p es] b t True m by (simp add: raft_inv_def)
  qed
qed (use inv in simp)

lemma step_app_req:
  assumes inv: "raft_inv ids N c"
  shows "\<exists>c'. raft_exec ids (AAppReq k) c = Some c' \<and> raft_inv ids N c'"
proof (cases "k < length (cl_app_reqs c)")
  case True
  obtain l p hdr es where m: "cl_app_reqs c ! k = (l, p, hdr, es)" by (metis prod_cases4)
  have e: "election_inv ids N c" "log_inv c" using inv by (auto simp: raft_inv_def)
  have i: "(l, p, hdr, es) \<in> set (cl_app_reqs c)" using nth_mem [OF True] m by simp
  obtain res n where h: "handle_append_entries l hdr es (cl_node c p) = Some (res, n)" "evolves (cl_node c p) n"
      "rn_current_term n = max (rn_current_term (cl_node c p)) (ah_term hdr)" "ar_term res = rn_current_term n" using append_evolves by blast
  have "unat (ah_term hdr) \<le> N" using e(1) i by (auto simp: election_inv_def el_msgs_def)
  then have t: "unat (rn_current_term n) \<le> N" using h(3) e(1) by (simp add: max_def election_inv_def el_nodes_def)
  have "election_inv ids N (set_node p n c)" using election_evolve [OF e(1) order_refl h(2) t] .
  then have "election_inv ids N ((set_node p n c)\<lparr>cl_app_resps := cl_app_resps c @ [(p, l, ah_term hdr, ah_prev_log_index hdr, length es, res)]\<rparr>)"
    using election_app(2) [of ids N "set_node p n c" res p l] h(4) t by simp
  then show ?thesis using log_append [OF e(2) i e(1) h(1)] h(1) True m by (simp add: raft_inv_def)
qed (use inv in simp)

lemma step_app_resp:
  assumes inv: "raft_inv ids N c"
  shows "\<exists>c'. raft_exec ids (AAppResp k) c = Some c' \<and> raft_inv ids N c'"
proof (cases "k < length (cl_app_resps c)")
  case True
  obtain p l t prev sent res where m: "cl_app_resps c ! k = (p, l, t, prev, sent, res)" by (metis prod_cases6)
  have e: "election_inv ids N c" "log_inv c" using inv by (auto simp: raft_inv_def)
  have i: "(p, l, t, prev, sent, res) \<in> set (cl_app_resps c)" using nth_mem [OF True] m by simp
  have "unat (ar_term res) \<le> N" using e(1) i by (auto simp: election_inv_def el_msgs_def)
  then have "unat (rn_current_term (replicate_answer p t prev sent res (cl_node c l))) \<le> N"
    using replicate_answer_evolves [of "cl_node c l" p t prev sent res] e(1) by (simp add: max_def election_inv_def el_nodes_def)
  then show ?thesis using log_answer [OF e(2) i] election_evolve [OF e(1) order_refl] replicate_answer_evolves [of "cl_node c l" p t prev sent res] True m
    by (simp add: raft_inv_def)
qed (use inv in simp)

lemma step_advance:
  assumes inv: "raft_inv ids N c"
  shows "\<exists>c'. raft_exec ids (AAdvance k) c = Some c' \<and> raft_inv ids N c'"
proof (cases "k < length (cl_snaps c)")
  case True
  obtain i t ci where m: "cl_snaps c ! k = (i, t, ci)" by (metis prod_cases3)
  have e: "election_inv ids N c" "log_inv c" using inv by (auto simp: raft_inv_def)
  obtain n where n: "advance_commit t (cl_node c i) = Some n" "evolves (cl_node c i) n" "keeps_log (cl_node c i) n"
      "rn_current_term n = rn_current_term (cl_node c i)" using advance_evolves by blast
  have "unat (rn_current_term n) \<le> N" using n(4) e(1) by (simp add: election_inv_def el_nodes_def)
  then show ?thesis using election_evolve [OF e(1) order_refl n(2)] log_keeps [OF e(2) n(3,2)] n(1) True m by (simp add: raft_inv_def)
qed (use inv in simp)

lemma raft_step:
  assumes inv: "raft_inv ids N c" and N: "Suc N < 2 ^ 64" and d: "distinct ids"
  shows "\<exists>c'. raft_exec ids a c = Some c' \<and> raft_inv ids (Suc N) c'"
proof (cases a)
  case (AStart i)
  obtain args n where "begin_election (cl_node c i) = (args, n)" by (cases "begin_election (cl_node c i)")
  then show ?thesis using raft_inv_mono [OF inv] raft_start_step [OF inv N, of i args n] AStart by simp
next
  case (AFinish i)
  show ?thesis
  proof (cases "cl_election c i")
    case (Some el)
    obtain won n where h: "finish_election (el_term el) (1 + length (el_votes el)) (cl_node c i) = (won, n)"
      by (cases "finish_election (el_term el) (1 + length (el_votes el)) (cl_node c i)")
    show ?thesis using raft_inv_mono [OF raft_finish_step [OF inv d Some h]] Some h AFinish by (simp add: Let_def)
  qed (use AFinish raft_inv_mono [OF inv] in simp)
next
  case (APropose i cmd)
  obtain r n where h: "propose_append cmd (cl_node c i) = (r, n)" by (cases "propose_append cmd (cl_node c i)")
  show ?thesis using raft_inv_mono [OF inv] raft_inv_mono [OF raft_propose_step [OF inv h]] h APropose by (simp split del: if_split) simp
next
  case (ASnap i)
  have "raft_inv ids (Suc N) (c\<lparr>cl_snaps := x\<rparr>)" for x using raft_inv_mono [OF inv] by (simp add: raft_inv_def election_app log_other)
  then show ?thesis using raft_inv_mono [OF inv] ASnap by (auto split: option.split)
qed (use step_vote_req [OF inv] step_vote_resp [OF inv] step_send [OF inv] step_app_req [OF inv] step_app_resp [OF inv] step_advance [OF inv]
  raft_inv_mono in \<open>meson+\<close>)

lemma raft_run_inv:
  "raft_inv ids N c \<Longrightarrow> distinct ids \<Longrightarrow> N + length as < 2 ^ 64 \<Longrightarrow> \<exists>c'. raft_run ids as c = Some c' \<and> raft_inv ids (N + length as) c'"
proof (induction as arbitrary: N c)
  case (Cons a as)
  obtain c1 where "raft_exec ids a c = Some c1" "raft_inv ids (Suc N) c1" using raft_step [OF Cons.prems(1) _ Cons.prems(2), of a] Cons.prems(3) by auto
  then show ?case using Cons.IH [of "Suc N" c1] Cons.prems(2,3) by simp
qed simp

lemma raft_inv_new: "raft_inv ids 0 (new_cluster ids e)"
  by (auto simp: raft_inv_def election_defs log_inv_def new_cluster_def new_node_def log_ok_def leader_ok_def)

section \<open>Properties\<close>

text \<open>
  C3: election safety. In a new cluster of distinct nodes, whatever elections are started, whatever messages are
  delivered, delayed, repeated or lost, and whatever is proposed and replicated, every step returns, no two nodes ever
  become leader of the same term, and a node that is leader has been elected in its term. The number of steps is below
  2^64, so that no term wraps.
\<close>

theorem raft_election_safety:
  assumes "distinct ids" and "length as < 2 ^ 64"
  shows "\<exists>c. raft_run ids as (new_cluster ids e) = Some c \<and>
    (\<forall>T i j. (T, i) \<in> set (cl_leaders c) \<longrightarrow> (T, j) \<in> set (cl_leaders c) \<longrightarrow> i = j) \<and>
    (\<forall>i. rn_role (cl_node c i) = Leader \<longrightarrow> (rn_current_term (cl_node c i), i) \<in> set (cl_leaders c))"
proof -
  obtain c where c: "raft_run ids as (new_cluster ids e) = Some c" "raft_inv ids (length as) c"
    using raft_run_inv [OF raft_inv_new assms(1), of as] assms(2) by auto
  then have "election_inv ids (length as) c" by (simp add: raft_inv_def)
  then show ?thesis using c(1) leader_unique leader_known by blast
qed

text \<open>
  C4: log matching. In the same runs, if the logs of two nodes have an entry of the same term at the same position,
  the logs are identical up to that position; a leader's log is the one recorded for its term, which is only extended.
\<close>

theorem raft_log_matching:
  assumes "distinct ids" and "length as < 2 ^ 64"
  shows "\<exists>c. raft_run ids as (new_cluster ids e) = Some c \<and>
    (\<forall>i j k. k < length (rn_log (cl_node c i)) \<longrightarrow> k < length (rn_log (cl_node c j)) \<longrightarrow>
       le_term (rn_log (cl_node c i) ! k) = le_term (rn_log (cl_node c j) ! k) \<longrightarrow>
       take (Suc k) (rn_log (cl_node c i)) = take (Suc k) (rn_log (cl_node c j)))"
proof -
  obtain c where c: "raft_run ids as (new_cluster ids e) = Some c" "raft_inv ids (length as) c"
    using raft_run_inv [OF raft_inv_new assms(1), of as] assms(2) by auto
  then have "log_ok (cl_tlog c) (rn_log (cl_node c i))" for i by (simp add: raft_inv_def log_inv_def)
  then show ?thesis using c(1) log_ok_match by blast
qed

section \<open>Witnesses\<close>

definition demo_election :: "raft_action list" where
  "demo_election = [AStart 1, AVoteReq 0, AVoteResp 0, AFinish 1, ASnap 1, ASend 0 2, AAppReq 0]"

lemma demo_election_run:
  "\<exists>c. raft_run [1, 2, 3] demo_election (new_cluster [1, 2, 3] e) = Some c \<and> cl_leaders c = [(1, 1)] \<and>
     rn_log (cl_node c 2) = [\<lparr>le_term = 1, le_is_noop = 1, le_command = noop_command\<rparr>] \<and>
     rn_log (cl_node c 1) = [\<lparr>le_term = 1, le_is_noop = 1, le_command = noop_command\<rparr>]"
  by (simp add: demo_election_def new_cluster_def new_node_def set_node_def begin_election_def last_log_term_def handle_request_vote_def
      vote_answer_def finish_election_def majority_def replicate_snapshot_def replicate_request_def handle_append_entries_def kMaxEntriesPerRpc_def)

theorem raft_election_safety_witness:
  "\<exists>c. raft_run [1, 2, 3] demo_election (new_cluster [1, 2, 3] demo_engine) = Some c \<and> cl_leaders c = [(1, 1)] \<and>
     (\<nexists>T i j. (T, i) \<in> set (cl_leaders c) \<and> (T, j) \<in> set (cl_leaders c) \<and> i \<noteq> j)"
  using raft_election_safety [of "[1, 2, 3]" demo_election demo_engine] demo_election_run [of demo_engine] by (auto simp: demo_election_def)

theorem raft_log_matching_witness:
  "\<exists>c. raft_run [1, 2, 3] demo_election (new_cluster [1, 2, 3] demo_engine) = Some c \<and>
     take 1 (rn_log (cl_node c 1)) = take 1 (rn_log (cl_node c 2)) \<and> length (rn_log (cl_node c 2)) = 1"
proof -
  have s: "distinct [1, 2, 3 :: NodeId]" "length demo_election < 2 ^ 64" by (simp_all add: demo_election_def)
  obtain c where c: "raft_run [1, 2, 3] demo_election (new_cluster [1, 2, 3] demo_engine) = Some c"
    "\<forall>i j k. k < length (rn_log (cl_node c i)) \<longrightarrow> k < length (rn_log (cl_node c j)) \<longrightarrow>
       le_term (rn_log (cl_node c i) ! k) = le_term (rn_log (cl_node c j) ! k) \<longrightarrow>
       take (Suc k) (rn_log (cl_node c i)) = take (Suc k) (rn_log (cl_node c j))"
    using raft_log_matching [OF s, of demo_engine] by blast
  then have "rn_log (cl_node c 2) = [\<lparr>le_term = 1, le_is_noop = 1, le_command = noop_command\<rparr>]"
    "rn_log (cl_node c 1) = [\<lparr>le_term = 1, le_is_noop = 1, le_command = noop_command\<rparr>]"
    using demo_election_run [of demo_engine] by auto
  then show ?thesis using c by simp
qed

end
