(* ===== verification/Itch.thy ===== *)
theory Itch
  imports Bytes Shm_Ring
begin

text \<open>
  The ITCH 5.0 adapter (\<^verbatim>\<open>adapters/itch50\<close>): byte-order conversion, the wire structs, the decoder, the message
  generator and the loop of the shared-memory bridge. A read outside the buffer is \<^term>\<open>None\<close>. The machine is
  little endian. A struct of byte arrays is a record of byte lists.
\<close>

section \<open>Byte order\<close>

definition reverse_bytes :: "nat \<Rightarrow> nat \<Rightarrow> nat" where
  "reverse_bytes n v = le_value (rev (le_bytes n v))"

definition bswap16 :: "u16 \<Rightarrow> u16" where "bswap16 v = of_nat (reverse_bytes 2 (unat v))"
definition bswap32 :: "u32 \<Rightarrow> u32" where "bswap32 v = of_nat (reverse_bytes 4 (unat v))"
definition bswap64 :: "u64 \<Rightarrow> u64" where "bswap64 v = of_nat (reverse_bytes 8 (unat v))"

definition be16toh_field :: "nat \<Rightarrow> u8 list \<Rightarrow> u16 option" where
  "be16toh_field off w = map_option (\<lambda>b. bswap16 (of_nat (le_value b))) (rd off 2 w)"
definition be32toh_field :: "nat \<Rightarrow> u8 list \<Rightarrow> u32 option" where
  "be32toh_field off w = map_option (\<lambda>b. bswap32 (of_nat (le_value b))) (rd off 4 w)"
definition be64toh_field :: "nat \<Rightarrow> u8 list \<Rightarrow> u64 option" where
  "be64toh_field off w = map_option (\<lambda>b. bswap64 (of_nat (le_value b))) (rd off 8 w)"

definition be48toh_ns :: "nat \<Rightarrow> u8 list \<Rightarrow> u64 option" where
  "be48toh_ns off w = map_option (\<lambda>p.
     push_bit 40 (ucast (p ! 0)) OR push_bit 32 (ucast (p ! 1)) OR push_bit 24 (ucast (p ! 2)) OR push_bit 16 (ucast (p ! 3)) OR
     push_bit 8 (ucast (p ! 4)) OR ucast (p ! 5)) (rd off 6 w)"

definition put_be16 :: "u16 \<Rightarrow> u8 list" where "put_be16 v = le_bytes 2 (unat (bswap16 v))"
definition put_be32 :: "u32 \<Rightarrow> u8 list" where "put_be32 v = le_bytes 4 (unat (bswap32 v))"
definition put_be64 :: "u64 \<Rightarrow> u8 list" where "put_be64 v = le_bytes 8 (unat (bswap64 v))"

definition put_be48_ns :: "u64 \<Rightarrow> u8 list" where
  "put_be48_ns ns = [ucast (drop_bit 40 ns AND 0xFF), ucast (drop_bit 32 ns AND 0xFF), ucast (drop_bit 24 ns AND 0xFF),
     ucast (drop_bit 16 ns AND 0xFF), ucast (drop_bit 8 ns AND 0xFF), ucast (ns AND 0xFF)]"

section \<open>Wire structs\<close>

datatype MessageType = SystemEvent | AddOrderNoMPID | AddOrderWithMPID | OrderExecuted | OrderExecutedWithPrice | OrderCancel | OrderDelete | OrderReplace

fun message_byte :: "MessageType \<Rightarrow> u8" where
  "message_byte SystemEvent = 0x53"
| "message_byte AddOrderNoMPID = 0x41"
| "message_byte AddOrderWithMPID = 0x46"
| "message_byte OrderExecuted = 0x45"
| "message_byte OrderExecutedWithPrice = 0x43"
| "message_byte OrderCancel = 0x58"
| "message_byte OrderDelete = 0x44"
| "message_byte OrderReplace = 0x55"

text \<open>The members after \<^verbatim>\<open>message_type\<close>, \<^verbatim>\<open>stock_locate\<close>, \<^verbatim>\<open>tracking_number\<close> and \<^verbatim>\<open>timestamp\<close>, which all structs share.\<close>

record itch_head =
  ih_stock_locate :: "u8 list"
  ih_tracking_number :: "u8 list"
  ih_timestamp :: "u8 list"

record SystemEventMsg = itch_head +
  se_event_code :: u8

record AddOrderMsg = itch_head +
  ao_order_reference_number :: "u8 list"
  ao_buy_sell_indicator :: u8
  ao_shares :: "u8 list"
  ao_stock :: "u8 list"
  ao_price :: "u8 list"

record AddOrderMPIDMsg = AddOrderMsg +
  am_attribution :: "u8 list"

record OrderExecutedMsg = itch_head +
  oe_order_reference_number :: "u8 list"
  oe_executed_shares :: "u8 list"
  oe_match_number :: "u8 list"

record OrderExecutedWithPriceMsg = OrderExecutedMsg +
  op_printable :: u8
  op_execution_price :: "u8 list"

record OrderCancelMsg = itch_head +
  oc_order_reference_number :: "u8 list"
  oc_cancelled_shares :: "u8 list"

record OrderDeleteMsg = itch_head +
  od_order_reference_number :: "u8 list"

record OrderReplaceMsg = itch_head +
  ou_original_order_reference_number :: "u8 list"
  ou_new_order_reference_number :: "u8 list"
  ou_shares :: "u8 list"
  ou_price :: "u8 list"

fun sizeof_msg :: "MessageType \<Rightarrow> nat" where
  "sizeof_msg SystemEvent = 12"
| "sizeof_msg AddOrderNoMPID = 36"
| "sizeof_msg AddOrderWithMPID = 40"
| "sizeof_msg OrderExecuted = 31"
| "sizeof_msg OrderExecutedWithPrice = 36"
| "sizeof_msg OrderCancel = 23"
| "sizeof_msg OrderDelete = 19"
| "sizeof_msg OrderReplace = 35"

definition kMaxWireMessageSize :: nat where "kMaxWireMessageSize = sizeof_msg AddOrderWithMPID"

section \<open>The decoder\<close>

record ItchFrame =
  if_sequence_id :: u64
  if_recv_timestamp_ns :: u64
  if_itch_timestamp_ns :: u64
  if_order_ref_number :: u64
  if_secondary_ref_number :: u64
  if_stock_ticker_raw :: u64
  if_price_ticks :: int
  if_shares :: u32
  if_stock_locate :: u16
  if_msg_type :: u8
  if_side_or_flag :: u8

definition decode_common_header :: "u8 list \<Rightarrow> ItchFrame \<Rightarrow> ItchFrame option" where
  "decode_common_header wire out =
     Option.bind (be16toh_field 1 wire) (\<lambda>l. map_option (\<lambda>t. out\<lparr>if_stock_locate := l, if_itch_timestamp_ns := t\<rparr>) (be48toh_ns 5 wire))"

definition message_type_of :: "u8 \<Rightarrow> MessageType option" where
  "message_type_of b =
     (if b = 0x53 then Some SystemEvent else if b = 0x41 then Some AddOrderNoMPID else if b = 0x46 then Some AddOrderWithMPID
      else if b = 0x45 then Some OrderExecuted else if b = 0x43 then Some OrderExecutedWithPrice else if b = 0x58 then Some OrderCancel
      else if b = 0x44 then Some OrderDelete else if b = 0x55 then Some OrderReplace else None)"

text \<open>The assignments of each branch of the switch, in the order of the source.\<close>

fun decode_body :: "MessageType \<Rightarrow> u8 list \<Rightarrow> ItchFrame \<Rightarrow> ItchFrame option" where
  "decode_body SystemEvent wire out = map_option (\<lambda>f. out\<lparr>if_side_or_flag := f\<rparr>) (byte_at 11 wire)"
| "decode_body OrderExecuted wire out =
     Option.bind (be64toh_field 11 wire) (\<lambda>r. Option.bind (be32toh_field 19 wire) (\<lambda>s. map_option (\<lambda>m.
       out\<lparr>if_order_ref_number := r, if_shares := s, if_secondary_ref_number := m\<rparr>) (be64toh_field 23 wire)))"
| "decode_body OrderExecutedWithPrice wire out =
     Option.bind (be64toh_field 11 wire) (\<lambda>r. Option.bind (be32toh_field 19 wire) (\<lambda>s. Option.bind (be64toh_field 23 wire) (\<lambda>m.
       Option.bind (byte_at 31 wire) (\<lambda>f. map_option (\<lambda>p.
       out\<lparr>if_order_ref_number := r, if_shares := s, if_secondary_ref_number := m, if_side_or_flag := f, if_price_ticks := uint p\<rparr>) (be32toh_field 32 wire)))))"
| "decode_body OrderCancel wire out =
     Option.bind (be64toh_field 11 wire) (\<lambda>r. map_option (\<lambda>s. out\<lparr>if_order_ref_number := r, if_shares := s\<rparr>) (be32toh_field 19 wire))"
| "decode_body OrderDelete wire out = map_option (\<lambda>r. out\<lparr>if_order_ref_number := r\<rparr>) (be64toh_field 11 wire)"
| "decode_body OrderReplace wire out =
     Option.bind (be64toh_field 11 wire) (\<lambda>r. Option.bind (be64toh_field 19 wire) (\<lambda>m. Option.bind (be32toh_field 27 wire) (\<lambda>s. map_option (\<lambda>p.
       out\<lparr>if_order_ref_number := r, if_secondary_ref_number := m, if_shares := s, if_price_ticks := uint p\<rparr>) (be32toh_field 31 wire))))"
| "decode_body _ wire out =
     Option.bind (be64toh_field 11 wire) (\<lambda>r. Option.bind (byte_at 19 wire) (\<lambda>f. Option.bind (be32toh_field 20 wire) (\<lambda>s.
       Option.bind (rd 24 8 wire) (\<lambda>k. map_option (\<lambda>p.
       out\<lparr>if_order_ref_number := r, if_side_or_flag := f, if_shares := s, if_stock_ticker_raw := of_nat (le_value k), if_price_ticks := uint p\<rparr>)
       (be32toh_field 32 wire)))))"

text \<open>
  \<^verbatim>\<open>decode\<close> on the \<^verbatim>\<open>wire_len\<close> bytes at \<^verbatim>\<open>wire\<close> (\<^term>\<open>None\<close>: a null pointer): \<^verbatim>\<open>Some None\<close> is the result false.
\<close>

definition decode :: "u8 list option \<Rightarrow> ItchFrame \<Rightarrow> ItchFrame option option" where
  "decode wire out =
     (case wire of
        None \<Rightarrow> Some None
      | Some w \<Rightarrow>
          if w = [] then Some None
          else (let out = out\<lparr>if_order_ref_number := 0, if_secondary_ref_number := 0, if_stock_ticker_raw := 0, if_price_ticks := 0,
                              if_shares := 0, if_side_or_flag := 0, if_msg_type := w ! 0\<rparr>
                in case message_type_of (w ! 0) of
                     None \<Rightarrow> Some None
                   | Some ty \<Rightarrow>
                       if length w < sizeof_msg ty then Some None
                       else Option.bind (decode_common_header w out) (\<lambda>out. map_option Some (decode_body ty w out))))"

section \<open>The generator and the bridge\<close>

record Generator =
  ge_rng_state :: u64
  ge_next_order_ref :: u64
  ge_next_match_number :: u64
  ge_itch_clock_ns :: u64

definition new_Generator :: Generator where
  "new_Generator = \<lparr>ge_rng_state = 0x9E3779B97F4A7C15, ge_next_order_ref = 1, ge_next_match_number = 1, ge_itch_clock_ns = 34200000000000\<rparr>"

definition xorshift :: "u64 \<Rightarrow> u64" where
  "xorshift s = (let s = s XOR push_bit 13 s; s = s XOR drop_bit 7 s in s XOR push_bit 17 s)"

definition next_rand :: "Generator \<Rightarrow> u64 \<times> Generator" where
  "next_rand g = (let s = xorshift (ge_rng_state g) in (s, g\<lparr>ge_rng_state := s\<rparr>))"

definition put_at :: "nat \<Rightarrow> u8 list \<Rightarrow> u8 list \<Rightarrow> u8 list" where
  "put_at off bs buf = take off buf @ bs @ drop (off + length bs) buf"

fun kSymbol :: "nat \<Rightarrow> u8 list" where
  "kSymbol 0 = [0x41, 0x41, 0x50, 0x4C, 0x20, 0x20, 0x20, 0x20]"
| "kSymbol (Suc 0) = [0x4D, 0x53, 0x46, 0x54, 0x20, 0x20, 0x20, 0x20]"
| "kSymbol (Suc (Suc 0)) = [0x47, 0x4F, 0x4F, 0x47, 0x20, 0x20, 0x20, 0x20]"
| "kSymbol _ = [0x41, 0x4D, 0x5A, 0x4E, 0x20, 0x20, 0x20, 0x20]"

definition generate :: "u8 list \<Rightarrow> Generator \<Rightarrow> (nat \<times> MessageType) \<times> u8 list \<times> Generator" where
  "generate buf g =
     (let (r, g) = next_rand g; roll = r mod 100;
          ty = (if roll < 60 then AddOrderNoMPID else if roll < 85 then OrderExecuted else OrderDelete);
          (r, g) = next_rand g; g = g\<lparr>ge_itch_clock_ns := ge_itch_clock_ns g + (100 + r mod 5000)\<rparr>;
          (r, g) = next_rand g; stock_locate = ucast (1 + r mod 8000);
          (r, g) = next_rand g; tracking_number = ucast (r mod 65536);
          (r, g) = next_rand g; shares = ucast (1 + r mod 1000);
          (r, g) = next_rand g; price = ucast (500000 + r mod 2000000);
          (r, g) = next_rand g; symbol = kSymbol (unat (r mod 4));
          buf = put_at 0 [message_byte ty] buf;
          buf = put_at 1 (put_be16 stock_locate) buf;
          buf = put_at 3 (put_be16 tracking_number) buf;
          buf = put_at 5 (put_be48_ns (ge_itch_clock_ns g)) buf
      in case ty of
           AddOrderNoMPID \<Rightarrow>
             let order_ref = ge_next_order_ref g; g = g\<lparr>ge_next_order_ref := order_ref + 1\<rparr>;
                 buf = put_at 11 (put_be64 order_ref) buf;
                 (r, g) = next_rand g;
                 buf = put_at 19 [if r mod 2 \<noteq> 0 then 0x42 else 0x53] buf;
                 buf = put_at 20 (put_be32 shares) buf;
                 buf = put_at 24 symbol buf;
                 buf = put_at 32 (put_be32 price) buf
             in ((sizeof_msg ty, ty), buf, g)
         | OrderExecuted \<Rightarrow>
             let (v, g) = (if ge_next_order_ref g = 1 then (1, g) else (case next_rand g of (r, g) \<Rightarrow> (r mod ge_next_order_ref g + 1, g)));
                 buf = put_at 11 (put_be64 v) buf;
                 buf = put_at 19 (put_be32 shares) buf;
                 buf = put_at 23 (put_be64 (ge_next_match_number g)) buf;
                 g = g\<lparr>ge_next_match_number := ge_next_match_number g + 1\<rparr>
             in ((sizeof_msg ty, ty), buf, g)
         | _ \<Rightarrow>
             let (v, g) = (if ge_next_order_ref g = 1 then (1, g) else (case next_rand g of (r, g) \<Rightarrow> (r mod ge_next_order_ref g + 1, g)));
                 buf = put_at 11 (put_be64 v) buf
             in ((sizeof_msg ty, ty), buf, g))"

record bridge =
  br_gen :: Generator
  br_buf :: "u8 list"
  br_ring :: "ItchFrame shm_ring"
  br_pushed :: u64
  br_failures :: u64

definition zero_frame :: ItchFrame where
  "zero_frame = \<lparr>if_sequence_id = 0, if_recv_timestamp_ns = 0, if_itch_timestamp_ns = 0, if_order_ref_number = 0, if_secondary_ref_number = 0,
     if_stock_ticker_raw = 0, if_price_ticks = 0, if_shares = 0, if_stock_locate = 0, if_msg_type = 0, if_side_or_flag = 0\<rparr>"

text \<open>One message of the bridge's loop; \<^verbatim>\<open>now\<close> is the clock reading.\<close>

definition bridge_step :: "(nat \<Rightarrow> bool) \<Rightarrow> u64 \<Rightarrow> bridge \<Rightarrow> bridge option" where
  "bridge_step spurious now b =
     (case generate (br_buf b) (br_gen b) of ((wire_len, ty), buf, g) \<Rightarrow>
        let b = b\<lparr>br_buf := buf, br_gen := g\<rparr>
        in case decode (Some (take wire_len buf)) zero_frame of
             None \<Rightarrow> None
           | Some None \<Rightarrow> Some (b\<lparr>br_failures := br_failures b + 1\<rparr>)
           | Some (Some frame) \<Rightarrow>
               let frame = frame\<lparr>if_sequence_id := br_pushed b, if_recv_timestamp_ns := now\<rparr>;
                   ring = shm_push_overwrite spurious frame (br_ring b)
               in Some (b\<lparr>br_ring := ring\<lparr>sr_header := producer_heartbeat (sr_header ring)\<rparr>, br_pushed := br_pushed b + 1\<rparr>))"

fun bridge_run :: "(nat \<Rightarrow> bool) \<Rightarrow> u64 list \<Rightarrow> bridge \<Rightarrow> bridge option" where
  "bridge_run spurious [] b = Some b"
| "bridge_run spurious (now # nows) b = Option.bind (bridge_step spurious now b) (bridge_run spurious nows)"

section \<open>Byte order, read and written\<close>

lemma bswap_read:
  assumes "n * 8 = LENGTH('a)" "length bs = n"
  shows "(of_nat (reverse_bytes n (unat (of_nat (le_value bs) :: 'a::len word))) :: 'a word) = of_nat (be_value bs)"
proof -
  have "(256::nat) ^ n = 2 ^ LENGTH('a)" using assms(1) by (simp add: pow_256 mult.commute)
  then have "unat (of_nat (le_value bs) :: 'a word) = le_value bs" using le_value_less [of bs] assms(2)
    by (simp add: unat_of_nat take_bit_nat_eq_self)
  then show ?thesis using le_bytes_value [of bs] assms(2) by (simp add: reverse_bytes_def be_value_def)
qed

lemma be_fields:
  "be16toh_field off w = map_option (\<lambda>b. of_nat (be_value b)) (rd off 2 w)"
  "be32toh_field off w = map_option (\<lambda>b. of_nat (be_value b)) (rd off 4 w)"
  "be64toh_field off w = map_option (\<lambda>b. of_nat (be_value b)) (rd off 8 w)"
  unfolding be16toh_field_def be32toh_field_def be64toh_field_def bswap16_def bswap32_def bswap64_def rd_def
  using bswap_read [where 'a = 16 and n = 2] bswap_read [where 'a = 32 and n = 4] bswap_read [where 'a = 64 and n = 8] by simp_all

lemma swap_write:
  assumes "n * 8 = LENGTH('a)"
  shows "le_bytes n (unat (of_nat (reverse_bytes n m) :: 'a::len word)) = be_bytes n m"
proof -
  have "(256::nat) ^ n = 2 ^ LENGTH('a)" using assms by (simp add: pow_256 mult.commute)
  then have "unat (of_nat (reverse_bytes n m) :: 'a word) = reverse_bytes n m" using le_value_less [of "rev (le_bytes n m)"]
    by (simp add: unat_of_nat take_bit_nat_eq_self reverse_bytes_def)
  then show ?thesis using le_bytes_value [of "rev (le_bytes n m)"] by (simp add: reverse_bytes_def be_bytes_def)
qed

lemma put_bytes:
  "put_be16 v = be_bytes 2 (unat v)" "put_be32 x = be_bytes 4 (unat x)" "put_be64 y = be_bytes 8 (unat y)"
  using swap_write [where 'a = 16 and n = 2] swap_write [where 'a = 32 and n = 4] swap_write [where 'a = 64 and n = 8]
  by (simp_all add: put_be16_def put_be32_def put_be64_def bswap16_def bswap32_def bswap64_def)

text \<open>Or-ing bytes at disjoint positions is adding them.\<close>

lemma or_low:
  assumes "unat (b :: u64) < 2 ^ n"
  shows "push_bit n a OR b = push_bit n a + b"
proof -
  have b: "take_bit n b = b" using assms by (simp add: word_unat_eq_iff unsigned_take_bit_eq take_bit_nat_eq_self)
  have "push_bit n a AND take_bit n b = 0" by (auto simp: bit_eq_iff bit_simps)
  then have "push_bit n a AND b = 0" by (simp only: b)
  then show ?thesis by (simp add: disjunctive_add_eq_or)
qed

lemma byte_up: "n \<le> 56 \<Longrightarrow> unat (push_bit n (ucast (b :: u8) :: u64)) = unat b * 2 ^ n"
proof -
  assume n: "n \<le> 56"
  have "unat b * 2 ^ n < 256 * 2 ^ 56" using unat_u8_less [of b] power_increasing [OF n, of "2::nat"] by (intro mult_less_le_imp_less) auto
  then have l: "unat b * 2 ^ n < 2 ^ 64" by simp
  have "push_bit n (ucast b :: u64) = of_nat (unat b * 2 ^ n)" by (simp add: push_bit_eq_mult of_nat_unat)
  then show ?thesis using unat_of_nat64 [OF l] by simp
qed

lemma byte_up_or:
  assumes "unat (r :: u64) < 2 ^ n" "n \<le> 56"
  shows "unat (push_bit n (ucast (b :: u8)) OR r) = unat b * 2 ^ n + unat r" "unat b * 2 ^ n + unat r < 2 ^ (n + 8)"
proof -
  have "Suc (unat b) * 2 ^ n \<le> 256 * 2 ^ n" using unat_u8_less [of b] by (intro mult_le_mono1) simp
  moreover have "(2::nat) ^ (n + 8) = 256 * 2 ^ n" by (simp add: power_add)
  moreover have "Suc (unat b) * 2 ^ n = unat b * 2 ^ n + 2 ^ n" by simp
  ultimately show l: "unat b * 2 ^ n + unat r < 2 ^ (n + 8)" using assms(1) by linarith
  have "2 ^ (n + 8) \<le> (2::nat) ^ 64" using assms(2) by (intro power_increasing) simp_all
  then have "unat (push_bit n (ucast b) + r) = unat b * 2 ^ n + unat r" using l byte_up [OF assms(2), of b] by (subst unat_add64) simp_all
  then show "unat (push_bit n (ucast b) OR r) = unat b * 2 ^ n + unat r" using or_low [OF assms(1)] by simp
qed

lemma be48_value:
  assumes "off + 6 \<le> length w"
  shows "be48toh_ns off w = Some (of_nat (be_value (take 6 (drop off w))))"
proof -
  define p where "p = take 6 (drop off w)"
  have "length p = 6" using assms by (simp add: p_def)
  then obtain a b c d e f where p: "p = [a, b, c, d, e, f]" by (auto simp: numeral_eq_Suc length_Suc_conv)
  let ?f = "ucast f :: u64"
  have 0: "unat ?f = unat f" "unat ?f < 2 ^ 8" using byte_up [of 0 f] unat_u8_less [of f] by simp_all
  let ?r1 = "push_bit 8 (ucast e) OR ?f" let ?r2 = "push_bit 16 (ucast d) OR ?r1" let ?r3 = "push_bit 24 (ucast c) OR ?r2"
  let ?r4 = "push_bit 32 (ucast b) OR ?r3"
  have r1: "unat ?r1 = unat e * 2 ^ 8 + unat f" "unat ?r1 < 2 ^ 16" using byte_up_or [OF 0(2), of e] 0(1) by simp_all
  have r2: "unat ?r2 = unat d * 2 ^ 16 + unat ?r1" "unat ?r2 < 2 ^ 24" using byte_up_or [OF r1(2), of d] by simp_all
  have r3: "unat ?r3 = unat c * 2 ^ 24 + unat ?r2" "unat ?r3 < 2 ^ 32" using byte_up_or [OF r2(2), of c] by simp_all
  have r4: "unat ?r4 = unat b * 2 ^ 32 + unat ?r3" "unat ?r4 < 2 ^ 40" using byte_up_or [OF r3(2), of b] by simp_all
  have r5: "unat (push_bit 40 (ucast a) OR ?r4) = unat a * 2 ^ 40 + unat ?r4" using byte_up_or [OF r4(2), of a] by simp
  have "unat (push_bit 40 (ucast a) OR ?r4) = be_value p" unfolding r5 r4(1) r3(1) r2(1) r1(1) by (simp add: p be_value_def)
  then have "push_bit 40 (ucast a) OR ?r4 = of_nat (be_value p)" by (metis cursor_unat)
  then show ?thesis using assms unfolding be48toh_ns_def rd_def p_def [symmetric] by (simp add: p or.assoc)
qed

lemma be48_put: "be_value (put_be48_ns v) = unat v mod 2 ^ 48"
proof -
  have b: "unat (ucast (x AND 0xFF) :: u8) = unat x mod 256" for x :: u64
  proof -
    have t: "x AND 0xFF = take_bit 8 x" using mask_eq_exp_minus_1 [of 8, where 'a = "64 word"] by (simp add: take_bit_eq_mask)
    have "(ucast (take_bit 8 x) :: u8) = ucast x" by (rule bit_word_eqI) (simp add: bit_simps)
    then show ?thesis unfolding t by (simp add: unsigned_ucast_eq take_bit_eq_mod)
  qed
  have "unat (drop_bit n v) = drop_bit n (unat v)" for n
    unfolding unsigned_drop_bit_eq using unat_u64_less [of v] by (simp add: take_bit_nat_eq_self)
  then have d: "unat (drop_bit n v) = unat v div 2 ^ n" for n using drop_bit_eq_div [of n "unat v"] by metis
  let ?v = "unat v"
  have "be_value (put_be48_ns v) = ?v mod 256 + 256 * (?v div 2 ^ 8 mod 256 + 256 * (?v div 2 ^ 16 mod 256 + 256 * (?v div 2 ^ 24 mod 256 +
      256 * (?v div 2 ^ 32 mod 256 + 256 * (?v div 2 ^ 40 mod 256)))))"
    by (simp add: be_value_def put_be48_ns_def b d)
  also have "\<dots> = le_value (le_bytes 6 ?v)"
  proof -
    have six: "(6::nat) = Suc (Suc (Suc (Suc (Suc (Suc 0)))))" by simp
    show ?thesis unfolding six le_bytes.simps le_value.simps unat_of_nat8 by (simp add: div_mult2_eq [symmetric])
  qed
  also have "\<dots> = ?v mod 2 ^ 48" by (simp add: le_value_bytes)
  finally show ?thesis .
qed

section \<open>Decoding\<close>

lemma message_type_of_byte [simp]: "message_type_of (message_byte ty) = Some ty"
  by (cases ty) (simp_all add: message_type_of_def)

lemma decode_common_eq:
  "11 \<le> length w \<Longrightarrow> decode_common_header w out =
   Some (out\<lparr>if_stock_locate := of_nat (be_value (take 2 (drop 1 w))), if_itch_timestamp_ns := of_nat (be_value (take 6 (drop 5 w)))\<rparr>)"
  by (simp add: decode_common_header_def be_fields be48_value rd_def)

lemma decode_body_total:
  "sizeof_msg ty \<le> length w \<Longrightarrow> \<exists>f. decode_body ty w out = Some f \<and> if_msg_type f = if_msg_type out \<and>
     if_stock_locate f = if_stock_locate out \<and> if_itch_timestamp_ns f = if_itch_timestamp_ns out"
  by (cases ty) (simp_all add: be_fields rd_def byte_at_def)

lemma sizeof_msg_min: "12 \<le> sizeof_msg ty" "sizeof_msg ty \<le> 40"
  by (cases ty; simp)+

lemma decode_known:
  assumes "message_type_of (w ! 0) = Some ty" "sizeof_msg ty \<le> length w"
  shows "\<exists>f. decode (Some w) out = Some (Some f) \<and> if_msg_type f = w ! 0 \<and> if_stock_locate f = of_nat (be_value (take 2 (drop 1 w))) \<and>
           if_itch_timestamp_ns f = of_nat (be_value (take 6 (drop 5 w)))"
proof -
  have l: "12 \<le> length w" using sizeof_msg_min(1) [of ty] assms(2) by linarith
  then have ne: "w \<noteq> []" by auto
  let ?o = "out\<lparr>if_order_ref_number := 0, if_secondary_ref_number := 0, if_stock_ticker_raw := 0, if_price_ticks := 0,
                              if_shares := 0, if_side_or_flag := 0, if_msg_type := w ! 0\<rparr>"
  let ?h = "?o\<lparr>if_stock_locate := of_nat (be_value (take 2 (drop 1 w))), if_itch_timestamp_ns := of_nat (be_value (take 6 (drop 5 w)))\<rparr>"
  have h: "decode_common_header w ?o = Some ?h" using l by (intro decode_common_eq) simp
  obtain f where f: "decode_body ty w ?h = Some f" "if_msg_type f = if_msg_type ?h" "if_stock_locate f = if_stock_locate ?h"
      "if_itch_timestamp_ns f = if_itch_timestamp_ns ?h" using decode_body_total [OF assms(2)] by blast
  have "decode (Some w) out = Some (Some f)" using ne assms h f(1) by (simp add: decode_def Let_def)
  then show ?thesis using f(2-4) by simp
qed

text \<open>The wire structs as byte strings, and the frame each stands for.\<close>

datatype itch_msg =
    MSystemEvent SystemEventMsg
  | MAddOrder AddOrderMsg
  | MAddOrderMPID AddOrderMPIDMsg
  | MOrderExecuted OrderExecutedMsg
  | MOrderExecutedWithPrice OrderExecutedWithPriceMsg
  | MOrderCancel OrderCancelMsg
  | MOrderDelete OrderDeleteMsg
  | MOrderReplace OrderReplaceMsg

definition head_bytes :: "MessageType \<Rightarrow> 'a itch_head_scheme \<Rightarrow> u8 list" where
  "head_bytes ty h = message_byte ty # ih_stock_locate h @ ih_tracking_number h @ ih_timestamp h"

definition head_wf :: "'a itch_head_scheme \<Rightarrow> bool" where
  "head_wf h \<longleftrightarrow> length (ih_stock_locate h) = 2 \<and> length (ih_tracking_number h) = 2 \<and> length (ih_timestamp h) = 6"

fun itch_bytes :: "itch_msg \<Rightarrow> u8 list" where
  "itch_bytes (MSystemEvent m) = head_bytes SystemEvent m @ [se_event_code m]"
| "itch_bytes (MAddOrder m) = head_bytes AddOrderNoMPID m @ ao_order_reference_number m @ [ao_buy_sell_indicator m] @ ao_shares m @ ao_stock m @ ao_price m"
| "itch_bytes (MAddOrderMPID m) =
     head_bytes AddOrderWithMPID m @ ao_order_reference_number m @ [ao_buy_sell_indicator m] @ ao_shares m @ ao_stock m @ ao_price m @ am_attribution m"
| "itch_bytes (MOrderExecuted m) = head_bytes OrderExecuted m @ oe_order_reference_number m @ oe_executed_shares m @ oe_match_number m"
| "itch_bytes (MOrderExecutedWithPrice m) =
     head_bytes OrderExecutedWithPrice m @ oe_order_reference_number m @ oe_executed_shares m @ oe_match_number m @ [op_printable m] @ op_execution_price m"
| "itch_bytes (MOrderCancel m) = head_bytes OrderCancel m @ oc_order_reference_number m @ oc_cancelled_shares m"
| "itch_bytes (MOrderDelete m) = head_bytes OrderDelete m @ od_order_reference_number m"
| "itch_bytes (MOrderReplace m) =
     head_bytes OrderReplace m @ ou_original_order_reference_number m @ ou_new_order_reference_number m @ ou_shares m @ ou_price m"

fun itch_wf :: "itch_msg \<Rightarrow> bool" where
  "itch_wf (MSystemEvent m) = head_wf m"
| "itch_wf (MAddOrder m) = (head_wf m \<and> length (ao_order_reference_number m) = 8 \<and> length (ao_shares m) = 4 \<and> length (ao_stock m) = 8 \<and> length (ao_price m) = 4)"
| "itch_wf (MAddOrderMPID m) =
     (head_wf m \<and> length (ao_order_reference_number m) = 8 \<and> length (ao_shares m) = 4 \<and> length (ao_stock m) = 8 \<and> length (ao_price m) = 4 \<and> length (am_attribution m) = 4)"
| "itch_wf (MOrderExecuted m) = (head_wf m \<and> length (oe_order_reference_number m) = 8 \<and> length (oe_executed_shares m) = 4 \<and> length (oe_match_number m) = 8)"
| "itch_wf (MOrderExecutedWithPrice m) =
     (head_wf m \<and> length (oe_order_reference_number m) = 8 \<and> length (oe_executed_shares m) = 4 \<and> length (oe_match_number m) = 8 \<and> length (op_execution_price m) = 4)"
| "itch_wf (MOrderCancel m) = (head_wf m \<and> length (oc_order_reference_number m) = 8 \<and> length (oc_cancelled_shares m) = 4)"
| "itch_wf (MOrderDelete m) = (head_wf m \<and> length (od_order_reference_number m) = 8)"
| "itch_wf (MOrderReplace m) =
     (head_wf m \<and> length (ou_original_order_reference_number m) = 8 \<and> length (ou_new_order_reference_number m) = 8 \<and> length (ou_shares m) = 4 \<and> length (ou_price m) = 4)"

definition base_frame :: "MessageType \<Rightarrow> 'a itch_head_scheme \<Rightarrow> ItchFrame \<Rightarrow> ItchFrame" where
  "base_frame ty h out = out\<lparr>if_itch_timestamp_ns := of_nat (be_value (ih_timestamp h)), if_order_ref_number := 0, if_secondary_ref_number := 0,
     if_stock_ticker_raw := 0, if_price_ticks := 0, if_shares := 0, if_stock_locate := of_nat (be_value (ih_stock_locate h)),
     if_msg_type := message_byte ty, if_side_or_flag := 0\<rparr>"

definition be_price :: "u8 list \<Rightarrow> int" where
  "be_price bs = int (be_value bs)"

fun itch_frame :: "itch_msg \<Rightarrow> ItchFrame \<Rightarrow> ItchFrame" where
  "itch_frame (MSystemEvent m) out = (base_frame SystemEvent m out)\<lparr>if_side_or_flag := se_event_code m\<rparr>"
| "itch_frame (MAddOrder m) out = (base_frame AddOrderNoMPID m out)\<lparr>if_order_ref_number := of_nat (be_value (ao_order_reference_number m)),
     if_side_or_flag := ao_buy_sell_indicator m, if_shares := of_nat (be_value (ao_shares m)), if_stock_ticker_raw := of_nat (le_value (ao_stock m)),
     if_price_ticks := be_price (ao_price m)\<rparr>"
| "itch_frame (MAddOrderMPID m) out = (base_frame AddOrderWithMPID m out)\<lparr>if_order_ref_number := of_nat (be_value (ao_order_reference_number m)),
     if_side_or_flag := ao_buy_sell_indicator m, if_shares := of_nat (be_value (ao_shares m)), if_stock_ticker_raw := of_nat (le_value (ao_stock m)),
     if_price_ticks := be_price (ao_price m)\<rparr>"
| "itch_frame (MOrderExecuted m) out = (base_frame OrderExecuted m out)\<lparr>if_order_ref_number := of_nat (be_value (oe_order_reference_number m)),
     if_shares := of_nat (be_value (oe_executed_shares m)), if_secondary_ref_number := of_nat (be_value (oe_match_number m))\<rparr>"
| "itch_frame (MOrderExecutedWithPrice m) out = (base_frame OrderExecutedWithPrice m out)\<lparr>if_order_ref_number := of_nat (be_value (oe_order_reference_number m)),
     if_shares := of_nat (be_value (oe_executed_shares m)), if_secondary_ref_number := of_nat (be_value (oe_match_number m)),
     if_side_or_flag := op_printable m, if_price_ticks := be_price (op_execution_price m)\<rparr>"
| "itch_frame (MOrderCancel m) out = (base_frame OrderCancel m out)\<lparr>if_order_ref_number := of_nat (be_value (oc_order_reference_number m)),
     if_shares := of_nat (be_value (oc_cancelled_shares m))\<rparr>"
| "itch_frame (MOrderDelete m) out = (base_frame OrderDelete m out)\<lparr>if_order_ref_number := of_nat (be_value (od_order_reference_number m))\<rparr>"
| "itch_frame (MOrderReplace m) out = (base_frame OrderReplace m out)\<lparr>if_order_ref_number := of_nat (be_value (ou_original_order_reference_number m)),
     if_secondary_ref_number := of_nat (be_value (ou_new_order_reference_number m)), if_shares := of_nat (be_value (ou_shares m)),
     if_price_ticks := be_price (ou_price m)\<rparr>"

lemma price_word: "length bs = 4 \<Longrightarrow> uint (of_nat (be_value bs) :: u32) = be_price bs"
proof -
  assume "length bs = 4"
  then have "be_value bs < 2 ^ 32" using le_value_less [of "rev bs"] by (simp add: be_value_def)
  then have "unat (of_nat (be_value bs) :: u32) = be_value bs" by (simp add: unat_of_nat take_bit_nat_eq_self)
  then show ?thesis by (metis be_price_def uint_nat)
qed

lemma itch_decode_msg: "itch_wf m \<Longrightarrow> decode (Some (itch_bytes m @ rest)) out = Some (Some (itch_frame m out))"
  by (cases m; simp add: decode_def Let_def decode_common_eq head_bytes_def head_wf_def message_type_of_def be_fields rd_def byte_at_def nth_append
      base_frame_def price_word)

section \<open>Generated messages\<close>

lemma length_put_at [simp]: "off + length bs \<le> length buf \<Longrightarrow> length (put_at off bs buf) = length buf"
  by (simp add: put_at_def)

lemma take_put_at: "m \<le> off \<Longrightarrow> off \<le> length buf \<Longrightarrow> take m (put_at off bs buf) = take m buf"
  by (simp add: put_at_def min_def)

lemma take_put_end: "off + length bs = n \<Longrightarrow> n \<le> length buf \<Longrightarrow> take n (put_at off bs buf) = take off buf @ bs"
  by (auto simp: put_at_def)

lemma length_put_be [simp]: "length (put_be16 a) = 2" "length (put_be32 b) = 4" "length (put_be64 c) = 8" "length (put_be48_ns d) = 6"
  by (simp_all add: put_bytes put_be48_ns_def)

lemma length_kSymbol [simp]: "length (kSymbol n) = 8"
  by (cases n rule: kSymbol.cases) simp_all

text \<open>The first eleven bytes of a generated message.\<close>

lemma header_written:
  assumes "length buf = 40"
  shows "take 11 (put_at 5 (put_be48_ns t) (put_at 3 (put_be16 k) (put_at 1 (put_be16 l) (put_at 0 [b] buf)))) =
    b # put_be16 l @ put_be16 k @ put_be48_ns t"
proof -
  let ?b0 = "put_at 0 [b] buf" let ?b1 = "put_at 1 (put_be16 l) ?b0" let ?b2 = "put_at 3 (put_be16 k) ?b1"
  have l: "length ?b0 = 40" "length ?b1 = 40" "length ?b2 = 40" using assms by simp_all
  have 0: "take 1 ?b0 = take 0 buf @ [b]" using assms by (intro take_put_end) simp_all
  have 1: "take 3 ?b1 = take 1 ?b0 @ put_be16 l" using l by (intro take_put_end) simp_all
  have 2: "take 5 ?b2 = take 3 ?b1 @ put_be16 k" using l by (intro take_put_end) simp_all
  have "take 11 (put_at 5 (put_be48_ns t) ?b2) = take 5 ?b2 @ put_be48_ns t" using l by (intro take_put_end) simp_all
  then show ?thesis unfolding 2 1 0 by simp
qed

lemma generated_decodes:
  assumes h: "take 11 buf = message_byte ty # put_be16 l @ put_be16 k @ put_be48_ns t" and b: "length buf = 40"
  shows "\<exists>f. decode (Some (take (sizeof_msg ty) buf)) out = Some (Some f) \<and> if_msg_type f = message_byte ty \<and> if_stock_locate f = l \<and>
    unat (if_itch_timestamp_ns f) = unat t mod 2 ^ 48"
proof -
  let ?w = "take (sizeof_msg ty) buf"
  have l: "length ?w = sizeof_msg ty" using b sizeof_msg_min(2) [of ty] by simp
  have t11: "take 11 ?w = message_byte ty # put_be16 l @ put_be16 k @ put_be48_ns t" using h sizeof_msg_min(1) [of ty] by (simp add: min_def)
  have z: "?w ! 0 = message_byte ty" using t11 by (metis nth_Cons_0 nth_take zero_less_numeral)
  have "take 2 (drop 1 ?w) = drop 1 (take 3 (take 11 ?w))" by (simp add: take_drop del: take_take) (simp add: min_def)
  then have sl: "take 2 (drop 1 ?w) = put_be16 l" unfolding t11 by simp
  have "take 6 (drop 5 ?w) = drop 5 (take 11 ?w)" by (simp add: take_drop)
  then have ts: "take 6 (drop 5 ?w) = put_be48_ns t" unfolding t11 by simp
  have "message_type_of (?w ! 0) = Some ty" unfolding z by simp
  moreover have "sizeof_msg ty \<le> length ?w" using l by simp
  ultimately obtain f where f: "decode (Some ?w) out = Some (Some f)" "if_msg_type f = ?w ! 0"
      "if_stock_locate f = of_nat (be_value (put_be16 l))" "if_itch_timestamp_ns f = of_nat (be_value (put_be48_ns t))"
    using decode_known [of ?w ty out] unfolding sl ts by blast
  have "unat (of_nat (unat t mod 2 ^ 48) :: u64) = unat t mod 2 ^ 48" by (intro unat_of_nat64) (rule order_less_trans [OF mod_less_divisor], simp_all)
  then show ?thesis using f z be_word [of 2 l] by (simp add: be48_put put_bytes)
qed

lemma generate_ok:
  assumes "length buf = 40" and g: "generate buf g = ((len, ty), buf', g')"
  shows "length buf' = 40 \<and> len = sizeof_msg ty \<and> (\<exists>l k. take 11 buf' = message_byte ty # put_be16 l @ put_be16 k @ put_be48_ns (ge_itch_clock_ns g'))"
proof -
  have c: "ge_itch_clock_ns (snd (next_rand x)) = ge_itch_clock_ns x" for x by (simp add: next_rand_def Let_def)
  show ?thesis using g assms(1)
    by (auto simp: generate_def Let_def case_prod_beta c take_put_at simp del: message_byte.simps split: MessageType.splits if_splits
        intro!: exI header_written [unfolded One_nat_def])
qed

section \<open>The bridge\<close>

text \<open>A drop-oldest ring of \<^term>\<open>c\<close> records after pushing to it.\<close>

definition newest :: "nat \<Rightarrow> 'a list \<Rightarrow> 'a list" where
  "newest c xs = drop (length xs - c) xs"

lemma newest_snoc: "0 < c \<Longrightarrow> newest c (newest c xs @ [y]) = newest c (xs @ [y])"
  by (cases "length xs \<le> c") (simp_all add: newest_def Suc_diff_le)

lemma newest_append: "0 < c \<Longrightarrow> newest c (newest c xs @ ys) = newest c (xs @ ys)"
proof (induction ys arbitrary: xs)
  case Nil
  then show ?case by (simp add: newest_def)
next
  case (Cons y ys)
  have "newest c (newest c xs @ y # ys) = newest c ((newest c xs @ [y]) @ ys)" by simp
  also have "\<dots> = newest c (newest c (newest c xs @ [y]) @ ys)" using Cons.IH [of "newest c xs @ [y]"] Cons.prems by simp
  also have "\<dots> = newest c (newest c (xs @ [y]) @ ys)" unfolding newest_snoc [OF Cons.prems] ..
  also have "\<dots> = newest c ((xs @ [y]) @ ys)" using Cons by simp
  finally show ?case by simp
qed

lemma overwrite_step:
  assumes ok: "shm_ok k T H m" and b: "H + 1 < 2 ^ 63" and sp: "\<exists>i<kMaxReclaimAttempts. \<not> spurious i"
  shows "\<exists>T' H'. shm_ok k T' H' (shm_push_overwrite spurious x m) \<and> H' \<le> Suc H \<and>
    shm_contents (shm_push_overwrite spurious x m) = newest (2 ^ k) (shm_contents m @ [x])"
proof -
  have c: "shm_cursors k T H m" using ok by (simp add: shm_ok_def)
  have len: "length (shm_contents m) \<le> 2 ^ k" using length_shm_contents [OF c] c unfolding shm_cursors_def by linarith
  obtain T' H' d where e: "shm_ok k T' H' (shm_push_overwrite spurious x m)" "H' \<le> Suc H"
      "queue_exec (2 ^ k) (Overwrite x) (shm_contents m, 0) = (Stored, shm_contents (shm_push_overwrite spurious x m), 0 + d)"
    using shm_exec_refines [OF ok b sp, of "Overwrite x" Stored "shm_push_overwrite spurious x m" 0] by auto
  have "shm_contents (shm_push_overwrite spurious x m) = newest (2 ^ k) (shm_contents m @ [x])"
  proof (cases "length (shm_contents m) < 2 ^ k")
    case True
    then have "newest (2 ^ k) (shm_contents m @ [x]) = shm_contents m @ [x]" by (simp add: newest_def)
    then show ?thesis using e(3) True by simp
  next
    case False
    then have "length (shm_contents m) = 2 ^ k" "shm_contents m \<noteq> []" using len by auto
    then have "newest (2 ^ k) (shm_contents m @ [x]) = tl (shm_contents m) @ [x]" by (simp add: newest_def drop_Suc)
    then show ?thesis using e(3) False by simp
  qed
  then show ?thesis using e(1,2) by blast
qed

lemma heartbeat_ok:
  "shm_ok k T H (m\<lparr>sr_header := producer_heartbeat (sr_header m)\<rparr>) = shm_ok k T H m"
  "shm_contents (m\<lparr>sr_header := producer_heartbeat (sr_header m)\<rparr>) = shm_contents m"
  by (simp_all add: shm_ok_def shm_cursors_def shm_contents_def sr_slot_def producer_heartbeat_def)

definition bridge_ok :: "nat \<Rightarrow> nat \<Rightarrow> bridge \<Rightarrow> bool" where
  "bridge_ok k n b \<longleftrightarrow> length (br_buf b) = 40 \<and> (\<exists>T H. shm_ok k T H (br_ring b) \<and> H + n < 2 ^ 63)"

lemma bridge_step_ok:
  assumes "bridge_ok k (Suc n) b" and sp: "\<exists>i<kMaxReclaimAttempts. \<not> spurious i"
  shows "\<exists>b' f. bridge_step spurious now b = Some b' \<and> bridge_ok k n b' \<and> br_pushed b' = br_pushed b + 1 \<and> br_failures b' = br_failures b \<and>
    if_sequence_id f = br_pushed b \<and> if_recv_timestamp_ns f = now \<and> shm_contents (br_ring b') = newest (2 ^ k) (shm_contents (br_ring b) @ [f])"
proof -
  obtain T H where b: "length (br_buf b) = 40" "shm_ok k T H (br_ring b)" "H + Suc n < 2 ^ 63" using assms(1) by (auto simp: bridge_ok_def)
  obtain len ty buf' g' where g: "generate (br_buf b) (br_gen b) = ((len, ty), buf', g')" by (metis prod.collapse)
  obtain l c where gb: "length buf' = 40" "len = sizeof_msg ty" "take 11 buf' = message_byte ty # put_be16 l @ put_be16 c @ put_be48_ns (ge_itch_clock_ns g')"
    using generate_ok [OF b(1) g] by auto
  obtain f where f: "decode (Some (take len buf')) zero_frame = Some (Some f)" using generated_decodes [OF gb(3,1), of zero_frame] gb(2) by auto
  let ?f = "f\<lparr>if_sequence_id := br_pushed b, if_recv_timestamp_ns := now\<rparr>" let ?r = "shm_push_overwrite spurious ?f (br_ring b)"
  have h: "H + 1 < 2 ^ 63" using b(3) by linarith
  obtain T' H' where r: "shm_ok k T' H' ?r" "H' \<le> Suc H" "shm_contents ?r = newest (2 ^ k) (shm_contents (br_ring b) @ [?f])"
    using overwrite_step [OF b(2) h sp] by blast
  let ?b = "b\<lparr>br_buf := buf', br_gen := g', br_ring := ?r\<lparr>sr_header := producer_heartbeat (sr_header ?r)\<rparr>, br_pushed := br_pushed b + 1\<rparr>"
  have "bridge_step spurious now b = Some ?b" by (simp add: bridge_step_def g f Let_def)
  moreover have "bridge_ok k n ?b" using gb(1) r(1,2) b(3) by (fastforce simp: bridge_ok_def heartbeat_ok)
  moreover have "if_sequence_id ?f = br_pushed b" "if_recv_timestamp_ns ?f = now" "br_pushed ?b = br_pushed b + 1" "br_failures ?b = br_failures b"
    "shm_contents (br_ring ?b) = newest (2 ^ k) (shm_contents (br_ring b) @ [?f])" using r(3) by (simp_all add: heartbeat_ok)
  ultimately show ?thesis by blast
qed

lemma bridge_run_ok:
  assumes sp: "\<exists>i<kMaxReclaimAttempts. \<not> spurious i"
  shows "bridge_ok k (length nows) b \<Longrightarrow>
   \<exists>b' fs. bridge_run spurious nows b = Some b' \<and> br_pushed b' = br_pushed b + of_nat (length nows) \<and> br_failures b' = br_failures b \<and>
     map if_sequence_id fs = map (\<lambda>i. br_pushed b + of_nat i) [0..<length nows] \<and> map if_recv_timestamp_ns fs = nows \<and>
     shm_contents (br_ring b') = newest (2 ^ k) (shm_contents (br_ring b) @ fs)"
proof (induction nows arbitrary: b)
  case Nil
  then obtain T H where "shm_cursors k T H (br_ring b)" by (auto simp: bridge_ok_def shm_ok_def)
  then have "length (shm_contents (br_ring b)) \<le> 2 ^ k" using length_shm_contents by (fastforce simp: shm_cursors_def)
  then show ?case by (simp add: newest_def)
next
  case (Cons now nows)
  then obtain b1 f where s: "bridge_step spurious now b = Some b1" "bridge_ok k (length nows) b1" "br_pushed b1 = br_pushed b + 1" "br_failures b1 = br_failures b"
    "if_sequence_id f = br_pushed b" "if_recv_timestamp_ns f = now" "shm_contents (br_ring b1) = newest (2 ^ k) (shm_contents (br_ring b) @ [f])"
    using bridge_step_ok [OF _ sp, of k "length nows" b now] by auto
  obtain b' fs where r: "bridge_run spurious nows b1 = Some b'" "br_pushed b' = br_pushed b1 + of_nat (length nows)" "br_failures b' = br_failures b1"
     "map if_sequence_id fs = map (\<lambda>i. br_pushed b1 + of_nat i) [0..<length nows]" "map if_recv_timestamp_ns fs = nows"
     "shm_contents (br_ring b') = newest (2 ^ k) (shm_contents (br_ring b1) @ fs)" using Cons.IH [OF s(2)] by blast
  have "map (\<lambda>i. br_pushed b + of_nat i) [0..<length (now # nows)] = br_pushed b # map (\<lambda>i. br_pushed b1 + of_nat i) [0..<length nows]"
    by (simp add: s(3) upt_conv_Cons map_Suc_upt [symmetric] add.assoc del: upt_Suc)
  moreover have "shm_contents (br_ring b') = newest (2 ^ k) (shm_contents (br_ring b) @ f # fs)"
    using r(6) s(7) newest_append [of "2 ^ k" "shm_contents (br_ring b) @ [f]" fs] by simp
  ultimately show ?case using s r by (intro exI [of _ b'] exI [of _ "f # fs"] conjI) (simp_all add: add.assoc)
qed

section \<open>Properties\<close>

text \<open>
  C25: the decoder never reads outside the bytes it was given, whatever they are, and accepts exactly the buffers that start
  with one of the eight message types and are at least as long as its struct.
\<close>

theorem itch_decode_in_bounds:
  "decode wire out \<noteq> None \<and>
   ((\<exists>f. decode wire out = Some (Some f)) \<longleftrightarrow> (\<exists>w ty. wire = Some w \<and> w \<noteq> [] \<and> message_type_of (w ! 0) = Some ty \<and> sizeof_msg ty \<le> length w))"
proof (cases "\<exists>w ty. wire = Some w \<and> w \<noteq> [] \<and> message_type_of (w ! 0) = Some ty \<and> sizeof_msg ty \<le> length w")
  case True
  then obtain w ty where "wire = Some w" "message_type_of (w ! 0) = Some ty" "sizeof_msg ty \<le> length w" by blast
  then show ?thesis using decode_known [of w ty out] True by auto
next
  case False
  then have "decode wire out = Some None" by (auto simp: decode_def Let_def split: option.split)
  then show ?thesis using False by simp
qed

text \<open>
  C24: the offsets of the decoder are those of the packed structs. For each of the eight messages, with any field contents
  and anything behind it in the buffer, the frame has the big-endian value of each field the adapter carries, the ticker
  bytes as they are, and zero in the fields the message does not have.
\<close>

theorem itch_decode_exact:
  assumes "itch_wf m"
  shows "decode (Some (itch_bytes m @ rest)) out = Some (Some (itch_frame m out))"
  by (rule itch_decode_msg [OF assms])

text \<open>
  the bridge pushes every message it generates. Each generated message decodes, so after one turn per clock
  reading no failure was counted, the counter of pushed frames has grown by the number of turns, and the ring holds the newest
  frames of its former contents followed by the new frames, which carry consecutive sequence numbers and the clock
  readings. The ring takes fewer than 2^63 records and the weak compare-exchange does not fail at every attempt.
\<close>

theorem itch_bridge_pushes_all:
  assumes "\<exists>i<kMaxReclaimAttempts. \<not> spurious i" and "bridge_ok k (length nows) b"
  shows "\<exists>b' fs. bridge_run spurious nows b = Some b' \<and> br_pushed b' = br_pushed b + of_nat (length nows) \<and> br_failures b' = br_failures b \<and>
     map if_sequence_id fs = map (\<lambda>i. br_pushed b + of_nat i) [0..<length nows] \<and> map if_recv_timestamp_ns fs = nows \<and>
     shm_contents (br_ring b') = newest (2 ^ k) (shm_contents (br_ring b) @ fs)"
  by (rule bridge_run_ok [OF assms])

section \<open>Witnesses\<close>

theorem itch_decode_exact_witness:
  "decode (Some (itch_bytes (MOrderDelete \<lparr>ih_stock_locate = [1, 2], ih_tracking_number = [0, 7], ih_timestamp = [0, 0, 0, 0, 1, 0],
     od_order_reference_number = [0, 0, 0, 0, 0, 0, 0, 9]\<rparr>) @ [5])) zero_frame =
   Some (Some (zero_frame\<lparr>if_itch_timestamp_ns := 256, if_stock_locate := 258, if_msg_type := 0x44, if_order_ref_number := 9\<rparr>))"
  using itch_decode_exact [of "MOrderDelete \<lparr>ih_stock_locate = [1, 2], ih_tracking_number = [0, 7], ih_timestamp = [0, 0, 0, 0, 1, 0],
     od_order_reference_number = [0, 0, 0, 0, 0, 0, 0, 9]\<rparr>" "[5]" zero_frame]
  by (simp add: head_wf_def base_frame_def be_value_def zero_frame_def)

definition demo_bridge :: bridge where
  "demo_bridge = \<lparr>br_gen = new_Generator, br_buf = replicate 40 0, br_ring = \<lparr>sr_header = new_RingHeader (Traits 64) 2, sr_slots = [zero_frame, zero_frame]\<rparr>,
     br_pushed = 0, br_failures = 0\<rparr>"

theorem itch_bridge_pushes_all_witness:
  "\<exists>b' fs. bridge_run (\<lambda>i. False) [10, 20, 30] demo_bridge = Some b' \<and> br_pushed b' = 3 \<and> br_failures b' = 0 \<and>
     map if_sequence_id fs = [0, 1, 2] \<and> shm_contents (br_ring b') = newest (2 ^ 1) fs"
proof -
  have sp: "\<exists>i<kMaxReclaimAttempts. \<not> (\<lambda>i::nat. False) i" by (auto simp: kMaxReclaimAttempts_def intro: exI [of _ 0])
  have c: "shm_ok 1 0 0 (br_ring demo_bridge)" "shm_contents (br_ring demo_bridge) = []" by (code_simp, simp add: demo_bridge_def shm_contents_def new_RingHeader_def)
  then have "bridge_ok 1 (length [10, 20, 30 :: u64]) demo_bridge" unfolding bridge_ok_def by (auto simp: demo_bridge_def intro!: exI [of _ 0])
  from itch_bridge_pushes_all [OF sp this] obtain b' fs where r: "bridge_run (\<lambda>i. False) [10, 20, 30] demo_bridge = Some b'"
    "br_pushed b' = br_pushed demo_bridge + of_nat (length [10, 20, 30 :: u64])" "br_failures b' = br_failures demo_bridge"
    "map if_sequence_id fs = map (\<lambda>i. br_pushed demo_bridge + of_nat i) [0..<length [10, 20, 30 :: u64]]"
    "shm_contents (br_ring b') = newest (2 ^ 1) (shm_contents (br_ring demo_bridge) @ fs)" by blast
  have d: "br_pushed demo_bridge = 0" "br_failures demo_bridge = 0" by (simp_all add: demo_bridge_def)
  show ?thesis by (rule exI [of _ b'], rule exI [of _ fs]) (use r c(2) d in \<open>simp add: upt_rec\<close>)
qed

end
