(* ===== verification/Cme.thy ===== *)
theory Cme
  imports Bytes
begin

text \<open>
  The CME MDP 3.0 adapter (\<^verbatim>\<open>adapters/cme_mdp3\<close>): the packed SBE structs, the repeating-group view, the datagram decoder and
  the receive loop. A read outside the datagram, and a loop that does not end, is \<^term>\<open>None\<close>. Offsets are natural numbers: a datagram
  in memory is far below 2^63 bytes and no sum of the decoder exceeds its length by more than 2^25. The ring
  \<^verbatim>\<open>animus::eval::SpscRingBuffer\<close> is the parameter \<open>push\<close>, any function that answers whether it took the frame.
\<close>

section \<open>Wire structs\<close>

record PacketHeader =
  ph_sequence_number :: u32
  ph_sending_time :: u64

record SbeMessageHeader =
  mh_block_length :: u16
  mh_template_id :: u16
  mh_schema_id :: u16
  mh_version :: u16

record GroupSizeEncoding =
  gs_block_length :: u16
  gs_num_in_group :: u8

record MDIncrementalRefreshBook46 =
  rb_transact_time :: u64
  rb_match_event_indicator :: u8

record MDEntry46 =
  me_md_entry_px :: int
  me_md_entry_size :: int
  me_security_id :: int
  me_rpt_seq :: u32
  me_number_of_orders :: int
  me_md_price_level :: u8
  me_md_update_action :: u8
  me_md_entry_type :: u8

definition sizeof_PacketHeader :: nat where "sizeof_PacketHeader = 12"
definition sizeof_SbeMessageHeader :: nat where "sizeof_SbeMessageHeader = 8"
definition sizeof_GroupSizeEncoding :: nat where "sizeof_GroupSizeEncoding = 3"
definition sizeof_MDIncrementalRefreshBook46 :: nat where "sizeof_MDIncrementalRefreshBook46 = 9"
definition sizeof_MDEntry46 :: nat where "sizeof_MDEntry46 = 27"

lemmas sizeof_cme = sizeof_PacketHeader_def sizeof_SbeMessageHeader_def sizeof_GroupSizeEncoding_def
  sizeof_MDIncrementalRefreshBook46_def sizeof_MDEntry46_def

text \<open>The members of a packed struct over the bytes of its object.\<close>

definition word_at :: "nat \<Rightarrow> nat \<Rightarrow> u8 list \<Rightarrow> 'a::len word" where
  "word_at off n b = of_nat (le_at off n b)"

definition PacketHeader_of :: "u8 list \<Rightarrow> PacketHeader" where
  "PacketHeader_of b = \<lparr>ph_sequence_number = word_at 0 4 b, ph_sending_time = word_at 4 8 b\<rparr>"

definition SbeMessageHeader_of :: "u8 list \<Rightarrow> SbeMessageHeader" where
  "SbeMessageHeader_of b = \<lparr>mh_block_length = word_at 0 2 b, mh_template_id = word_at 2 2 b, mh_schema_id = word_at 4 2 b, mh_version = word_at 6 2 b\<rparr>"

definition GroupSizeEncoding_of :: "u8 list \<Rightarrow> GroupSizeEncoding" where
  "GroupSizeEncoding_of b = \<lparr>gs_block_length = word_at 0 2 b, gs_num_in_group = word_at 2 1 b\<rparr>"

definition MDIncrementalRefreshBook46_of :: "u8 list \<Rightarrow> MDIncrementalRefreshBook46" where
  "MDIncrementalRefreshBook46_of b = \<lparr>rb_transact_time = word_at 0 8 b, rb_match_event_indicator = word_at 8 1 b\<rparr>"

definition MDEntry46_of :: "u8 list \<Rightarrow> MDEntry46" where
  "MDEntry46_of b = \<lparr>me_md_entry_px = sint (word_at 0 8 b :: u64), me_md_entry_size = sint (word_at 8 4 b :: u32),
     me_security_id = sint (word_at 12 4 b :: u32), me_rpt_seq = word_at 16 4 b, me_number_of_orders = sint (word_at 20 4 b :: u32),
     me_md_price_level = word_at 24 1 b, me_md_update_action = word_at 25 1 b, me_md_entry_type = word_at 26 1 b\<rparr>"

definition root_block_end_offset :: "SbeMessageHeader \<Rightarrow> nat" where
  "root_block_end_offset header = sizeof_SbeMessageHeader + unat (mh_block_length header)"

section \<open>The repeating-group view\<close>

record SbeRepeatingGroupView =
  gv_dimension :: GroupSizeEncoding
  gv_first_entry :: nat

definition new_view :: "u8 list \<Rightarrow> nat \<Rightarrow> SbeRepeatingGroupView option" where
  "new_view buf group_start = map_option (\<lambda>b. \<lparr>gv_dimension = GroupSizeEncoding_of b, gv_first_entry = group_start + sizeof_GroupSizeEncoding\<rparr>)
     (rd group_start sizeof_GroupSizeEncoding buf)"

definition entry_count :: "SbeRepeatingGroupView \<Rightarrow> nat" where
  "entry_count v = unat (gs_num_in_group (gv_dimension v))"

definition wire_block_length :: "SbeRepeatingGroupView \<Rightarrow> nat" where
  "wire_block_length v = unat (gs_block_length (gv_dimension v))"

definition byte_length :: "SbeRepeatingGroupView \<Rightarrow> nat" where
  "byte_length v = sizeof_GroupSizeEncoding + unat (gs_num_in_group (gv_dimension v)) * unat (gs_block_length (gv_dimension v))"

record group_iterator =
  it_ptr :: nat
  it_stride :: nat

definition iter_deref :: "u8 list \<Rightarrow> group_iterator \<Rightarrow> MDEntry46 option" where
  "iter_deref buf it = map_option MDEntry46_of (rd (it_ptr it) sizeof_MDEntry46 buf)"

definition iter_next :: "group_iterator \<Rightarrow> group_iterator" where
  "iter_next it = it\<lparr>it_ptr := it_ptr it + it_stride it\<rparr>"

definition iter_ne :: "group_iterator \<Rightarrow> group_iterator \<Rightarrow> bool" where
  "iter_ne a b = (it_ptr a \<noteq> it_ptr b)"

definition view_begin :: "SbeRepeatingGroupView \<Rightarrow> group_iterator" where
  "view_begin v = \<lparr>it_ptr = gv_first_entry v, it_stride = wire_block_length v\<rparr>"

definition view_end :: "SbeRepeatingGroupView \<Rightarrow> group_iterator" where
  "view_end v = \<lparr>it_ptr = gv_first_entry v + unat (gs_num_in_group (gv_dimension v)) * unat (gs_block_length (gv_dimension v)),
     it_stride = wire_block_length v\<rparr>"

section \<open>The decoder\<close>

record MdBookUpdateFrame =
  mf_sequence_id :: u64
  mf_recv_timestamp_ns :: u64
  mf_transact_time_ns :: u64
  mf_md_entry_px :: int
  mf_rpt_seq :: u32
  mf_packet_sequence_number :: u32
  mf_security_id :: int
  mf_md_entry_size :: int
  mf_number_of_orders :: int
  mf_md_price_level :: u8
  mf_md_update_action :: u8
  mf_md_entry_type :: u8
  mf_match_event_indicator :: u8
  mf_flags :: u64

record IngestStats =
  packets_received :: u64
  packets_malformed :: u64
  receive_errors :: u64
  messages_decoded_t46 :: u64
  messages_skipped_other_template :: u64
  entries_pushed :: u64
  entries_ring_full_dropped :: u64

text \<open>What the decoder changes through its reference arguments.\<close>

record 'r ingest =
  in_ring :: 'r
  in_next_frame_sequence :: u64
  in_stats :: IngestStats

definition entry_frame :: "u64 \<Rightarrow> PacketHeader \<Rightarrow> MDIncrementalRefreshBook46 \<Rightarrow> u64 \<Rightarrow> MDEntry46 \<Rightarrow> MdBookUpdateFrame" where
  "entry_frame arrival_ts_ns packet_header root sq entry =
     \<lparr>mf_sequence_id = sq, mf_recv_timestamp_ns = arrival_ts_ns, mf_transact_time_ns = rb_transact_time root,
      mf_md_entry_px = me_md_entry_px entry, mf_rpt_seq = me_rpt_seq entry, mf_packet_sequence_number = ph_sequence_number packet_header,
      mf_security_id = me_security_id entry, mf_md_entry_size = me_md_entry_size entry, mf_number_of_orders = me_number_of_orders entry,
      mf_md_price_level = me_md_price_level entry, mf_md_update_action = me_md_update_action entry, mf_md_entry_type = me_md_entry_type entry,
      mf_match_event_indicator = rb_match_event_indicator root, mf_flags = 0\<rparr>"

definition push_frame :: "(MdBookUpdateFrame \<Rightarrow> 'r \<Rightarrow> bool \<times> 'r) \<Rightarrow> MdBookUpdateFrame \<Rightarrow> 'r ingest \<Rightarrow> 'r ingest" where
  "push_frame push frame s =
     (let (ok, ring) = push frame (in_ring s) in
      if ok then s\<lparr>in_ring := ring, in_stats := (in_stats s)\<lparr>entries_pushed := entries_pushed (in_stats s) + 1\<rparr>\<rparr>
      else s\<lparr>in_ring := ring, in_stats := (in_stats s)\<lparr>entries_ring_full_dropped := entries_ring_full_dropped (in_stats s) + 1\<rparr>\<rparr>)"

definition push_entry ::
  "(MdBookUpdateFrame \<Rightarrow> 'r \<Rightarrow> bool \<times> 'r) \<Rightarrow> u64 \<Rightarrow> PacketHeader \<Rightarrow> MDIncrementalRefreshBook46 \<Rightarrow> MDEntry46 \<Rightarrow> 'r ingest \<Rightarrow> 'r ingest" where
  "push_entry push ts ph root entry s =
     push_frame push (entry_frame ts ph root (in_next_frame_sequence s) entry) (s\<lparr>in_next_frame_sequence := in_next_frame_sequence s + 1\<rparr>)"

partial_function (option) entry_loop ::
  "(MDEntry46 \<Rightarrow> 's \<Rightarrow> 's) \<Rightarrow> u8 list \<Rightarrow> group_iterator \<Rightarrow> group_iterator \<Rightarrow> 's \<Rightarrow> 's option" where
  [code]: "entry_loop body buf it end_it s =
     (if iter_ne it end_it
      then Option.bind (iter_deref buf it) (\<lambda>entry. entry_loop body buf (iter_next it) end_it (body entry s))
      else Some s)"

definition malformed :: "'r ingest \<Rightarrow> 'r ingest" where
  "malformed s = s\<lparr>in_stats := (in_stats s)\<lparr>packets_malformed := packets_malformed (in_stats s) + 1\<rparr>\<rparr>"

definition skipped :: "'r ingest \<Rightarrow> 'r ingest" where
  "skipped s = s\<lparr>in_stats := (in_stats s)\<lparr>messages_skipped_other_template := messages_skipped_other_template (in_stats s) + 1\<rparr>\<rparr>"

definition decoded :: "'r ingest \<Rightarrow> 'r ingest" where
  "decoded s = s\<lparr>in_stats := (in_stats s)\<lparr>messages_decoded_t46 := messages_decoded_t46 (in_stats s) + 1\<rparr>\<rparr>"

text \<open>
  One turn of the walk over the messages of a datagram. The first component is the new offset, or \<^term>\<open>None\<close> when the
  function returns.
\<close>

definition message_step ::
  "(MdBookUpdateFrame \<Rightarrow> 'r \<Rightarrow> bool \<times> 'r) \<Rightarrow> u8 list \<Rightarrow> u64 \<Rightarrow> PacketHeader \<Rightarrow> nat \<Rightarrow> 'r ingest \<Rightarrow> (nat option \<times> 'r ingest) option" where
  "message_step push buf ts ph offset s =
     Option.bind (map_option SbeMessageHeader_of (rd offset sizeof_SbeMessageHeader buf)) (\<lambda>mh.
       let root_start = offset + sizeof_SbeMessageHeader in
       if root_start + unat (mh_block_length mh) > length buf then Some (None, malformed s)
       else if mh_template_id mh \<noteq> 46 then Some (None, skipped s)
       else if unat (mh_block_length mh) < sizeof_MDIncrementalRefreshBook46 then Some (None, malformed s)
       else Option.bind (map_option MDIncrementalRefreshBook46_of (rd root_start sizeof_MDIncrementalRefreshBook46 buf)) (\<lambda>root.
         let group_start = root_start + unat (mh_block_length mh) in
         if group_start + sizeof_GroupSizeEncoding > length buf then Some (None, malformed s)
         else Option.bind (new_view buf group_start) (\<lambda>view.
           if wire_block_length view < sizeof_MDEntry46 then Some (None, malformed s)
           else if group_start + byte_length view > length buf then Some (None, malformed s)
           else map_option (\<lambda>s. (Some (group_start + byte_length view), s))
                  (entry_loop (push_entry push ts ph root) buf (view_begin view) (view_end view) (decoded s)))))"

lemma message_step_advances: "message_step push buf ts ph offset s = Some (Some off, s') \<Longrightarrow> offset < off"
  by (auto simp: message_step_def Let_def sizeof_cme split: if_splits Option.bind_splits)

function (sequential) message_loop ::
  "(MdBookUpdateFrame \<Rightarrow> 'r \<Rightarrow> bool \<times> 'r) \<Rightarrow> u8 list \<Rightarrow> u64 \<Rightarrow> PacketHeader \<Rightarrow> nat \<Rightarrow> 'r ingest \<Rightarrow> 'r ingest option" where
  "message_loop push buf ts ph offset s =
     (if offset + sizeof_SbeMessageHeader \<le> length buf
      then case message_step push buf ts ph offset s of
             None \<Rightarrow> None
           | Some (None, s') \<Rightarrow> Some s'
           | Some (Some off, s') \<Rightarrow> message_loop push buf ts ph off s'
      else Some s)"
  by pat_completeness auto
termination
  by (relation "measure (\<lambda>(push, buf, ts, ph, offset, s). length buf - offset)")
     (auto dest: message_step_advances simp: sizeof_cme)

declare message_loop.simps [simp del]

definition decode_packet_into_ring ::
  "(MdBookUpdateFrame \<Rightarrow> 'r \<Rightarrow> bool \<times> 'r) \<Rightarrow> u8 list \<Rightarrow> u64 \<Rightarrow> 'r ingest \<Rightarrow> 'r ingest option" where
  "decode_packet_into_ring push buf arrival_ts_ns s =
     (if length buf < sizeof_PacketHeader then Some (malformed s)
      else Option.bind (map_option PacketHeader_of (rd 0 sizeof_PacketHeader buf)) (\<lambda>packet_header.
             message_loop push buf arrival_ts_ns packet_header sizeof_PacketHeader s))"

section \<open>The receive loop\<close>

text \<open>
  What the platform answers to \<^verbatim>\<open>recvmsg\<close>: an errno, or the bytes of a datagram and the control messages that came with
  it. The values of the platform's constants are a parameter.
\<close>

type_synonym timespec = "int \<times> int"

record cmsghdr =
  cm_level :: int
  cm_type :: int
  cm_data :: timespec

datatype recv_ret = RecvFail int | RecvData "u8 list" "cmsghdr list"

record sock_consts =
  sc_EWOULDBLOCK :: int
  sc_EAGAIN :: int
  sc_SOL_SOCKET :: int
  sc_SCM_TIMESTAMPNS :: int

datatype RecvResult = kOk | kWouldBlock | kError

fun timespec_ns :: "timespec \<Rightarrow> u64" where
  "timespec_ns (tv_sec, tv_nsec) = of_int tv_sec * 1000000000 + of_int tv_nsec"

fun cmsg_stamp :: "sock_consts \<Rightarrow> cmsghdr list \<Rightarrow> u64 option" where
  "cmsg_stamp k [] = None"
| "cmsg_stamp k (c # cs) =
     (if cm_level c = sc_SOL_SOCKET k \<and> cm_type c = sc_SCM_TIMESTAMPNS k then Some (timespec_ns (cm_data c)) else cmsg_stamp k cs)"

fun recv_one_packet :: "sock_consts \<Rightarrow> recv_ret \<Rightarrow> timespec \<Rightarrow> RecvResult \<times> u8 list \<times> u64" where
  "recv_one_packet k (RecvFail e) now = ((if e = sc_EWOULDBLOCK k \<or> e = sc_EAGAIN k then kWouldBlock else kError), [], 0)"
| "recv_one_packet k (RecvData bs cs) now = (kOk, bs, (case cmsg_stamp k cs of Some ts \<Rightarrow> ts | None \<Rightarrow> timespec_ns now))"

definition ingest_turn ::
  "sock_consts \<Rightarrow> (MdBookUpdateFrame \<Rightarrow> 'r \<Rightarrow> bool \<times> 'r) \<Rightarrow> recv_ret \<times> timespec \<Rightarrow> 'r ingest \<Rightarrow> 'r ingest option" where
  "ingest_turn k push ev s =
     (case recv_one_packet k (fst ev) (snd ev) of
        (kWouldBlock, buf, ts) \<Rightarrow> Some s
      | (kError, buf, ts) \<Rightarrow> Some (s\<lparr>in_stats := (in_stats s)\<lparr>receive_errors := receive_errors (in_stats s) + 1\<rparr>\<rparr>)
      | (kOk, buf, ts) \<Rightarrow>
          decode_packet_into_ring push buf ts (s\<lparr>in_stats := (in_stats s)\<lparr>packets_received := packets_received (in_stats s) + 1\<rparr>\<rparr>))"

text \<open>The turns taken until \<^verbatim>\<open>keep_running\<close> is seen cleared, one event for each.\<close>

fun ingest_turns ::
  "sock_consts \<Rightarrow> (MdBookUpdateFrame \<Rightarrow> 'r \<Rightarrow> bool \<times> 'r) \<Rightarrow> (recv_ret \<times> timespec) list \<Rightarrow> 'r ingest \<Rightarrow> 'r ingest option" where
  "ingest_turns k push [] s = Some s"
| "ingest_turns k push (ev # evs) s = Option.bind (ingest_turn k push ev s) (ingest_turns k push evs)"

definition run_ingest_loop ::
  "sock_consts \<Rightarrow> (MdBookUpdateFrame \<Rightarrow> 'r \<Rightarrow> bool \<times> 'r) \<Rightarrow> (recv_ret \<times> timespec) list \<Rightarrow> 'r \<Rightarrow> IngestStats \<Rightarrow> 'r ingest option" where
  "run_ingest_loop k push evs ring stats = ingest_turns k push evs \<lparr>in_ring = ring, in_next_frame_sequence = 0, in_stats = stats\<rparr>"

section \<open>Specification\<close>

text \<open>Offering frames to the ring one after the other: how many it takes, and the ring afterwards.\<close>

fun push_all :: "('f \<Rightarrow> 'r \<Rightarrow> bool \<times> 'r) \<Rightarrow> 'f list \<Rightarrow> 'r \<Rightarrow> nat \<times> 'r" where
  "push_all push [] r = (0, r)"
| "push_all push (f # fs) r = (let (ok, r1) = push f r; (n, r2) = push_all push fs r1 in ((if ok then Suc n else n), r2))"

text \<open>
  From \<open>s\<close> to \<open>s'\<close> the frames \<open>fs\<close> were offered to the ring, numbered consecutively, and each is counted as pushed or as dropped
  according to the ring's answer.
\<close>

definition ingested :: "(MdBookUpdateFrame \<Rightarrow> 'r \<Rightarrow> bool \<times> 'r) \<Rightarrow> 'r ingest \<Rightarrow> MdBookUpdateFrame list \<Rightarrow> 'r ingest \<Rightarrow> bool" where
  "ingested push s fs s' \<longleftrightarrow>
     (let n = fst (push_all push fs (in_ring s)) in
      in_ring s' = snd (push_all push fs (in_ring s)) \<and>
      entries_pushed (in_stats s') = entries_pushed (in_stats s) + of_nat n \<and>
      entries_ring_full_dropped (in_stats s') = entries_ring_full_dropped (in_stats s) + of_nat (length fs - n) \<and>
      in_next_frame_sequence s' = in_next_frame_sequence s + of_nat (length fs) \<and>
      map mf_sequence_id fs = map (\<lambda>i. in_next_frame_sequence s + of_nat i) [0..<length fs])"

fun entry_frames :: "u64 \<Rightarrow> PacketHeader \<Rightarrow> MDIncrementalRefreshBook46 \<Rightarrow> u64 \<Rightarrow> MDEntry46 list \<Rightarrow> MdBookUpdateFrame list" where
  "entry_frames ts ph root sq [] = []"
| "entry_frames ts ph root sq (e # es) = entry_frame ts ph root sq e # entry_frames ts ph root (sq + 1) es"

definition other_stats :: "'r ingest \<Rightarrow> u64 list" where
  "other_stats s = [packets_received (in_stats s), receive_errors (in_stats s), packets_malformed (in_stats s), messages_skipped_other_template (in_stats s)]"

text \<open>
  A template 46 message: the root block with bytes a newer schema may have added, and entries of a common width, each with the
  bytes behind the fields the adapter knows.
\<close>

record book_message =
  bm_schema_id :: u16
  bm_version :: u16
  bm_root :: MDIncrementalRefreshBook46
  bm_root_extra :: "u8 list"
  bm_stride :: nat
  bm_entries :: "(MDEntry46 \<times> u8 list) list"

definition w_bytes :: "nat \<Rightarrow> 'a::len word \<Rightarrow> u8 list" where
  "w_bytes n w = le_bytes n (unat w)"

definition header_bytes :: "PacketHeader \<Rightarrow> u8 list" where
  "header_bytes ph = w_bytes 4 (ph_sequence_number ph) @ w_bytes 8 (ph_sending_time ph)"

definition root_bytes :: "MDIncrementalRefreshBook46 \<Rightarrow> u8 list" where
  "root_bytes r = w_bytes 8 (rb_transact_time r) @ [rb_match_event_indicator r]"

definition entry_bytes :: "MDEntry46 \<Rightarrow> u8 list" where
  "entry_bytes e = w_bytes 8 (of_int (me_md_entry_px e) :: u64) @ w_bytes 4 (of_int (me_md_entry_size e) :: u32) @
     w_bytes 4 (of_int (me_security_id e) :: u32) @ w_bytes 4 (me_rpt_seq e) @ w_bytes 4 (of_int (me_number_of_orders e) :: u32) @
     [me_md_price_level e, me_md_update_action e, me_md_entry_type e]"

definition group_bytes :: "(MDEntry46 \<times> u8 list) list \<Rightarrow> u8 list" where
  "group_bytes es = concat (map (\<lambda>(e, x). entry_bytes e @ x) es)"

definition message_bytes :: "book_message \<Rightarrow> u8 list" where
  "message_bytes m =
     (le_bytes 2 (9 + length (bm_root_extra m)) @ le_bytes 2 46 @ w_bytes 2 (bm_schema_id m) @ w_bytes 2 (bm_version m)) @
     root_bytes (bm_root m) @ bm_root_extra m @ (le_bytes 2 (bm_stride m) @ le_bytes 1 (length (bm_entries m))) @ group_bytes (bm_entries m)"

definition packet_bytes :: "PacketHeader \<Rightarrow> book_message list \<Rightarrow> u8 list" where
  "packet_bytes ph ms = header_bytes ph @ concat (map message_bytes ms)"

definition fits :: "nat \<Rightarrow> int \<Rightarrow> bool" where
  "fits n v \<longleftrightarrow> - (2 ^ (n - 1)) \<le> v \<and> v < 2 ^ (n - 1)"

definition entry_wf :: "MDEntry46 \<Rightarrow> bool" where
  "entry_wf e \<longleftrightarrow> fits 64 (me_md_entry_px e) \<and> fits 32 (me_md_entry_size e) \<and> fits 32 (me_security_id e) \<and> fits 32 (me_number_of_orders e)"

definition message_wf :: "book_message \<Rightarrow> bool" where
  "message_wf m \<longleftrightarrow> 9 + length (bm_root_extra m) < 2 ^ 16 \<and> 27 \<le> bm_stride m \<and> bm_stride m < 2 ^ 16 \<and> length (bm_entries m) < 2 ^ 8 \<and>
     list_all (\<lambda>(e, x). entry_wf e \<and> length x = bm_stride m - 27) (bm_entries m)"

fun packet_frames :: "u64 \<Rightarrow> PacketHeader \<Rightarrow> u64 \<Rightarrow> book_message list \<Rightarrow> MdBookUpdateFrame list" where
  "packet_frames ts ph sq [] = []"
| "packet_frames ts ph sq (m # ms) =
     entry_frames ts ph (bm_root m) sq (map fst (bm_entries m)) @ packet_frames ts ph (sq + of_nat (length (bm_entries m))) ms"

section \<open>Ingesting\<close>

lemma push_all_le: "fst (push_all push fs r) \<le> length fs"
proof (induction fs arbitrary: r)
  case (Cons f fs)
  obtain ok r1 where "push f r = (ok, r1)" by (cases "push f r")
  then show ?case using Cons [of r1] by (simp add: Let_def case_prod_beta)
qed simp

lemma push_all_append:
  "push_all push (fs @ gs) r =
     (fst (push_all push fs r) + fst (push_all push gs (snd (push_all push fs r))), snd (push_all push gs (snd (push_all push fs r))))"
  by (induction fs arbitrary: r) (simp_all add: Let_def split: prod.split)

lemma ingested_refl:
  "in_ring s' = in_ring s \<Longrightarrow> in_next_frame_sequence s' = in_next_frame_sequence s \<Longrightarrow> entries_pushed (in_stats s') = entries_pushed (in_stats s) \<Longrightarrow>
   entries_ring_full_dropped (in_stats s') = entries_ring_full_dropped (in_stats s) \<Longrightarrow> ingested push s [] s'"
  by (simp add: ingested_def)

lemma seq_map_append:
  "map (\<lambda>i. (b :: u64) + of_nat i) [0..<m + n] = map (\<lambda>i. b + of_nat i) [0..<m] @ map (\<lambda>i. b + of_nat m + of_nat i) [0..<n]"
  by (rule nth_equalityI) (auto simp: nth_append add.assoc simp flip: of_nat_add)

lemma ingested_append:
  assumes "ingested push s fs s'" and "ingested push s' gs s''"
  shows "ingested push s (fs @ gs) s''"
proof -
  let ?n = "fst (push_all push fs (in_ring s))" and ?m = "fst (push_all push gs (in_ring s'))"
  have "?n \<le> length fs" "?m \<le> length gs" by (rule push_all_le)+
  then have "length fs + length gs - (?n + ?m) = (length fs - ?n) + (length gs - ?m)" by simp
  then show ?thesis using assms by (simp add: ingested_def Let_def push_all_append seq_map_append add.assoc)
qed

lemma ingested_push_entry:
  "ingested push s [entry_frame ts ph root (in_next_frame_sequence s) e] (push_entry push ts ph root e s)"
  by (simp add: ingested_def push_entry_def push_frame_def entry_frame_def Let_def split: prod.split)

lemma push_entry_stats [simp]:
  "in_next_frame_sequence (push_entry push ts ph root e s) = in_next_frame_sequence s + 1"
  "other_stats (push_entry push ts ph root e s) = other_stats s"
  "messages_decoded_t46 (in_stats (push_entry push ts ph root e s)) = messages_decoded_t46 (in_stats s)"
  by (simp_all add: push_entry_def push_frame_def other_stats_def split: prod.split)

lemma fold_push_entry:
  "ingested push s (entry_frames ts ph root (in_next_frame_sequence s) es) (fold (push_entry push ts ph root) es s) \<and>
   other_stats (fold (push_entry push ts ph root) es s) = other_stats s \<and>
   messages_decoded_t46 (in_stats (fold (push_entry push ts ph root) es s)) = messages_decoded_t46 (in_stats s)"
proof (induction es arbitrary: s)
  case (Cons e es)
  show ?case using ingested_append [OF ingested_push_entry [of push s ts ph root e] Cons [THEN conjunct1]] Cons [of "push_entry push ts ph root e s"]
    by simp
qed (simp add: ingested_refl)

lemma entry_frames_stamp: "map mf_recv_timestamp_ns (entry_frames ts ph root sq es) = replicate (length (entry_frames ts ph root sq es)) ts"
  by (induction es arbitrary: sq) (simp_all add: entry_frame_def)

lemma ingested_marks [simp]:
  "ingested push s [] (malformed s)" "ingested push s [] (skipped s)" "ingested push s [] (decoded s)"
  by (simp_all add: ingested_def malformed_def skipped_def decoded_def)

lemma marks_simps [simp]:
  "in_next_frame_sequence (decoded s) = in_next_frame_sequence s" "other_stats (decoded s) = other_stats s"
  "messages_decoded_t46 (in_stats (decoded s)) = messages_decoded_t46 (in_stats s) + 1"
  by (simp_all add: decoded_def other_stats_def)

section \<open>Any datagram\<close>

lemma entry_loop_run:
  "27 \<le> st \<Longrightarrow> p + n * st \<le> length buf \<Longrightarrow>
   \<exists>es. length es = n \<and> entry_loop body buf \<lparr>it_ptr = p, it_stride = st\<rparr> \<lparr>it_ptr = p + n * st, it_stride = st\<rparr> s = Some (fold body es s)"
proof (induction n arbitrary: p s)
  case 0
  then show ?case by (simp add: entry_loop.simps iter_ne_def)
next
  case (Suc n)
  let ?e = "MDEntry46_of (take 27 (drop p buf))"
  obtain es where "length es = n"
    "entry_loop body buf \<lparr>it_ptr = p + st, it_stride = st\<rparr> \<lparr>it_ptr = p + st + n * st, it_stride = st\<rparr> (body ?e s) = Some (fold body es (body ?e s))"
    using Suc.IH [of "p + st" "body ?e s"] Suc.prems by auto
  then show ?case using Suc.prems
    by (intro exI [of _ "?e # es"])
       (simp add: entry_loop.simps [of body buf "\<lparr>it_ptr = p, it_stride = st\<rparr>"] iter_ne_def iter_deref_def iter_next_def rd_def sizeof_cme add.assoc)
qed

lemma view_fields:
  "new_view buf g = Some v \<Longrightarrow> view_begin v = \<lparr>it_ptr = g + 3, it_stride = wire_block_length v\<rparr> \<and>
   view_end v = \<lparr>it_ptr = g + 3 + entry_count v * wire_block_length v, it_stride = wire_block_length v\<rparr> \<and>
   byte_length v = 3 + entry_count v * wire_block_length v"
  by (auto simp: new_view_def view_begin_def view_end_def byte_length_def entry_count_def wire_block_length_def sizeof_cme)

lemma message_step_total:
  assumes "offset + 8 \<le> length buf"
  shows "message_step push buf ts ph offset s = Some (None, malformed s) \<or> message_step push buf ts ph offset s = Some (None, skipped s) \<or>
    (\<exists>off root es. message_step push buf ts ph offset s = Some (Some off, fold (push_entry push ts ph root) es (decoded s)))"
proof -
  define mh where "mh = SbeMessageHeader_of (take 8 (drop offset buf))"
  define g where "g = offset + 8 + unat (mh_block_length mh)"
  define root where "root = MDIncrementalRefreshBook46_of (take 9 (drop (offset + 8) buf))"
  have m: "rd offset 8 buf = Some (take 8 (drop offset buf))" using assms by (simp add: rd_def)
  show ?thesis
  proof (cases "g \<le> length buf \<and> mh_template_id mh = 46 \<and> 9 \<le> unat (mh_block_length mh) \<and> g + 3 \<le> length buf")
    case True
    then obtain v where v: "new_view buf g = Some v" by (auto simp: new_view_def rd_def sizeof_cme)
    have r: "rd (offset + 8) 9 buf = Some (take 9 (drop (offset + 8) buf))" using True by (simp add: rd_def g_def)
    show ?thesis
    proof (cases "27 \<le> wire_block_length v \<and> g + byte_length v \<le> length buf")
      case True
      then obtain es where "entry_loop (push_entry push ts ph root) buf (view_begin v) (view_end v) (decoded s) = Some (fold (push_entry push ts ph root) es (decoded s))"
        using entry_loop_run [of "wire_block_length v" "g + 3" "entry_count v" buf "push_entry push ts ph root" "decoded s"] view_fields [OF v] by auto
      then show ?thesis using True \<open>g \<le> length buf \<and> _\<close> v m r
        by (simp add: message_step_def Let_def sizeof_cme flip: mh_def root_def g_def) blast
    next
      case False
      then show ?thesis using \<open>g \<le> length buf \<and> _\<close> v m r
        by (auto simp: message_step_def Let_def sizeof_cme simp flip: mh_def root_def g_def)
    qed
  next
    case False
    moreover have "g \<le> length buf \<Longrightarrow> 9 \<le> unat (mh_block_length mh) \<Longrightarrow> 17 + offset \<le> length buf" by (simp add: g_def)
    ultimately show ?thesis using m by (auto simp: message_step_def Let_def sizeof_cme rd_def not_less simp flip: mh_def g_def)
  qed
qed

text \<open>The rejections of a datagram: at most one, counted once.\<close>

definition stopped_once :: "'r ingest \<Rightarrow> 'r ingest \<Rightarrow> bool" where
  "stopped_once s s' \<longleftrightarrow> other_stats s' = other_stats s \<or> other_stats s' = other_stats (malformed s) \<or> other_stats s' = other_stats (skipped s)"

lemma other_stats_cong: "other_stats a = other_stats b \<Longrightarrow> other_stats (malformed a) = other_stats (malformed b) \<and> other_stats (skipped a) = other_stats (skipped b)"
  by (simp add: other_stats_def malformed_def skipped_def)

lemma message_loop_total:
  "\<exists>s' fs. message_loop push buf ts ph offset s = Some s' \<and> ingested push s fs s' \<and> map mf_recv_timestamp_ns fs = replicate (length fs) ts \<and> stopped_once s s'"
proof (induction push buf ts ph offset s rule: message_loop.induct)
  case (1 push buf ts ph offset s)
  consider (out) "\<not> offset + 8 \<le> length buf"
    | (bad) "offset + 8 \<le> length buf" "message_step push buf ts ph offset s = Some (None, malformed s)"
    | (skip) "offset + 8 \<le> length buf" "message_step push buf ts ph offset s = Some (None, skipped s)"
    | (go) off root es where "offset + 8 \<le> length buf"
        "message_step push buf ts ph offset s = Some (Some off, fold (push_entry push ts ph root) es (decoded s))"
    using message_step_total by blast
  then show ?case
  proof cases
    case out
    then show ?thesis by (simp add: message_loop.simps [of push buf ts ph offset s] sizeof_cme stopped_once_def ingested_refl exI [of _ "[]"])
  next
    case bad
    then show ?thesis by (intro exI [of _ "malformed s"] exI [of _ "[]"]) (simp add: message_loop.simps [of push buf ts ph offset s] sizeof_cme stopped_once_def)
  next
    case skip
    then show ?thesis by (intro exI [of _ "skipped s"] exI [of _ "[]"]) (simp add: message_loop.simps [of push buf ts ph offset s] sizeof_cme stopped_once_def)
  next
    case go
    let ?d = "fold (push_entry push ts ph root) es (decoded s)" and ?fs = "entry_frames ts ph root (in_next_frame_sequence s) es"
    have i: "ingested push s ?fs ?d" "other_stats ?d = other_stats s"
      using ingested_append [OF ingested_marks(3) fold_push_entry [THEN conjunct1], of push s ts ph root es] fold_push_entry [of push "decoded s" ts ph root es] by simp_all
    obtain s' fs where r: "message_loop push buf ts ph off ?d = Some s'" "ingested push ?d fs s'" "map mf_recv_timestamp_ns fs = replicate (length fs) ts" "stopped_once ?d s'"
      using 1 [OF _ go(2) refl refl] go(1) by (auto simp: sizeof_cme)
    have "stopped_once s s'" using r(4) i(2) other_stats_cong [OF i(2)] by (simp add: stopped_once_def)
    then show ?thesis using go r ingested_append [OF i(1) r(2)]
      by (intro exI [of _ s'] exI [of _ "?fs @ fs"]) (simp add: message_loop.simps [of push buf ts ph offset s] sizeof_cme entry_frames_stamp replicate_add)
  qed
qed

lemma decode_packet_total:
  "\<exists>s' fs. decode_packet_into_ring push buf ts s = Some s' \<and> ingested push s fs s' \<and> map mf_recv_timestamp_ns fs = replicate (length fs) ts \<and> stopped_once s s'"
proof (cases "length buf < 12")
  case True
  then show ?thesis by (intro exI [of _ "malformed s"] exI [of _ "[]"]) (simp add: decode_packet_into_ring_def sizeof_cme stopped_once_def)
next
  case False
  then show ?thesis using message_loop_total by (simp add: decode_packet_into_ring_def sizeof_cme rd_def)
qed

section \<open>Well-formed datagrams\<close>

lemma length_w_bytes [simp]: "length (w_bytes n w) = n"
  by (simp add: w_bytes_def)

lemma word_at_w [simp]: "n * 8 = LENGTH('a) \<Longrightarrow> length xs = off \<Longrightarrow> word_at off n (xs @ w_bytes n w @ ys) = (w :: 'a::len word)"
  by (simp add: word_at_def le_at_def w_bytes_def le_word)

lemma rd_here: "length xs = off \<Longrightarrow> length ys = n \<Longrightarrow> rd off n (xs @ ys @ zs) = Some ys"
  by (simp add: rd_def)

lemma word_at_0 [simp]: "n * 8 = LENGTH('a) \<Longrightarrow> word_at 0 n (w_bytes n w @ ys) = (w :: 'a::len word)"
  using word_at_w [of n "[]" 0 w ys] by simp

lemma word_at_skip: "length xs \<le> off \<Longrightarrow> word_at off n (xs @ ys) = word_at (off - length xs) n ys"
  by (simp add: word_at_def le_at_def)

lemma word_at_byte: "word_at 0 1 (b # ys) = (b :: u8)"
  by (simp add: word_at_def le_at_def)

lemma word_at_skip_byte: "0 < off \<Longrightarrow> word_at off n (b # ys) = word_at (off - 1) n ys"
  by (simp add: word_at_def le_at_def drop_Cons')

lemma word_at_bytes: "v < 256 ^ n \<Longrightarrow> word_at 0 n (le_bytes n v @ ys) = of_nat v"
  by (simp add: word_at_def le_at_def le_nat_small)

lemma w_bytes_alone: "n * 8 = LENGTH('a) \<Longrightarrow> word_at 0 n (w_bytes n w) = (w :: 'a::len word)"
  using word_at_0 [of n w "[]"] by simp

lemmas word_at_eval = word_at_skip word_at_byte [simplified] word_at_skip_byte word_at_bytes w_bytes_alone

lemma sint_fits: "fits LENGTH('a) v \<Longrightarrow> sint (of_int v :: 'a::len word) = v"
  by (simp add: fits_def signed_of_int signed_take_bit_int_eq_self)

lemma PacketHeader_bytes: "PacketHeader_of (header_bytes ph) = ph"
  by (simp add: PacketHeader_of_def header_bytes_def word_at_eval)

lemma root_of_bytes: "MDIncrementalRefreshBook46_of (root_bytes r) = r"
  by (simp add: MDIncrementalRefreshBook46_of_def root_bytes_def word_at_eval)

lemma MDEntry46_bytes: "entry_wf e \<Longrightarrow> MDEntry46_of (entry_bytes e) = e"
  by (simp add: MDEntry46_of_def entry_bytes_def word_at_eval entry_wf_def sint_fits)

lemma message_header_of_bytes:
  "n < 2 ^ 16 \<Longrightarrow> SbeMessageHeader_of (le_bytes 2 n @ le_bytes 2 46 @ w_bytes 2 a @ w_bytes 2 b) =
     \<lparr>mh_block_length = of_nat n, mh_template_id = 46, mh_schema_id = a, mh_version = b\<rparr>"
  by (simp add: SbeMessageHeader_of_def word_at_eval)

lemma group_header_of_bytes:
  "n < 2 ^ 16 \<Longrightarrow> k < 2 ^ 8 \<Longrightarrow> GroupSizeEncoding_of (le_bytes 2 n @ le_bytes 1 k) = \<lparr>gs_block_length = of_nat n, gs_num_in_group = of_nat k\<rparr>"
  using word_at_bytes [of k 1 "[]"] by (simp add: GroupSizeEncoding_of_def word_at_eval)

lemma length_entry_bytes [simp]: "length (entry_bytes e) = 27" "length (root_bytes r) = 9" "length (header_bytes ph) = 12"
  by (simp_all add: entry_bytes_def root_bytes_def header_bytes_def)

lemma length_group_bytes:
  "27 \<le> st \<Longrightarrow> list_all (\<lambda>(e, x). entry_wf e \<and> length x = st - 27) es \<Longrightarrow> length (group_bytes es) = length es * st"
  by (induction es) (auto simp: group_bytes_def)

lemma entry_loop_encoded:
  "27 \<le> st \<Longrightarrow> list_all (\<lambda>(e, x). entry_wf e \<and> length x = st - 27) es \<Longrightarrow>
   entry_loop body (pre @ group_bytes es @ post) \<lparr>it_ptr = length pre, it_stride = st\<rparr> \<lparr>it_ptr = length pre + length es * st, it_stride = st\<rparr> s =
     Some (fold body (map fst es) s)"
proof (induction es arbitrary: pre s)
  case Nil
  then show ?case by (simp add: entry_loop.simps iter_ne_def)
next
  case (Cons ex es)
  obtain e x where ex: "ex = (e, x)" by (cases ex)
  define buf where "buf = pre @ group_bytes (ex # es) @ post"
  have w: "entry_wf e" "length x = st - 27" using Cons.prems ex by simp_all
  have b: "buf = pre @ entry_bytes e @ x @ group_bytes es @ post" using ex by (simp add: buf_def group_bytes_def)
  have "iter_deref buf \<lparr>it_ptr = length pre, it_stride = st\<rparr> = Some e"
    using MDEntry46_bytes [OF w(1)] by (simp add: iter_deref_def sizeof_cme b rd_here)
  moreover have "entry_loop body buf \<lparr>it_ptr = length pre + st, it_stride = st\<rparr> \<lparr>it_ptr = length pre + (st + length es * st), it_stride = st\<rparr> (body e s) =
      Some (fold body (map fst es) (body e s))"
    using Cons.IH [of "pre @ entry_bytes e @ x" "body e s"] Cons.prems w by (simp add: b add.assoc)
  ultimately show ?case using Cons.prems ex unfolding buf_def [symmetric]
    by (simp add: entry_loop.simps [of body buf "\<lparr>it_ptr = length pre, it_stride = st\<rparr>"] iter_ne_def iter_next_def)
qed

lemma length_message_bytes:
  "message_wf m \<Longrightarrow> length (message_bytes m) = 20 + length (bm_root_extra m) + length (bm_entries m) * bm_stride m"
  by (simp add: message_bytes_def message_wf_def length_group_bytes)

lemma message_step_encoded:
  assumes "message_wf m"
  shows "message_step push (pre @ message_bytes m @ post) ts ph (length pre) s =
    Some (Some (length pre + length (message_bytes m)), fold (push_entry push ts ph (bm_root m)) (map fst (bm_entries m)) (decoded s))"
proof -
  let ?x = "bm_root_extra m" and ?es = "bm_entries m" and ?st = "bm_stride m"
  let ?h = "le_bytes 2 (9 + length ?x) @ le_bytes 2 46 @ w_bytes 2 (bm_schema_id m) @ w_bytes 2 (bm_version m)"
  let ?gh = "le_bytes 2 ?st @ le_bytes 1 (length ?es)"
  define buf where "buf = pre @ message_bytes m @ post"
  have wf: "9 + length ?x < 2 ^ 16" "27 \<le> ?st" "?st < 2 ^ 16" "length ?es < 2 ^ 8" "list_all (\<lambda>(e, x). entry_wf e \<and> length x = ?st - 27) ?es"
    using assms by (simp_all add: message_wf_def)
  have b: "buf = pre @ ?h @ root_bytes (bm_root m) @ ?x @ ?gh @ group_bytes ?es @ post" by (simp add: buf_def message_bytes_def)
  define g where "g = length pre + 17 + length ?x"
  define v where "v = \<lparr>gv_dimension = \<lparr>gs_block_length = of_nat ?st, gs_num_in_group = of_nat (length ?es)\<rparr>, gv_first_entry = g + 3\<rparr>"
  have h: "rd (length pre) 8 buf = Some ?h" unfolding b by (rule rd_here) simp_all
  have "rd (length (pre @ ?h)) 9 ((pre @ ?h) @ root_bytes (bm_root m) @ ?x @ ?gh @ group_bytes ?es @ post) = Some (root_bytes (bm_root m))" by (rule rd_here) simp_all
  then have r: "rd (length pre + 8) 9 buf = Some (root_bytes (bm_root m))" unfolding b by simp
  have "rd (length (pre @ ?h @ root_bytes (bm_root m) @ ?x)) 3 ((pre @ ?h @ root_bytes (bm_root m) @ ?x) @ ?gh @ group_bytes ?es @ post) = Some ?gh" by (rule rd_here) simp_all
  then have "rd g 3 buf = Some ?gh" unfolding b g_def by (simp add: add.assoc [symmetric])
  then have nv: "new_view buf g = Some v" using group_header_of_bytes [OF wf(3,4)] by (simp add: new_view_def sizeof_cme v_def)
  have u: "unat (of_nat (9 + length ?x) :: u16) = 9 + length ?x" "unat (of_nat ?st :: u16) = ?st" "unat (of_nat (length ?es) :: u8) = length ?es"
    using wf by (simp_all add: unat_of_nat take_bit_nat_eq_self del: of_nat_add)
  have vv: "wire_block_length v = ?st" "entry_count v = length ?es" "byte_length v = 3 + length ?es * ?st"
    using u by (simp_all add: v_def wire_block_length_def entry_count_def byte_length_def sizeof_cme)
  have l: "length buf = g + 3 + length ?es * ?st + length post" using wf length_message_bytes [OF assms] by (simp add: buf_def g_def)
  define pp where "pp = pre @ ?h @ root_bytes (bm_root m) @ ?x @ ?gh"
  have p: "buf = pp @ group_bytes ?es @ post" "length pp = g + 3" by (simp_all add: b pp_def g_def)
  have e: "entry_loop (push_entry push ts ph (bm_root m)) buf (view_begin v) (view_end v) (decoded s) =
      Some (fold (push_entry push ts ph (bm_root m)) (map fst ?es) (decoded s))"
    using entry_loop_encoded [OF wf(2,5), of "push_entry push ts ph (bm_root m)" pp post "decoded s"] view_fields [OF nv] vv p by simp
  have "length pre + 8 + (9 + length ?x) = g" by (simp add: g_def)
  then have "message_step push buf ts ph (length pre) s = Some (Some (g + (3 + length ?es * ?st)), fold (push_entry push ts ph (bm_root m)) (map fst ?es) (decoded s))"
    using h r nv e vv l wf(2) u(1) message_header_of_bytes [OF wf(1), of "bm_schema_id m" "bm_version m"]
    by (simp add: message_step_def Let_def sizeof_cme root_of_bytes del: of_nat_add of_nat_Suc)
  then show ?thesis using length_message_bytes [OF assms] by (simp add: buf_def g_def)
qed

lemma message_loop_encoded:
  "list_all message_wf ms \<Longrightarrow> length tail < 8 \<Longrightarrow>
   \<exists>s'. message_loop push (pre @ concat (map message_bytes ms) @ tail) ts ph (length pre) s = Some s' \<and>
     ingested push s (packet_frames ts ph (in_next_frame_sequence s) ms) s' \<and> other_stats s' = other_stats s \<and>
     messages_decoded_t46 (in_stats s') = messages_decoded_t46 (in_stats s) + of_nat (length ms)"
proof (induction ms arbitrary: pre s)
  case Nil
  then show ?case by (simp add: message_loop.simps sizeof_cme ingested_refl)
next
  case (Cons m ms)
  define buf where "buf = pre @ concat (map message_bytes (m # ms)) @ tail"
  define d where "d = fold (push_entry push ts ph (bm_root m)) (map fst (bm_entries m)) (decoded s)"
  have i: "ingested push s (entry_frames ts ph (bm_root m) (in_next_frame_sequence s) (map fst (bm_entries m))) d" "other_stats d = other_stats s"
    "messages_decoded_t46 (in_stats d) = messages_decoded_t46 (in_stats s) + 1"
    using ingested_append [OF ingested_marks(3) fold_push_entry [THEN conjunct1], of push s ts ph "bm_root m" "map fst (bm_entries m)"]
      fold_push_entry [of push "decoded s" ts ph "bm_root m" "map fst (bm_entries m)"] by (simp_all add: d_def)
  have n: "length (entry_frames ts ph r sq es) = length es" for r sq es by (induction es arbitrary: sq) simp_all
  have q: "in_next_frame_sequence d = in_next_frame_sequence s + of_nat (length (bm_entries m))" using i(1) by (simp add: ingested_def Let_def n)
  obtain s' where r: "message_loop push buf ts ph (length pre + length (message_bytes m)) d = Some s'"
    "ingested push d (packet_frames ts ph (in_next_frame_sequence d) ms) s'" "other_stats s' = other_stats d"
    "messages_decoded_t46 (in_stats s') = messages_decoded_t46 (in_stats d) + of_nat (length ms)"
    using Cons.IH [of "pre @ message_bytes m" d] Cons.prems by (auto simp: buf_def)
  have st: "message_step push buf ts ph (length pre) s = Some (Some (length pre + length (message_bytes m)), d)"
    using message_step_encoded [of m push pre "concat (map message_bytes ms) @ tail" ts ph s] Cons.prems by (simp add: d_def buf_def)
  have "length pre + 8 \<le> length buf" using length_message_bytes [of m] Cons.prems by (simp add: buf_def)
  then show ?case unfolding buf_def [symmetric] using r st i ingested_append [OF i(1) r(2)] q
    by (intro exI [of _ s']) (simp add: message_loop.simps [of push buf ts ph "length pre" s] sizeof_cme add.assoc)
qed

section \<open>The receive loop accounts for every datagram\<close>

definition hard_error :: "sock_consts \<Rightarrow> recv_ret \<Rightarrow> bool" where
  "hard_error k r = (case r of RecvFail e \<Rightarrow> e \<noteq> sc_EWOULDBLOCK k \<and> e \<noteq> sc_EAGAIN k | RecvData bs cs \<Rightarrow> False)"

definition is_data :: "recv_ret \<Rightarrow> bool" where
  "is_data r = (case r of RecvData bs cs \<Rightarrow> True | RecvFail e \<Rightarrow> False)"

lemma stopped_once_received:
  "stopped_once s s' \<Longrightarrow> packets_received (in_stats s') = packets_received (in_stats s) \<and> receive_errors (in_stats s') = receive_errors (in_stats s)"
  by (auto simp: stopped_once_def other_stats_def malformed_def skipped_def)

lemma ingested_counts:
  "in_ring a = in_ring s \<Longrightarrow> in_next_frame_sequence a = in_next_frame_sequence s \<Longrightarrow> entries_pushed (in_stats a) = entries_pushed (in_stats s) \<Longrightarrow>
   entries_ring_full_dropped (in_stats a) = entries_ring_full_dropped (in_stats s) \<Longrightarrow> ingested push a fs s' \<Longrightarrow> ingested push s fs s'"
  using ingested_append [OF ingested_refl, of a s push fs s'] by simp

lemma ingest_turn_accounts:
  "\<exists>s' fs. ingest_turn k push ev s = Some s' \<and> ingested push s fs s' \<and>
     packets_received (in_stats s') = packets_received (in_stats s) + (if is_data (fst ev) then 1 else 0) \<and>
     receive_errors (in_stats s') = receive_errors (in_stats s) + (if hard_error k (fst ev) then 1 else 0)"
proof (cases "fst ev")
  case (RecvFail e)
  then show ?thesis
    by (auto simp: ingest_turn_def is_data_def hard_error_def intro!: exI [of _ "[]"] ingested_refl)
next
  case (RecvData bs cs)
  define a where "a = s\<lparr>in_stats := (in_stats s)\<lparr>packets_received := packets_received (in_stats s) + 1\<rparr>\<rparr>"
  define ts where "ts = snd (snd (recv_one_packet k (fst ev) (snd ev)))"
  obtain s' fs where d: "decode_packet_into_ring push bs ts a = Some s'" "ingested push a fs s'" "stopped_once a s'"
    using decode_packet_total [of push bs ts a] by blast
  have "ingested push s fs s'" by (rule ingested_counts [OF _ _ _ _ d(2)]) (simp_all add: a_def)
  then show ?thesis using d stopped_once_received [OF d(3)] RecvData
    by (intro exI [of _ s'] exI [of _ fs]) (simp add: ingest_turn_def is_data_def hard_error_def ts_def a_def)
qed

lemma ingest_turns_account:
  "\<exists>s' fs. ingest_turns k push evs s = Some s' \<and> ingested push s fs s' \<and>
     packets_received (in_stats s') = packets_received (in_stats s) + of_nat (length (filter (\<lambda>ev. is_data (fst ev)) evs)) \<and>
     receive_errors (in_stats s') = receive_errors (in_stats s) + of_nat (length (filter (\<lambda>ev. hard_error k (fst ev)) evs))"
proof (induction evs arbitrary: s)
  case (Cons ev evs)
  obtain s1 fs where a: "ingest_turn k push ev s = Some s1" "ingested push s fs s1"
    "packets_received (in_stats s1) = packets_received (in_stats s) + (if is_data (fst ev) then 1 else 0)"
    "receive_errors (in_stats s1) = receive_errors (in_stats s) + (if hard_error k (fst ev) then 1 else 0)"
    using ingest_turn_accounts by blast
  obtain s' gs where b: "ingest_turns k push evs s1 = Some s'" "ingested push s1 gs s'"
    "packets_received (in_stats s') = packets_received (in_stats s1) + of_nat (length (filter (\<lambda>ev. is_data (fst ev)) evs))"
    "receive_errors (in_stats s') = receive_errors (in_stats s1) + of_nat (length (filter (\<lambda>ev. hard_error k (fst ev)) evs))"
    using Cons by blast
  show ?case using a b ingested_append [OF a(2) b(2)] by (intro exI [of _ s'] exI [of _ "fs @ gs"]) simp
qed (simp add: ingested_refl exI [of _ "[]"])

text \<open>The loop never leaves the datagrams it receives, and counts every datagram and every hard error.\<close>

lemma run_ingest_loop_accounts:
  "\<exists>s' fs. run_ingest_loop k push evs ring stats = Some s' \<and>
     ingested push \<lparr>in_ring = ring, in_next_frame_sequence = 0, in_stats = stats\<rparr> fs s' \<and>
     packets_received (in_stats s') = packets_received stats + of_nat (length (filter (\<lambda>ev. is_data (fst ev)) evs)) \<and>
     receive_errors (in_stats s') = receive_errors stats + of_nat (length (filter (\<lambda>ev. hard_error k (fst ev)) evs))"
  using ingest_turns_account [of k push evs "\<lparr>in_ring = ring, in_next_frame_sequence = 0, in_stats = stats\<rparr>"] by (simp add: run_ingest_loop_def)

section \<open>Properties\<close>

text \<open>
  C22: whatever bytes a datagram holds, the decoder reads only inside it and returns. It offers some frames to the ring, all stamped with the
  arrival time and numbered consecutively, each counted as pushed or dropped as the ring answered, and it counts at most one
  rejection.
\<close>

theorem cme_decode_any:
  "\<exists>s' fs. decode_packet_into_ring push buf ts s = Some s' \<and> ingested push s fs s' \<and> map mf_recv_timestamp_ns fs = replicate (length fs) ts \<and> stopped_once s s'"
  by (rule decode_packet_total)

text \<open>
  C23: a datagram of any number of template 46 messages, with root blocks and entries as wide as the sender likes and fewer than eight
  bytes behind them, gives exactly one frame per entry, in order, with the values of the entry, of its message and of
  the packet. Every message is counted and nothing is rejected.
\<close>

theorem cme_decode_exact:
  assumes "list_all message_wf ms" and "length tail < 8"
  shows "\<exists>s'. decode_packet_into_ring push (packet_bytes ph ms @ tail) ts s = Some s' \<and>
    ingested push s (packet_frames ts ph (in_next_frame_sequence s) ms) s' \<and> other_stats s' = other_stats s \<and>
    messages_decoded_t46 (in_stats s') = messages_decoded_t46 (in_stats s) + of_nat (length ms)"
  using message_loop_encoded [OF assms, of push "header_bytes ph" ts ph s] rd_here [of "[]" 0 "header_bytes ph" 12]
  by (simp add: decode_packet_into_ring_def packet_bytes_def sizeof_cme PacketHeader_bytes)

section \<open>Witness\<close>

definition demo_entry :: "int \<Rightarrow> MDEntry46" where
  "demo_entry px = \<lparr>me_md_entry_px = px, me_md_entry_size = 3, me_security_id = 42, me_rpt_seq = 9, me_number_of_orders = 1,
     me_md_price_level = 1, me_md_update_action = 0, me_md_entry_type = 0x30\<rparr>"

definition demo_message :: book_message where
  "demo_message = \<lparr>bm_schema_id = 1, bm_version = 13, bm_root = \<lparr>rb_transact_time = 77, rb_match_event_indicator = 0x40\<rparr>, bm_root_extra = [0, 0],
     bm_stride = 28, bm_entries = [(demo_entry (- 5), [0]), (demo_entry 8, [0])]\<rparr>"

definition demo_push :: "MdBookUpdateFrame \<Rightarrow> MdBookUpdateFrame list \<Rightarrow> bool \<times> MdBookUpdateFrame list" where
  "demo_push f r = (if length r < 1 then (True, r @ [f]) else (False, r))"

definition demo_ingest :: "MdBookUpdateFrame list ingest" where
  "demo_ingest = \<lparr>in_ring = [], in_next_frame_sequence = 0, in_stats = \<lparr>packets_received = 1, packets_malformed = 0, receive_errors = 0,
     messages_decoded_t46 = 0, messages_skipped_other_template = 0, entries_pushed = 0, entries_ring_full_dropped = 0\<rparr>\<rparr>"

theorem cme_decode_exact_witness:
  "\<exists>s'. decode_packet_into_ring demo_push (packet_bytes \<lparr>ph_sequence_number = 6, ph_sending_time = 0\<rparr> [demo_message] @ [0]) 100 demo_ingest = Some s' \<and>
     map mf_md_entry_px (in_ring s') = [- 5] \<and> map mf_packet_sequence_number (in_ring s') = [6] \<and> entries_pushed (in_stats s') = 1 \<and>
     entries_ring_full_dropped (in_stats s') = 1 \<and> messages_decoded_t46 (in_stats s') = 1"
proof -
  have "list_all message_wf [demo_message]" by (simp add: message_wf_def demo_message_def demo_entry_def entry_wf_def fits_def)
  then show ?thesis
    using cme_decode_exact [of "[demo_message]" "[0]" demo_push "\<lparr>ph_sequence_number = 6, ph_sending_time = 0\<rparr>" 100 demo_ingest]
    by (auto simp: ingested_def Let_def demo_ingest_def demo_message_def demo_entry_def demo_push_def entry_frame_def)
qed

end
