(* ===== verification/Lifecycle.thy ===== *)
theory Lifecycle
  imports Prelude
begin

text \<open>
  Process liveness and signal handling of \<^verbatim>\<open>include/animus/shm_lifecycle.hpp\<close> in the POSIX build: the handlers, the
  RAII installer \<^verbatim>\<open>SignalGuard\<close>, and the delivery of a signal to the installed handler. A signal raised by its own
  handler is delivered when the handler returns; a delivery that never comes to an end is \<^term>\<open>None\<close>.
\<close>

section \<open>Process liveness\<close>

text \<open>\<open>kill\<close> is \<^verbatim>\<open>kill(pid, 0)\<close>: its result and errno. \<^verbatim>\<open>pid_t\<close> is a 32-bit signed integer.\<close>

definition ESRCH :: int where "ESRCH = 3"

definition current_process_id :: "int \<Rightarrow> u64" where
  "current_process_id getpid = of_int getpid"

definition is_process_alive :: "(int \<Rightarrow> int \<times> int) \<Rightarrow> u64 \<Rightarrow> bool" where
  "is_process_alive kill pid =
     (if pid = 0 then False else (case kill (sint (ucast pid :: u32)) of (rc, errno) \<Rightarrow> rc = 0 \<or> errno \<noteq> ESRCH))"

section \<open>Handlers and SignalGuard\<close>

datatype signal = SIGINT | SIGTERM | SIGSEGV | SIGABRT

text \<open>The disposition of a signal: default, ignored, one of the two handlers of this module, or a handler of the host program.\<close>

datatype sigaction = SIG_DFL | SIG_IGN | Handle_graceful | Handle_fault | Foreign nat

record sigstate =
  ss_action :: "signal \<Rightarrow> sigaction"
  g_shutdown_requested :: bool
  g_fault_detected :: bool
  g_prev_sigint :: sigaction
  g_prev_sigterm :: sigaction
  g_prev_sigsegv :: sigaction
  g_prev_sigabrt :: sigaction

definition set_action :: "signal \<Rightarrow> sigaction \<Rightarrow> sigstate \<Rightarrow> sigstate" where
  "set_action sig a s = s\<lparr>ss_action := (ss_action s)(sig := a)\<rparr>"

definition handle_graceful :: "sigstate \<Rightarrow> sigstate" where
  "handle_graceful s = s\<lparr>g_shutdown_requested := True\<rparr>"

text \<open>The body up to the final \<^verbatim>\<open>raise\<close>, which \<open>deliver\<close> performs.\<close>

definition handle_fault :: "signal \<Rightarrow> sigstate \<Rightarrow> sigstate" where
  "handle_fault sig s =
     (let s = s\<lparr>g_fault_detected := True\<rparr>;
          prev = (if sig = SIGSEGV then g_prev_sigsegv s else g_prev_sigabrt s)
      in set_action sig prev s)"

datatype delivery = Resumed | Terminated | Ran_foreign nat

partial_function (option) deliver :: "signal \<Rightarrow> sigstate \<Rightarrow> (delivery \<times> sigstate) option" where
  [code]: "deliver sig s =
     (case ss_action s sig of
        SIG_DFL \<Rightarrow> Some (Terminated, s)
      | SIG_IGN \<Rightarrow> Some (Resumed, s)
      | Handle_graceful \<Rightarrow> Some (Resumed, handle_graceful s)
      | Handle_fault \<Rightarrow> deliver sig (handle_fault sig s)
      | Foreign h \<Rightarrow> Some (Ran_foreign h, s))"

record SignalGuard =
  installed :: bool

definition new_SignalGuard :: "sigstate \<Rightarrow> SignalGuard \<times> sigstate" where
  "new_SignalGuard s =
     (let s = set_action SIGINT Handle_graceful (s\<lparr>g_prev_sigint := ss_action s SIGINT\<rparr>);
          s = set_action SIGTERM Handle_graceful (s\<lparr>g_prev_sigterm := ss_action s SIGTERM\<rparr>);
          s = set_action SIGSEGV Handle_fault (s\<lparr>g_prev_sigsegv := ss_action s SIGSEGV\<rparr>);
          s = set_action SIGABRT Handle_fault (s\<lparr>g_prev_sigabrt := ss_action s SIGABRT\<rparr>)
      in (\<lparr>installed = True\<rparr>, s\<lparr>g_shutdown_requested := False, g_fault_detected := False\<rparr>))"

definition delete_SignalGuard :: "SignalGuard \<Rightarrow> sigstate \<Rightarrow> sigstate" where
  "delete_SignalGuard g s =
     (if \<not> installed g then s
      else set_action SIGABRT (g_prev_sigabrt s) (set_action SIGSEGV (g_prev_sigsegv s)
             (set_action SIGTERM (g_prev_sigterm s) (set_action SIGINT (g_prev_sigint s) s))))"

definition shutdown_requested :: "sigstate \<Rightarrow> bool" where
  "shutdown_requested s = g_shutdown_requested s"

definition fault_detected :: "sigstate \<Rightarrow> bool" where
  "fault_detected s = g_fault_detected s"

text \<open>Signals that arrive one after the other while the program keeps running.\<close>

fun deliver_all :: "signal list \<Rightarrow> sigstate \<Rightarrow> sigstate option" where
  "deliver_all [] s = Some s"
| "deliver_all (sig # sigs) s =
     Option.bind (deliver sig s) (\<lambda>(d, s). if d = Resumed then deliver_all sigs s else None)"

section \<open>One guard\<close>

lemmas guard_defs = new_SignalGuard_def delete_SignalGuard_def set_action_def Let_def

text \<open>The guard of \<open>s0\<close> is installed: the handlers are in place and the globals remember the dispositions of \<open>s0\<close>.\<close>

definition guarded :: "sigstate \<Rightarrow> sigstate \<Rightarrow> bool" where
  "guarded s0 s \<longleftrightarrow>
     ss_action s = (ss_action s0)(SIGINT := Handle_graceful, SIGTERM := Handle_graceful, SIGSEGV := Handle_fault, SIGABRT := Handle_fault) \<and>
     g_prev_sigint s = ss_action s0 SIGINT \<and> g_prev_sigterm s = ss_action s0 SIGTERM \<and>
     g_prev_sigsegv s = ss_action s0 SIGSEGV \<and> g_prev_sigabrt s = ss_action s0 SIGABRT"

lemma guarded_new: "guarded s (snd (new_SignalGuard s)) \<and> \<not> shutdown_requested (snd (new_SignalGuard s)) \<and> \<not> fault_detected (snd (new_SignalGuard s))"
  by (simp add: guarded_def guard_defs shutdown_requested_def fault_detected_def)

lemma guarded_delete:
  assumes "guarded s0 s" and "installed g"
  shows "ss_action (delete_SignalGuard g s) = ss_action s0"
proof
  fix sig
  show "ss_action (delete_SignalGuard g s) sig = ss_action s0 sig"
    using assms by (cases sig) (simp_all add: guarded_def guard_defs)
qed

lemma guarded_graceful:
  "guarded s0 s \<Longrightarrow> sig \<in> {SIGINT, SIGTERM} \<Longrightarrow> deliver sig s = Some (Resumed, handle_graceful s) \<and> guarded s0 (handle_graceful s)"
  by (auto simp: deliver.simps guarded_def handle_graceful_def)

lemma guarded_deliver_all:
  "guarded s0 s \<Longrightarrow> set sigs \<subseteq> {SIGINT, SIGTERM} \<Longrightarrow>
   \<exists>s'. deliver_all sigs s = Some s' \<and> guarded s0 s' \<and> shutdown_requested s' = (shutdown_requested s \<or> sigs \<noteq> []) \<and> fault_detected s' = fault_detected s"
proof (induction sigs arbitrary: s)
  case (Cons sig sigs)
  then show ?case using guarded_graceful [of s0 s sig] Cons.IH [of "handle_graceful s"]
    by (auto simp: handle_graceful_def shutdown_requested_def fault_detected_def)
qed simp

lemma guarded_fault:
  assumes "guarded s0 s" and "sig \<in> {SIGSEGV, SIGABRT}" and "ss_action s0 sig = SIG_DFL"
  shows "\<exists>s'. deliver sig s = Some (Terminated, s') \<and> fault_detected s'"
  using assms by (auto simp: deliver.simps guarded_def handle_fault_def set_action_def Let_def fault_detected_def)

section \<open>Nested guards\<close>

text \<open>A state in which the remembered disposition of a fault signal is the fault handler itself.\<close>

definition self_loop :: "signal \<Rightarrow> sigstate \<Rightarrow> bool" where
  "self_loop sig s \<longleftrightarrow> ss_action s sig = Handle_fault \<and> (if sig = SIGSEGV then g_prev_sigsegv s else g_prev_sigabrt s) = Handle_fault"

lemma self_loop_handle: "self_loop sig s \<Longrightarrow> self_loop sig (handle_fault sig s)"
  by (auto simp: self_loop_def handle_fault_def set_action_def Let_def split: if_splits)

lemma self_loop_never_ends: "self_loop sig s \<Longrightarrow> deliver sig s = None"
proof (rule ccontr)
  assume l: "self_loop sig s" and "deliver sig s \<noteq> None"
  then obtain r where r: "deliver sig s = Some r" by blast
  have "\<not> self_loop sig s"
  proof (rule deliver.raw_induct [OF _ r])
    fix loop sig s r
    assume IH: "\<And>sig s r. loop sig s = Some r \<Longrightarrow> \<not> self_loop sig s"
      and e: "(case ss_action s sig of SIG_DFL \<Rightarrow> Some (Terminated, s) | SIG_IGN \<Rightarrow> Some (Resumed, s)
        | Handle_graceful \<Rightarrow> Some (Resumed, handle_graceful s) | Handle_fault \<Rightarrow> loop sig (handle_fault sig s)
        | Foreign h \<Rightarrow> Some (Ran_foreign h, s)) = Some r"
    show "\<not> self_loop sig s"
    proof
      assume "self_loop sig s"
      then have "loop sig (handle_fault sig s) = Some r" using e by (simp add: self_loop_def)
      then show False using IH self_loop_handle [OF \<open>self_loop sig s\<close>] by blast
    qed
  qed
  then show False using l by simp
qed

section \<open>Properties\<close>

text \<open>
  C33: while one guard is installed, any number of SIGINT and SIGTERM only set the shutdown flag and the program runs on; a
  SIGSEGV or SIGABRT whose former disposition was the default sets the fault flag and ends the process; destroying the
  guard gives every signal the disposition it had before.
\<close>

theorem signal_guard_contract:
  assumes "set sigs \<subseteq> {SIGINT, SIGTERM}" and "sig \<in> {SIGSEGV, SIGABRT}" and "ss_action s sig = SIG_DFL"
  shows "\<exists>s2. deliver_all sigs (snd (new_SignalGuard s)) = Some s2 \<and> shutdown_requested s2 = (sigs \<noteq> []) \<and> \<not> fault_detected s2 \<and>
    ss_action (delete_SignalGuard (fst (new_SignalGuard s)) s2) = ss_action s \<and>
    (\<exists>s3. deliver sig s2 = Some (Terminated, s3) \<and> fault_detected s3)"
proof -
  have i: "installed (fst (new_SignalGuard s))" by (simp add: guard_defs)
  obtain s2 where "deliver_all sigs (snd (new_SignalGuard s)) = Some s2" "guarded s s2" "shutdown_requested s2 = (sigs \<noteq> [])" "\<not> fault_detected s2"
    using guarded_deliver_all [OF guarded_new [THEN conjunct1] assms(1)] guarded_new [of s] by auto
  then show ?thesis using guarded_delete [OF _ i] guarded_fault [OF _ assms(2,3)] by blast
qed

text \<open>
  C39: with two guards nested the remembered dispositions are the module's own handlers. A SIGSEGV or SIGABRT is then raised again and
  again by the fault handler and the process never terminates, both while the guards live and after both are
  destroyed, when the dispositions of before are still not restored.
\<close>

theorem nested_guard_fault_loops:
  assumes "sig \<in> {SIGSEGV, SIGABRT}"
  shows "let (g1, s1) = new_SignalGuard s; (g2, s2) = new_SignalGuard s1; s3 = delete_SignalGuard g1 (delete_SignalGuard g2 s2)
    in deliver sig s2 = None \<and> deliver sig s3 = None \<and> ss_action s3 sig = Handle_fault \<and> ss_action s3 SIGINT = Handle_graceful"
proof -
  let ?s2 = "snd (new_SignalGuard (snd (new_SignalGuard s)))"
  let ?s3 = "delete_SignalGuard \<lparr>installed = True\<rparr> (delete_SignalGuard \<lparr>installed = True\<rparr> ?s2)"
  have "self_loop sig ?s2" "self_loop sig ?s3" using assms by (auto simp: self_loop_def guard_defs)
  moreover have "ss_action ?s3 sig = Handle_fault" "ss_action ?s3 SIGINT = Handle_graceful" using assms by (auto simp: guard_defs)
  moreover have "fst (new_SignalGuard t) = \<lparr>installed = True\<rparr>" for t by (simp add: guard_defs)
  ultimately show ?thesis using self_loop_never_ends [of sig ?s2] self_loop_never_ends [of sig ?s3] by (simp add: Let_def case_prod_beta)
qed

section \<open>Witnesses\<close>

definition demo_signals :: sigstate where
  "demo_signals = \<lparr>ss_action = (\<lambda>sig. SIG_DFL), g_shutdown_requested = False, g_fault_detected = False,
     g_prev_sigint = SIG_DFL, g_prev_sigterm = SIG_DFL, g_prev_sigsegv = SIG_DFL, g_prev_sigabrt = SIG_DFL\<rparr>"

theorem signal_guard_contract_witness:
  "\<exists>s2. deliver_all [SIGTERM, SIGINT] (snd (new_SignalGuard demo_signals)) = Some s2 \<and> shutdown_requested s2 \<and>
     ss_action (delete_SignalGuard (fst (new_SignalGuard demo_signals)) s2) = ss_action demo_signals \<and>
     (\<exists>s3. deliver SIGSEGV s2 = Some (Terminated, s3) \<and> fault_detected s3)"
  using signal_guard_contract [of "[SIGTERM, SIGINT]" SIGSEGV demo_signals] by (auto simp: demo_signals_def)

theorem nested_guard_fault_loops_witness:
  "deliver SIGABRT (snd (new_SignalGuard (snd (new_SignalGuard demo_signals)))) = None \<and>
   deliver SIGABRT (snd (new_SignalGuard demo_signals)) \<noteq> None"
  using nested_guard_fault_loops [of SIGABRT demo_signals] guarded_fault [OF guarded_new [THEN conjunct1], of SIGABRT demo_signals]
  by (auto simp: Let_def case_prod_beta demo_signals_def)

end
