(* ===== verification/Telemetry.thy ===== *)
theory Telemetry
  imports Shm_Layout Lifecycle
begin

text \<open>
  The out-of-process sampler \<^verbatim>\<open>AnimusGetMetrics\<close> of \<^verbatim>\<open>include/animus/telemetry.hpp\<close>. The memory of a mapped segment is reached
  through readers: the kind word of the common prefix, and the header as the i-th load of the sampler finds it. The
  producer and the consumer may be running, so loads of the same header need not agree.
\<close>

section \<open>Snapshot\<close>

record TelemetrySnapshot =
  ts_valid :: bool
  ts_ring_kind :: RingKind
  ts_capacity :: u64
  ts_schema_version_hash :: u64
  ts_payload_size :: u64
  ts_stride :: u64
  ts_wire_format :: string
  ts_current_write_head :: u64
  ts_total_pushed_events :: u64
  ts_has_dropped_count :: bool
  ts_total_overruns :: u64
  ts_dropped_events :: u64
  ts_has_consumer_lag :: bool
  ts_consumer_tail :: u64
  ts_consumer_lag :: u64
  ts_producer_pid :: u64
  ts_producer_heartbeat :: u64
  ts_producer_alive :: bool
  ts_sampled_at_epoch_ns :: u64

definition new_TelemetrySnapshot :: TelemetrySnapshot where
  "new_TelemetrySnapshot = \<lparr>ts_valid = False, ts_ring_kind = Spsc, ts_capacity = 0, ts_schema_version_hash = 0, ts_payload_size = 0, ts_stride = 0,
     ts_wire_format = replicate 81 NUL, ts_current_write_head = 0, ts_total_pushed_events = 0, ts_has_dropped_count = False, ts_total_overruns = 0,
     ts_dropped_events = 0, ts_has_consumer_lag = False, ts_consumer_tail = 0, ts_consumer_lag = 0, ts_producer_pid = 0, ts_producer_heartbeat = 0,
     ts_producer_alive = False, ts_sampled_at_epoch_ns = 0\<rparr>"

text \<open>The loop of \<^verbatim>\<open>copy_wire_format_into\<close>; \<open>src\<close> is what remains of the source buffer at index \<open>i\<close>.\<close>

fun copy_wire_format_loop :: "nat \<Rightarrow> string \<Rightarrow> nat \<Rightarrow> string \<Rightarrow> string" where
  "copy_wire_format_loop limit [] i dest = dest[i := NUL]"
| "copy_wire_format_loop limit (c # src) i dest =
     (if i < limit \<and> c \<noteq> NUL then copy_wire_format_loop limit src (i + 1) (dest[i := c]) else dest[i := NUL])"

definition copy_wire_format_into :: "string \<Rightarrow> string \<Rightarrow> nat \<Rightarrow> string" where
  "copy_wire_format_into dest src src_buf_size =
     (let limit = (if src_buf_size < 81 - 1 then src_buf_size else 81 - 1) in copy_wire_format_loop limit src 0 dest)"

section \<open>AnimusGetMetrics\<close>

record 'w segment_reader =
  sg_ring_kind :: "u64 \<Rightarrow> 'w \<Rightarrow> u64"
  sg_RingHeader :: "u64 \<Rightarrow> 'w \<Rightarrow> nat \<Rightarrow> RingHeader"
  sg_SpmcRingHeader :: "u64 \<Rightarrow> 'w \<Rightarrow> nat \<Rightarrow> SpmcRingHeader"
  sg_MpmcRingHeader :: "u64 \<Rightarrow> 'w \<Rightarrow> nat \<Rightarrow> MpmcRingHeader"

definition sample_descriptor :: "RingKind \<Rightarrow> nat \<Rightarrow> 'a wire_descriptor_scheme \<Rightarrow> TelemetrySnapshot \<Rightarrow> TelemetrySnapshot" where
  "sample_descriptor kind buf_size h out =
     out\<lparr>ts_ring_kind := kind, ts_capacity := wd_capacity h, ts_schema_version_hash := wd_schema_version_hash h, ts_payload_size := wd_payload_size h,
         ts_stride := wd_stride h, ts_wire_format := copy_wire_format_into (ts_wire_format out) (wd_wire_format h) buf_size\<rparr>"

definition lag_of :: "u64 \<Rightarrow> u64 \<Rightarrow> u64" where
  "lag_of head tail = (if tail \<le> head then head - tail else 0)"

definition sample_spsc :: "(nat \<Rightarrow> RingHeader) \<Rightarrow> TelemetrySnapshot \<Rightarrow> TelemetrySnapshot" where
  "sample_spsc h out =
     (let out = sample_descriptor Spsc ring_kWireFormatBufSize (h 0) out;
          head = rh_head (h 1); tail = rh_tail (h 2);
          out = out\<lparr>ts_current_write_head := head, ts_total_pushed_events := head, ts_has_dropped_count := True, ts_total_overruns := rh_dropped_count (h 3)\<rparr>;
          out = out\<lparr>ts_dropped_events := ts_total_overruns out\<rparr>
      in out\<lparr>ts_has_consumer_lag := True, ts_consumer_tail := tail, ts_consumer_lag := lag_of head tail,
             ts_producer_pid := rh_producer_pid (h 4), ts_producer_heartbeat := rh_producer_heartbeat (h 5)\<rparr>)"

definition sample_spmc :: "(nat \<Rightarrow> SpmcRingHeader) \<Rightarrow> TelemetrySnapshot \<Rightarrow> TelemetrySnapshot" where
  "sample_spmc h out =
     (let out = sample_descriptor SpmcBroadcast ring_kWireFormatBufSize (h 0) out; head = sh_head (h 1)
      in out\<lparr>ts_current_write_head := head, ts_total_pushed_events := head,
             ts_producer_pid := sh_producer_pid (h 2), ts_producer_heartbeat := sh_producer_heartbeat (h 3)\<rparr>)"

definition sample_mpmc :: "(nat \<Rightarrow> MpmcRingHeader) \<Rightarrow> TelemetrySnapshot \<Rightarrow> TelemetrySnapshot option" where
  "sample_mpmc h out =
     (if mh_ready (h 0) \<noteq> kReadyMagic then None
      else (let out = sample_descriptor Mpmc mpmc_kWireFormatBufSize (h 1) out; enqueued = mh_enqueue_pos (h 2); dequeued = mh_dequeue_pos (h 3)
            in Some (out\<lparr>ts_current_write_head := enqueued, ts_total_pushed_events := enqueued, ts_has_consumer_lag := True,
                         ts_consumer_tail := dequeued, ts_consumer_lag := lag_of enqueued dequeued\<rparr>)))"

text \<open>What is read of a mapped region; \<^term>\<open>None\<close> is a return of false.\<close>

definition sample_region :: "'w segment_reader \<Rightarrow> region \<Rightarrow> 'w \<Rightarrow> TelemetrySnapshot \<Rightarrow> TelemetrySnapshot option" where
  "sample_region mem r w out =
     (if rg_size r < 8 * 3 then None
      else (let kind = sg_ring_kind mem (rg_data r) w in
        if kind = ring_kind_value Spsc
        then (if rg_size r < sizeof_RingHeader then None else Some (sample_spsc (sg_RingHeader mem (rg_data r) w) out))
        else if kind = ring_kind_value SpmcBroadcast
        then (if rg_size r < sizeof_SpmcRingHeader then None else Some (sample_spmc (sg_SpmcRingHeader mem (rg_data r) w) out))
        else if kind = ring_kind_value Mpmc
        then (if rg_size r < sizeof_MpmcRingHeader then None else sample_mpmc (sg_MpmcRingHeader mem (rg_data r) w) out)
        else None))"

text \<open>
  \<open>out\<close> is \<^term>\<open>None\<close> for a null pointer. The region is closed by its destructor on every return after the attempt to open it.
\<close>

definition AnimusGetMetrics ::
  "'w posix \<Rightarrow> 'w segment_reader \<Rightarrow> (int \<Rightarrow> int \<times> int) \<Rightarrow> u64 \<Rightarrow> string option \<Rightarrow> TelemetrySnapshot option \<Rightarrow> 'w \<Rightarrow>
   (bool \<times> TelemetrySnapshot option \<times> 'w) option" where
  "AnimusGetMetrics os mem kill now_ns ring_name out w =
     (case out of
        None \<Rightarrow> Some (False, None, w)
      | Some _ \<Rightarrow>
          (let out = new_TelemetrySnapshot in
           case ring_name of
             None \<Rightarrow> Some (False, Some out, w)
           | Some name \<Rightarrow>
               Option.bind (region_open os (Some name) rg_empty False w) (\<lambda>(opened, region, w).
                 let w' = snd (region_close os region w) in
                 if \<not> opened then Some (False, Some out, w')
                 else (case sample_region mem region w out of
                         None \<Rightarrow> Some (False, Some out, w')
                       | Some out \<Rightarrow>
                           (let out = out\<lparr>ts_producer_alive := ts_producer_pid out \<noteq> 0 \<and> is_process_alive kill (ts_producer_pid out)\<rparr>
                            in Some (True, Some (out\<lparr>ts_sampled_at_epoch_ns := now_ns, ts_valid := True\<rparr>), w'))))))"

section \<open>Opening without prefault\<close>

lemma region_open_view:
  assumes laws: "posix_laws os view" and v: "view w = (N, F, M)"
  shows "\<exists>ok r w'. region_open os (Some n) rg_empty False w = Some (ok, r, w') \<and>
    (if ok then rg_data r \<noteq> 0 \<and> (rg_data r, rg_size r) \<notin> M \<and> view w' = (N, F, insert (rg_data r, rg_size r) M) else r = rg_empty \<and> view w' = (N, F, M))"
proof -
  have c: "region_close os rg_empty w = (rg_empty, w)" by (simp add: region_close_def rg_empty_def)
  obtain fd w1 where o: "px_shm_open_rw os n w = (fd, w1)" by (cases "px_shm_open_rw os n w")
  show ?thesis
  proof (cases "fd < 0")
    case True
    then show ?thesis using open_rw_law [OF laws o v] o c by (auto simp: region_open_def)
  next
    case False
    have f: "fd \<notin> F" and v1: "view w1 = (N, insert fd F, M)" using open_rw_law [OF laws o v] False by simp_all
    obtain st w2 where s: "px_fstat os fd w1 = (st, w2)" by (cases "px_fstat os fd w1")
    have v2: "view w2 = (N, insert fd F, M)" using fstat_law [OF laws, of fd w1] s v1 by simp
    have cl: "view w' = (N, insert fd F, K) \<Longrightarrow> view (px_close os fd w') = (N, F, K)" for w' K
      using close_law [OF laws, of w' N "insert fd F" K fd] f by simp
    show ?thesis
    proof (cases "\<exists>z. st = Some z \<and> 0 < z")
      case False
      then show ?thesis using \<open>\<not> fd < 0\<close> o s c cl [OF v2] by (auto simp: region_open_def split: option.split)
    next
      case True
      then obtain z where z: "st = Some z" "0 < z" by blast
      obtain a w3 where m: "map_shared os fd (of_int z) False w2 = (a, w3)" by (cases "map_shared os fd (of_int z) False w2")
      show ?thesis using map_shared_view [OF laws v2 m] \<open>\<not> fd < 0\<close> o s c z m cl
        by (cases a) (auto simp: region_open_def Let_def)
    qed
  qed
qed

lemma lag_of_bound:
  "unat (lag_of head tail) = unat head - unat tail"
  by (auto simp: lag_of_def unat_sub word_le_nat_alt)

section \<open>The wire format string\<close>

lemma copy_wire_format_loop_eq:
  assumes "i \<le> limit" and "limit < length dest" and "i + length src = limit"
  shows "copy_wire_format_loop limit src i dest = take i dest @ c_str src @ NUL # drop (i + length (c_str src) + 1) dest"
  using assms
proof (induction limit src i dest rule: copy_wire_format_loop.induct)
  case (1 limit i dest)
  then show ?case by (simp add: c_str_def upd_conv_take_nth_drop)
next
  case (2 limit c src i dest)
  then show ?case
    by (cases "c = NUL") (simp_all add: c_str_def upd_conv_take_nth_drop take_Suc_conv_app_nth add.commute)
qed

lemma copy_wire_format_into_eq:
  assumes "length src = n" and "n \<le> 80"
  shows "c_str (copy_wire_format_into (replicate 81 NUL) src n) = c_str src"
proof -
  have "(if n < 81 - 1 then n else 81 - 1) = n" using assms by simp
  then have "copy_wire_format_into (replicate 81 NUL) src n = c_str src @ NUL # drop (length (c_str src) + 1) (replicate 81 NUL)"
    using copy_wire_format_loop_eq [of 0 n "replicate 81 NUL" src] assms by (simp add: copy_wire_format_into_def)
  moreover have "\<forall>c\<in>set (c_str src). c \<noteq> NUL" by (auto simp: c_str_def dest: set_takeWhileD)
  ultimately show ?thesis by (simp add: c_str_def [of "_ @ _"] takeWhile_append2)
qed

section \<open>Properties\<close>

text \<open>
  C29: sampling is invisible and always answers. For any name, any segment contents and any failure of the operating system the call
  returns with the names, the open descriptors and the mappings as they were. A false answer leaves the caller's snapshot in its
  default state, a true one marks it valid.
\<close>

theorem telemetry_invisible:
  assumes "posix_laws os view" and "view w = (N, F, M)"
  shows "\<exists>ok out' w'. AnimusGetMetrics os mem kill now_ns ring_name (Some out) w = Some (ok, Some out', w') \<and> view w' = (N, F, M) \<and>
    (if ok then ts_valid out' \<and> ts_sampled_at_epoch_ns out' = now_ns else out' = new_TelemetrySnapshot)"
proof (cases ring_name)
  case None
  then show ?thesis using assms by (auto simp: AnimusGetMetrics_def Let_def)
next
  case (Some n)
  obtain ok r w1 where o: "region_open os (Some n) rg_empty False w = Some (ok, r, w1)"
    and e: "if ok then rg_data r \<noteq> 0 \<and> (rg_data r, rg_size r) \<notin> M \<and> view w1 = (N, F, insert (rg_data r, rg_size r) M) else r = rg_empty \<and> view w1 = (N, F, M)"
    using region_open_view [OF assms] by blast
  obtain r2 w2 where c: "region_close os r w1 = (r2, w2)" by (cases "region_close os r w1")
  have v: "view w2 = (N, F, M)"
    using e region_close_view [OF assms(1) _ c] by (cases ok) (auto simp: without_def rg_empty_def)
  show ?thesis using o c v Some
    by (cases ok; cases "sample_region mem r w1 new_TelemetrySnapshot") (auto simp: AnimusGetMetrics_def Let_def)
qed

text \<open>The snapshot of a single-producer ring that was just created repeats what \<^verbatim>\<open>create\<close> stamped.\<close>

lemma sample_new_ring:
  "sample_spsc (\<lambda>i. new_RingHeader tr c) new_TelemetrySnapshot = out \<Longrightarrow>
   ts_capacity out = c \<and> ts_schema_version_hash out = kVersionHash tr \<and> ts_payload_size out = tr_sizeof tr \<and>
   c_str (ts_wire_format out) = c_str (set_wire_format ring_kWireFormatBufSize (kWireFormat tr)) \<and> ts_total_pushed_events out = 0 \<and> ts_consumer_lag out = 0"
  using copy_wire_format_into_eq [of "set_wire_format ring_kWireFormatBufSize (kWireFormat tr)" 80] set_wire_format_eq [of 80 "kWireFormat tr"]
    length_takeWhile_le [of "\<lambda>c. c \<noteq> NUL" "kWireFormat tr"]
  by (auto simp: sample_spsc_def sample_descriptor_def new_RingHeader_def new_TelemetrySnapshot_def lag_of_def ring_kWireFormatBufSize_def Let_def c_str_def)

text \<open>
  The head is loaded before the tail, so the tail may already have passed the head that was seen. The lag is then reported as
  0; it is never above the backlog at the moment of the first load.
\<close>

lemma spsc_lag_below_backlog:
  assumes "unat (rh_tail (h 1)) \<le> unat (rh_tail (h 2))"
  shows "unat (ts_consumer_lag (sample_spsc h out)) \<le> unat (rh_head (h 1)) - unat (rh_tail (h 1))"
  using assms by (simp add: sample_spsc_def Let_def lag_of_bound)

section \<open>Witness\<close>

definition demo_segment :: "os_view segment_reader" where
  "demo_segment = \<lparr>sg_ring_kind = (\<lambda>a w. 1), sg_RingHeader = (\<lambda>a w i. new_RingHeader (Traits 64) 2),
     sg_SpmcRingHeader = (\<lambda>a w i. (new_SpmcRingHeader (Traits 64) 8)\<lparr>sh_head := 5, sh_producer_pid := 77\<rparr>),
     sg_MpmcRingHeader = (\<lambda>a w i. new_MpmcRingHeader (Traits 64) 128 4)\<rparr>"

theorem telemetry_invisible_witness:
  "\<exists>out' w'. AnimusGetMetrics demo_os demo_segment (\<lambda>pid. (0, 0)) 9 (Some ''ring'') (Some new_TelemetrySnapshot) ({''ring''}, {}, {}) = Some (True, Some out', w') \<and>
     w' = ({''ring''}, {}, {}) \<and> ts_valid out' \<and> ts_sampled_at_epoch_ns out' = 9 \<and> ts_total_pushed_events out' = 5 \<and> ts_producer_alive out'"
proof -
  obtain ok out' w' where r: "AnimusGetMetrics demo_os demo_segment (\<lambda>pid. (0, 0)) 9 (Some ''ring'') (Some new_TelemetrySnapshot) ({''ring''}, {}, {}) = Some (ok, Some out', w')"
    "w' = ({''ring''}, {}, {})" "if ok then ts_valid out' \<and> ts_sampled_at_epoch_ns out' = 9 else out' = new_TelemetrySnapshot"
    using telemetry_invisible [OF demo_os_laws, of "({''ring''}, {}, {})" "{''ring''}" "{}" "{}" demo_segment "\<lambda>pid. (0, 0)" 9 "Some ''ring''" new_TelemetrySnapshot] by auto
  have "ok \<and> ts_total_pushed_events out' = 5 \<and> ts_producer_alive out'" using r(1)
    by (auto simp: AnimusGetMetrics_def region_open_def region_close_def rg_empty_def demo_os_def map_shared_def Let_def sample_region_def
      demo_segment_def sizeof_SpmcRingHeader_def sample_spmc_def sample_descriptor_def is_process_alive_def)
  then show ?thesis using r by auto
qed

end
