(* ===== verification/C_Abi.thy ===== *)
theory C_Abi
  imports Bytes Engine Engine_Rings "HOL-Library.List_Lexorder" "HOL-Library.Multiset"
begin

text \<open>
  The process-wide part of the C interface (\<^verbatim>\<open>AnimusCore_v1/animus_engine.cpp\<close>): the engine and the single-producer ring behind the
  exported functions, the exception barrier, the licence check and the calls it gates. The licence check exists in the Windows
  build only; the files, the registry, the network adapters, the clock, SHA-256 and the signature check with the embedded key
  are parameters. A call that never returns is \<^term>\<open>None\<close>.
\<close>

section \<open>Licence files\<close>

record LicensePayload =
  lp_magic :: u32
  lp_version :: u32
  lp_issued_at_unix :: u64
  lp_expires_at_unix :: u64
  lp_max_cores :: u32
  lp_fingerprint_sha256 :: "u8 list"

definition sizeof_LicensePayload :: nat where "sizeof_LicensePayload = 64"
definition kLicenseMagic :: u32 where "kLicenseMagic = 0x434C4E41"
definition kLicenseSignatureSize :: nat where "kLicenseSignatureSize = 256"
definition kLicenseFileSize :: nat where "kLicenseFileSize = sizeof_LicensePayload + kLicenseSignatureSize"

text \<open>The struct is not packed: four bytes of padding follow the fingerprint.\<close>

definition LicensePayload_of :: "u8 list \<Rightarrow> LicensePayload" where
  "LicensePayload_of b = \<lparr>lp_magic = of_nat (le_at 0 4 b), lp_version = of_nat (le_at 4 4 b), lp_issued_at_unix = of_nat (le_at 8 8 b),
     lp_expires_at_unix = of_nat (le_at 16 8 b), lp_max_cores = of_nat (le_at 24 4 b), lp_fingerprint_sha256 = take 32 (drop 28 b)\<rparr>"

datatype LicenseStatus = Valid | Missing | Malformed | BadSignature | Expired | WrongMachine | UnsupportedPlatform

record adapter =
  ad_length :: nat
  ad_software_loopback :: bool
  ad_address :: "u8 list"

datatype adapters_ret = Adapters "adapter list" | BufferOverflow | AdaptersError

record win_env =
  we_read_file :: "string \<Rightarrow> u8 list option"
  we_machine_guid :: "u8 list option"
  we_adapters :: "nat \<Rightarrow> adapters_ret"
  we_sha256 :: "u8 list \<Rightarrow> u8 list option"
  we_verify_signature :: "u8 list \<Rightarrow> u8 list \<Rightarrow> bool"
  we_now :: u64

definition mac_candidate :: "adapter \<Rightarrow> bool" where
  "mac_candidate a =
     (if ad_length a \<noteq> 6 \<or> ad_software_loopback a then False
      else (let all_zero = list_all (\<lambda>b. b = 0) (take 6 (ad_address a))
            in \<not> (all_zero \<or> (ad_address a ! 0) AND 0x02 \<noteq> 0)))"

definition read_primary_mac :: "win_env \<Rightarrow> u8 list option" where
  "read_primary_mac env =
     (let rc = we_adapters env 0; rc = (if rc = BufferOverflow then we_adapters env 1 else rc)
      in case rc of
           Adapters as \<Rightarrow>
             (let candidates = map (\<lambda>a. take 6 (ad_address a)) (filter mac_candidate as)
              in if candidates = [] then None else Some (hd (sort candidates)))
         | _ \<Rightarrow> None)"

definition compute_machine_fingerprint :: "win_env \<Rightarrow> u8 list option" where
  "compute_machine_fingerprint env =
     Option.bind (we_machine_guid env) (\<lambda>guid. Option.bind (read_primary_mac env) (\<lambda>mac. we_sha256 env (guid @ mac)))"

definition rsa_verify :: "win_env \<Rightarrow> u8 list \<Rightarrow> u8 list \<Rightarrow> bool" where
  "rsa_verify env payload signature =
     (case we_sha256 env payload of None \<Rightarrow> False | Some hash \<Rightarrow> we_verify_signature env hash signature)"

section \<open>Process state and the exception barrier\<close>

text \<open>\<open>ab_pinned\<close> lists the cores handed to \<^verbatim>\<open>animus::sys::pin_current_thread_to_core\<close>.\<close>

record 'f abi =
  g_engine :: "(EngineImpl \<times> 'f worker) option"
  g_spsc_ring :: "TelemetryPayload SpscRingBuffer option"
  g_license_verified :: bool
  g_license_max_cores :: u32
  g_last_error :: string
  ab_pinned :: "u64 list"

definition compute_license_status :: "win_env \<Rightarrow> string option \<Rightarrow> 'f abi \<Rightarrow> LicenseStatus \<times> 'f abi" where
  "compute_license_status env license_path s =
     (case license_path of
        None \<Rightarrow> (Missing, s)
      | Some path \<Rightarrow>
          (case we_read_file env path of
             None \<Rightarrow> (Missing, s)
           | Some bytes \<Rightarrow>
               if length bytes \<noteq> kLicenseFileSize then (Malformed, s)
               else (let payload = LicensePayload_of (take sizeof_LicensePayload bytes) in
                 if lp_magic payload \<noteq> kLicenseMagic then (Malformed, s)
                 else if \<not> rsa_verify env (take sizeof_LicensePayload bytes) (take kLicenseSignatureSize (drop sizeof_LicensePayload bytes)) then (BadSignature, s)
                 else if lp_expires_at_unix payload \<noteq> 0 \<and> lp_expires_at_unix payload < we_now env then (Expired, s)
                 else (case compute_machine_fingerprint env of
                         None \<Rightarrow> (UnsupportedPlatform, s)
                       | Some my_fingerprint \<Rightarrow>
                           if my_fingerprint \<noteq> lp_fingerprint_sha256 payload then (WrongMachine, s)
                           else (Valid, s\<lparr>g_license_max_cores := lp_max_cores payload, g_license_verified := True\<rparr>)))))"

text \<open>An exception is \<^term>\<open>Inl\<close> of its message, thrown before the call changed anything.\<close>

definition abi_guard :: "'r \<Rightarrow> ('f abi \<Rightarrow> (string + 'r \<times> 'f abi) option) \<Rightarrow> 'f abi \<Rightarrow> ('r \<times> 'f abi) option" where
  "abi_guard fallback func s =
     map_option (\<lambda>r. case r of Inl what \<Rightarrow> (fallback, s\<lparr>g_last_error := what\<rparr>) | Inr r \<Rightarrow> r) (func s)"

section \<open>Exported functions\<close>

text \<open>
  \<open>thrown\<close> is the message of an exception raised by the allocation, if it fails. Functions whose callees do not throw are written without the
  barrier, and so is \<^verbatim>\<open>animus_start_logging\<close>, whose thread is assumed to start.
\<close>

definition animus_init :: "string option \<Rightarrow> 'f worker \<Rightarrow> u64 \<Rightarrow> 'f abi \<Rightarrow> (bool \<times> 'f abi) option" where
  "animus_init thrown idle buffer_capacity =
     abi_guard False (\<lambda>s.
       if g_engine s \<noteq> None then Some (Inr (True, s))
       else (case thrown of
               Some what \<Rightarrow> Some (Inl what)
             | None \<Rightarrow> map_option (\<lambda>e. Inr (True, s\<lparr>g_engine := Some (e, idle)\<rparr>)) (Engine_Create buffer_capacity)))"

definition animus_record_event :: "u64 \<Rightarrow> u32 \<Rightarrow> u32 \<Rightarrow> u64 \<Rightarrow> 'f abi \<Rightarrow> (bool \<times> 'f abi) option" where
  "animus_record_event cycles event_id trace_id v s =
     (case g_engine s of
        None \<Rightarrow> Some (False, s)
      | Some (e, k) \<Rightarrow> map_option (\<lambda>(ok, e). (ok, s\<lparr>g_engine := Some (e, k)\<rparr>)) (engine_record cycles event_id trace_id v e))"

definition animus_record_events_batch :: "(u64 \<times> RawEvent) list option \<Rightarrow> 'f abi \<Rightarrow> (nat \<times> 'f abi) option" where
  "animus_record_events_batch events s =
     (case g_engine s of
        None \<Rightarrow> Some (0, s)
      | Some (e, k) \<Rightarrow>
          if events = None then Some (0, s)
          else map_option (\<lambda>(n, e). (n, s\<lparr>g_engine := Some (e, k)\<rparr>)) (engine_record_batch events e))"

definition animus_start_logging :: "bool \<Rightarrow> string option \<Rightarrow> 'f abi \<Rightarrow> 'f abi" where
  "animus_start_logging opened filepath s =
     (case (g_engine s, filepath) of
        (Some ek, Some path) \<Rightarrow> s\<lparr>g_engine := Some (start_persistence opened path ek)\<rparr>
      | _ \<Rightarrow> s)"

definition animus_stop_logging :: "'f abi \<Rightarrow> 'f abi" where
  "animus_stop_logging s = (case g_engine s of None \<Rightarrow> s | Some (e, k) \<Rightarrow> s\<lparr>g_engine := Some (stop_persistence e, k)\<rparr>)"

definition animus_add_rule :: "bool \<Rightarrow> u32 \<Rightarrow> u32 \<Rightarrow> u64 \<Rightarrow> u8 \<Rightarrow> u32 \<Rightarrow> 'f abi \<Rightarrow> bool \<times> 'f abi" where
  "animus_add_rule alloc rule_id event_id threshold comparator severity s =
     (case g_engine s of
        None \<Rightarrow> (False, s)
      | Some (e, k) \<Rightarrow> (case engine_add_rule alloc rule_id event_id threshold comparator severity e of (ok, e) \<Rightarrow> (ok, s\<lparr>g_engine := Some (e, k)\<rparr>)))"

definition animus_add_cep_rule :: "bool \<Rightarrow> u32 \<Rightarrow> u32 \<Rightarrow> u8 \<Rightarrow> u64 \<Rightarrow> u8 \<Rightarrow> u8 \<Rightarrow> u64 \<Rightarrow> u32 \<Rightarrow> 'f abi \<Rightarrow> bool \<times> 'f abi" where
  "animus_add_cep_rule alloc rule_id event_id window_type window_size aggregation comparator threshold severity s =
     (case g_engine s of
        None \<Rightarrow> (False, s)
      | Some (e, k) \<Rightarrow>
          (case engine_add_cep_rule alloc rule_id event_id window_type window_size aggregation comparator threshold severity e of
             (ok, e) \<Rightarrow> (ok, s\<lparr>g_engine := Some (e, k)\<rparr>)))"

definition animus_poll_signals :: "bool \<Rightarrow> nat \<Rightarrow> 'f abi \<Rightarrow> (ThreatSignal list \<times> 'f abi) option" where
  "animus_poll_signals null_out max_count s =
     (case g_engine s of
        None \<Rightarrow> Some ([], s)
      | Some (e, k) \<Rightarrow>
          if null_out then Some ([], s)
          else map_option (\<lambda>(out, e). (out, s\<lparr>g_engine := Some (e, k)\<rparr>)) (engine_poll_signals null_out max_count e))"

definition animus_spsc_init :: "string option \<Rightarrow> u64 \<Rightarrow> 'f abi \<Rightarrow> (bool \<times> 'f abi) option" where
  "animus_spsc_init thrown capacity =
     abi_guard False (\<lambda>s.
       if \<not> g_license_verified s then Some (Inr (False, s))
       else if g_spsc_ring s \<noteq> None then Some (Inr (True, s))
       else (case thrown of
               Some what \<Rightarrow> Some (Inl what)
             | None \<Rightarrow> map_option (\<lambda>r. Inr (True, s\<lparr>g_spsc_ring := Some r\<rparr>)) (SpscRingBuffer_new zero_payload capacity)))"

definition animus_spsc_record_events_batch :: "(u64 \<times> RawEvent) list option \<Rightarrow> 'f abi \<Rightarrow> nat \<times> 'f abi" where
  "animus_spsc_record_events_batch events s =
     (case (g_spsc_ring s, events) of
        (Some ring, Some evs) \<Rightarrow> (case push_batch SpscRingBuffer_push (map payload_of evs) ring of (n, ring) \<Rightarrow> (n, s\<lparr>g_spsc_ring := Some ring\<rparr>))
      | _ \<Rightarrow> (0, s))"

definition animus_spsc_drain :: "bool \<Rightarrow> nat \<Rightarrow> 'f abi \<Rightarrow> TelemetryPayload list \<times> 'f abi" where
  "animus_spsc_drain null_out max_count s =
     (case g_spsc_ring s of
        None \<Rightarrow> ([], s)
      | Some ring \<Rightarrow>
          if null_out then ([], s)
          else (case pop_batch SpscRingBuffer_pop max_count ring of (out, ring) \<Rightarrow> (out, s\<lparr>g_spsc_ring := Some ring\<rparr>)))"

text \<open>\<open>pin\<close> is the platform's answer for a core; both pinning calls share the gate.\<close>

definition animus_pin_current_thread_to_core :: "(u64 \<Rightarrow> bool) \<Rightarrow> int \<Rightarrow> 'f abi \<Rightarrow> bool \<times> 'f abi" where
  "animus_pin_current_thread_to_core pin core_id s =
     (if core_id < 0 then (False, s)
      else if \<not> g_license_verified s then (False, s)
      else if g_license_max_cores s \<le> of_int core_id then (False, s)
      else (pin (of_int core_id), s\<lparr>ab_pinned := ab_pinned s @ [of_int core_id]\<rparr>))"

definition animus_pin_current_thread_to_core_exclusive :: "(u64 \<Rightarrow> bool) \<Rightarrow> int \<Rightarrow> 'f abi \<Rightarrow> bool \<times> 'f abi" where
  "animus_pin_current_thread_to_core_exclusive pin core_id s =
     (if core_id < 0 then (False, s)
      else if \<not> g_license_verified s then (False, s)
      else if g_license_max_cores s \<le> of_int core_id then (False, s)
      else (pin (of_int core_id), s\<lparr>ab_pinned := ab_pinned s @ [of_int core_id]\<rparr>))"

definition animus_get_cpu_count :: "u32 \<Rightarrow> u32" where
  "animus_get_cpu_count hardware_concurrency = (if 0 < hardware_concurrency then hardware_concurrency else 1)"

definition animus_verify_license :: "bool \<Rightarrow> win_env \<Rightarrow> string option \<Rightarrow> 'f abi \<Rightarrow> bool \<times> 'f abi" where
  "animus_verify_license win32 env license_path s =
     (if win32 then (case compute_license_status env license_path s of (st, s) \<Rightarrow> (st = Valid, s)) else (False, s))"

definition animus_check_license_status :: "bool \<Rightarrow> win_env \<Rightarrow> string option \<Rightarrow> 'f abi \<Rightarrow> LicenseStatus \<times> 'f abi" where
  "animus_check_license_status win32 env license_path s =
     (if win32 then compute_license_status env license_path s else (UnsupportedPlatform, s))"

definition animus_is_licensed :: "'f abi \<Rightarrow> bool" where
  "animus_is_licensed s = g_license_verified s"

definition animus_licensed_max_cores :: "'f abi \<Rightarrow> u32" where
  "animus_licensed_max_cores s = (if g_license_verified s then g_license_max_cores s else 0)"

section \<open>Call sequences\<close>

datatype 'f abi_call =
    CInit "string option" "'f worker" u64
  | CRecord u64 u32 u32 u64
  | CSpscInit "string option" u64
  | CSpscRecord "(u64 \<times> RawEvent) list option"
  | CSpscDrain bool nat
  | CPin "u64 \<Rightarrow> bool" int
  | CPinExclusive "u64 \<Rightarrow> bool" int
  | CVerify win_env "string option"
  | CCheck win_env "string option"

datatype abi_answer = ABool bool | ACount nat | APayloads "TelemetryPayload list" | AStatus LicenseStatus

fun abi_exec :: "bool \<Rightarrow> 'f abi_call \<Rightarrow> 'f abi \<Rightarrow> (abi_answer \<times> 'f abi) option" where
  "abi_exec win32 (CInit thrown idle c) s = map_option (map_prod ABool id) (animus_init thrown idle c s)"
| "abi_exec win32 (CRecord cycles i t v) s = map_option (map_prod ABool id) (animus_record_event cycles i t v s)"
| "abi_exec win32 (CSpscInit thrown c) s = map_option (map_prod ABool id) (animus_spsc_init thrown c s)"
| "abi_exec win32 (CSpscRecord evs) s = Some (map_prod ACount id (animus_spsc_record_events_batch evs s))"
| "abi_exec win32 (CSpscDrain null_out n) s = Some (map_prod APayloads id (animus_spsc_drain null_out n s))"
| "abi_exec win32 (CPin pin c) s = Some (map_prod ABool id (animus_pin_current_thread_to_core pin c s))"
| "abi_exec win32 (CPinExclusive pin c) s = Some (map_prod ABool id (animus_pin_current_thread_to_core_exclusive pin c s))"
| "abi_exec win32 (CVerify env path) s = Some (map_prod ABool id (animus_verify_license win32 env path s))"
| "abi_exec win32 (CCheck env path) s = Some (map_prod AStatus id (animus_check_license_status win32 env path s))"

fun abi_run :: "bool \<Rightarrow> 'f abi_call list \<Rightarrow> 'f abi \<Rightarrow> (abi_answer list \<times> 'f abi) option" where
  "abi_run win32 [] s = Some ([], s)"
| "abi_run win32 (c # cs) s =
     Option.bind (abi_exec win32 c s) (\<lambda>(r, s). map_option (\<lambda>(rs, s). (r # rs, s)) (abi_run win32 cs s))"

section \<open>Lemmas\<close>

text \<open>The chosen MAC address does not depend on the order in which the adapters are listed.\<close>

lemma primary_mac_order:
  assumes "we_adapters env 0 = Adapters as" and "we_adapters env' 0 = Adapters bs" and "mset as = mset bs"
  shows "read_primary_mac env = read_primary_mac env'"
proof -
  define ca cb where "ca = map (\<lambda>a. take 6 (ad_address a)) (filter mac_candidate as)" and "cb = map (\<lambda>a. take 6 (ad_address a)) (filter mac_candidate bs)"
  have m: "mset ca = mset cb" using assms(3) by (simp add: ca_def cb_def)
  then have "sort cb = sort ca" by (intro properties_for_sort) simp_all
  moreover have "ca = [] \<longleftrightarrow> cb = []" using m mset_zero_iff [of ca] mset_zero_iff [of cb] by simp
  ultimately show ?thesis using assms(1,2) by (simp add: read_primary_mac_def Let_def flip: ca_def cb_def)
qed

text \<open>Without an entitlement: no licence was verified, the ring does not exist, and these cores were pinned.\<close>

definition unlicensed :: "u64 list \<Rightarrow> 'f abi \<Rightarrow> bool" where
  "unlicensed cores s \<longleftrightarrow> \<not> g_license_verified s \<and> g_spsc_ring s = None \<and> ab_pinned s = cores"

lemma license_status_unlicensed:
  "unlicensed cores s \<Longrightarrow> compute_license_status env path s = (st, s') \<Longrightarrow> st \<noteq> Valid \<Longrightarrow> unlicensed cores s'"
  by (auto simp: compute_license_status_def Let_def split: option.splits if_splits)

lemma abi_exec_unlicensed:
  assumes "unlicensed cores s" and "abi_exec win32 c s = Some (r, s')"
    and "r \<noteq> AStatus Valid" and "(\<exists>env path. c = CVerify env path) \<longrightarrow> r = ABool False"
  shows "unlicensed cores s' \<and> (case c of CSpscInit thrown n \<Rightarrow> r = ABool False | CPin pin core \<Rightarrow> r = ABool False | CPinExclusive pin core \<Rightarrow> r = ABool False
    | CSpscRecord evs \<Rightarrow> r = ACount 0 | CSpscDrain z n \<Rightarrow> r = APayloads [] | _ \<Rightarrow> True)"
proof (cases c)
  case (CVerify env path)
  obtain st t where "compute_license_status env path s = (st, t)" by (cases "compute_license_status env path s")
  then show ?thesis using assms CVerify license_status_unlicensed [OF assms(1)]
    by (auto simp: animus_verify_license_def split: if_splits)
next
  case (CCheck env path)
  obtain st t where "compute_license_status env path s = (st, t)" by (cases "compute_license_status env path s")
  then show ?thesis using assms CCheck license_status_unlicensed [OF assms(1)]
    by (auto simp: animus_check_license_status_def split: if_splits)
qed (use assms in \<open>auto simp: unlicensed_def animus_init_def animus_record_event_def animus_spsc_init_def abi_guard_def animus_spsc_record_events_batch_def
    animus_spsc_drain_def animus_pin_current_thread_to_core_def animus_pin_current_thread_to_core_exclusive_def split: if_splits option.splits prod.splits\<close>)

text \<open>No call of the sequence found a valid licence.\<close>

fun never_valid :: "'f abi_call list \<Rightarrow> abi_answer list \<Rightarrow> bool" where
  "never_valid (CVerify env path # cs) (r # rs) = (r = ABool False \<and> never_valid cs rs)"
| "never_valid (c # cs) (r # rs) = (r \<noteq> AStatus Valid \<and> never_valid cs rs)"
| "never_valid _ _ = True"

text \<open>Every gated call of the sequence was refused.\<close>

fun gated_refused :: "'f abi_call list \<Rightarrow> abi_answer list \<Rightarrow> bool" where
  "gated_refused (CSpscInit thrown n # cs) (r # rs) = (r = ABool False \<and> gated_refused cs rs)"
| "gated_refused (CPin pin core # cs) (r # rs) = (r = ABool False \<and> gated_refused cs rs)"
| "gated_refused (CPinExclusive pin core # cs) (r # rs) = (r = ABool False \<and> gated_refused cs rs)"
| "gated_refused (CSpscRecord evs # cs) (r # rs) = (r = ACount 0 \<and> gated_refused cs rs)"
| "gated_refused (CSpscDrain z n # cs) (r # rs) = (r = APayloads [] \<and> gated_refused cs rs)"
| "gated_refused (c # cs) (r # rs) = gated_refused cs rs"
| "gated_refused _ _ = True"

lemma never_valid_Cons: "never_valid (c # cs) (r # rs) \<Longrightarrow>
  never_valid cs rs \<and> r \<noteq> AStatus Valid \<and> ((\<exists>env path. c = CVerify env path) \<longrightarrow> r = ABool False)"
  by (cases c) auto

lemma gated_refused_Cons:
  "gated_refused cs rs \<Longrightarrow> (case c of CSpscInit thrown n \<Rightarrow> r = ABool False | CPin pin core \<Rightarrow> r = ABool False | CPinExclusive pin core \<Rightarrow> r = ABool False
    | CSpscRecord evs \<Rightarrow> r = ACount 0 | CSpscDrain z n \<Rightarrow> r = APayloads [] | _ \<Rightarrow> True) \<Longrightarrow> gated_refused (c # cs) (r # rs)"
  by (cases c) auto

lemma abi_run_unlicensed:
  "unlicensed cores s \<Longrightarrow> abi_run win32 cs s = Some (rs, s') \<Longrightarrow> never_valid cs rs \<Longrightarrow> unlicensed cores s' \<and> gated_refused cs rs"
proof (induction cs arbitrary: s rs)
  case (Cons c cs)
  obtain r s1 rs1 where e: "abi_exec win32 c s = Some (r, s1)" "abi_run win32 cs s1 = Some (rs1, s')" "rs = r # rs1"
    using Cons.prems(2) by (auto simp: bind_eq_Some_conv)
  have n: "never_valid cs rs1" "r \<noteq> AStatus Valid" "(\<exists>env path. c = CVerify env path) \<longrightarrow> r = ABool False"
    using never_valid_Cons Cons.prems(3) e(3) by auto
  note x = abi_exec_unlicensed [OF Cons.prems(1) e(1) n(2,3)]
  show ?case using Cons.IH [OF x [THEN conjunct1] e(2) n(1)] gated_refused_Cons [OF _ x [THEN conjunct2]] e(3) by auto
qed auto

section \<open>Properties\<close>

text \<open>
  C21: a licence is valid exactly when the file can be read, has the size and the magic of a licence, carries a signature of its payload
  that verifies, has not expired, and names the fingerprint of this machine. The entitlement changes exactly on that
  outcome, to the core count of the payload.
\<close>

theorem license_status_exact:
  "case compute_license_status env license_path s of (st, s') \<Rightarrow>
     (st = Valid) = (\<exists>path bytes. license_path = Some path \<and> we_read_file env path = Some bytes \<and> length bytes = 320 \<and>
        (let p = LicensePayload_of (take 64 bytes) in
         lp_magic p = kLicenseMagic \<and> rsa_verify env (take 64 bytes) (drop 64 bytes) \<and>
         (lp_expires_at_unix p = 0 \<or> we_now env \<le> lp_expires_at_unix p) \<and> compute_machine_fingerprint env = Some (lp_fingerprint_sha256 p) \<and>
         s' = s\<lparr>g_license_max_cores := lp_max_cores p, g_license_verified := True\<rparr>)) \<and>
     (st = Valid \<or> s' = s)"
proof (cases "\<exists>path bytes. license_path = Some path \<and> we_read_file env path = Some bytes \<and> length bytes = 320")
  case False
  then have "compute_license_status env license_path s = (Missing, s) \<or> compute_license_status env license_path s = (Malformed, s)"
    by (auto simp: compute_license_status_def kLicenseFileSize_def sizeof_LicensePayload_def kLicenseSignatureSize_def split: option.splits)
  then show ?thesis using False by auto
next
  case True
  then obtain path bytes where b: "license_path = Some path" "we_read_file env path = Some bytes" "length bytes = 320" by blast
  define p where "p = LicensePayload_of (take 64 bytes)"
  define ok where "ok = rsa_verify env (take 64 bytes) (drop 64 bytes)"
  have c: "compute_license_status env license_path s =
      (if lp_magic p \<noteq> kLicenseMagic then (Malformed, s) else if \<not> ok then (BadSignature, s)
       else if lp_expires_at_unix p \<noteq> 0 \<and> lp_expires_at_unix p < we_now env then (Expired, s)
       else (case compute_machine_fingerprint env of None \<Rightarrow> (UnsupportedPlatform, s)
             | Some f \<Rightarrow> if f \<noteq> lp_fingerprint_sha256 p then (WrongMachine, s)
                 else (Valid, s\<lparr>g_license_max_cores := lp_max_cores p, g_license_verified := True\<rparr>)))"
    using b by (simp add: compute_license_status_def kLicenseFileSize_def sizeof_LicensePayload_def kLicenseSignatureSize_def Let_def flip: p_def ok_def)
  show ?thesis unfolding c using b
    by (cases "compute_machine_fingerprint env") (auto simp: Let_def not_less simp flip: p_def ok_def)
qed


section \<open>Witness\<close>

definition demo_env :: win_env where
  "demo_env = \<lparr>we_read_file = (\<lambda>p. Some [1, 2, 3]), we_machine_guid = None, we_adapters = (\<lambda>i. AdaptersError), we_sha256 = (\<lambda>b. None),
     we_verify_signature = (\<lambda>h s. False), we_now = 0\<rparr>"

definition demo_abi :: "unit abi" where
  "demo_abi = \<lparr>g_engine = None, g_spsc_ring = None, g_license_verified = False, g_license_max_cores = 0, g_last_error = [], ab_pinned = []\<rparr>"


end
