(* ===== verification/Shm_Handles.thy ===== *)
theory Shm_Handles
  imports Broadcast_Ring Spsc_Queue Shm_Region
begin

text \<open>
  The shared-memory ring handles of the C interface (\<^verbatim>\<open>AnimusCore_v1/animus_engine.cpp\<close>): a named mapping together with the ring in it,
  created, opened and closed through the operating system, and the calls that push and poll through a handle. A handle is
  \<^term>\<open>None\<close> for the null pointer. \<^verbatim>\<open>Ring::init\<close> and \<^verbatim>\<open>Ring::attach\<close> are parameters of the two templates, instantiated below by those of
  the broadcast ring and of the order queue.
\<close>

section \<open>Creating and opening\<close>

record 'r ShmRingHandle =
  hd_region :: region
  hd_ring :: 'r

partial_function (option) create_capacity :: "u64 \<Rightarrow> u64 \<Rightarrow> u64 \<Rightarrow> u64 option option" where
  [code]: "create_capacity max_capacity requested_capacity capacity =
     (if capacity < requested_capacity
      then (if max_capacity div 2 < capacity then Some None else create_capacity max_capacity requested_capacity (push_bit 1 capacity))
      else Some (Some capacity))"

definition shm_ring_create ::
  "'w posix \<Rightarrow> (u64 \<Rightarrow> u64) \<Rightarrow> (u64 \<Rightarrow> u64 \<Rightarrow> u64 \<Rightarrow> 'w \<Rightarrow> 'r option \<times> 'w) \<Rightarrow> u64 \<Rightarrow> string option \<Rightarrow> u64 \<Rightarrow> 'w \<Rightarrow>
   ('r ShmRingHandle option \<times> 'w) option" where
  "shm_ring_create os required_bytes init sizeof_T name requested_capacity w =
     (if name = None then Some (None, w)
      else (let max_capacity = (- 1 - required_bytes 0) div sizeof_T in
        Option.bind (create_capacity max_capacity requested_capacity 2) (\<lambda>capacity.
          case capacity of
            None \<Rightarrow> Some (None, w)
          | Some capacity \<Rightarrow>
              Option.bind (region_create os name (required_bytes capacity) rg_empty True w) (\<lambda>(created, region, w).
                if \<not> created then Some (None, w)
                else (case init (rg_data region) (rg_size region) capacity w of
                        (None, w) \<Rightarrow> Some (None, snd (region_close os region (snd (region_unlink os name w))))
                      | (Some ring, w) \<Rightarrow> Some (Some \<lparr>hd_region = region, hd_ring = ring\<rparr>, w))))))"

definition shm_ring_open ::
  "'w posix \<Rightarrow> (u64 \<Rightarrow> u64 \<Rightarrow> 'w \<Rightarrow> 'r option) \<Rightarrow> string option \<Rightarrow> 'w \<Rightarrow> ('r ShmRingHandle option \<times> 'w) option" where
  "shm_ring_open os attach name w =
     (if name = None then Some (None, w)
      else Option.bind (region_open os name rg_empty True w) (\<lambda>(opened, region, w).
        if \<not> opened then Some (None, w)
        else (case attach (rg_data region) (rg_size region) w of
                None \<Rightarrow> Some (None, snd (region_close os region w))
              | Some ring \<Rightarrow> Some (Some \<lparr>hd_region = region, hd_ring = ring\<rparr>, w))))"

definition shm_ring_close :: "'w posix \<Rightarrow> 'r ShmRingHandle option \<Rightarrow> 'w \<Rightarrow> 'w" where
  "shm_ring_close os ring w = (case ring of None \<Rightarrow> w | Some h \<Rightarrow> snd (region_close os (hd_region h) w))"

definition sizeof_RawEvent :: u64 where "sizeof_RawEvent = 16"
definition sizeof_OrderRequest :: u64 where "sizeof_OrderRequest = 32"

text \<open>
  The memory of a segment: a reader of the slots or the header at an address and a writer of a ring there. The units of an event
  are left open.
\<close>

definition animus_shm_ring_create ::
  "'w posix \<Rightarrow> (u64 \<Rightarrow> 'w \<Rightarrow> 'b list list) \<Rightarrow> (u64 \<Rightarrow> 'b br_mem \<Rightarrow> 'w \<Rightarrow> 'w) \<Rightarrow> string option \<Rightarrow> u64 \<Rightarrow> 'w \<Rightarrow> (br_view ShmRingHandle option \<times> 'w) option" where
  "animus_shm_ring_create os slots_at store =
     shm_ring_create os (br_required_bytes sizeof_RawEvent)
       (\<lambda>data sz capacity w. case br_init sizeof_RawEvent data sz capacity (slots_at data w) of
          None \<Rightarrow> (None, w) | Some (m, v) \<Rightarrow> (Some v, store data m w)) sizeof_RawEvent"

definition animus_shm_ring_open :: "'w posix \<Rightarrow> (u64 \<Rightarrow> 'w \<Rightarrow> 'b br_mem) \<Rightarrow> string option \<Rightarrow> 'w \<Rightarrow> (br_view ShmRingHandle option \<times> 'w) option" where
  "animus_shm_ring_open os ring_at = shm_ring_open os (\<lambda>data sz w. br_attach sizeof_RawEvent data sz (ring_at data w))"

definition animus_shm_ring_order_create ::
  "'w posix \<Rightarrow> (u64 \<Rightarrow> 'w \<Rightarrow> 'a list) \<Rightarrow> (u64 \<Rightarrow> 'a spsc_mem \<Rightarrow> 'w \<Rightarrow> 'w) \<Rightarrow> string option \<Rightarrow> u64 \<Rightarrow> 'w \<Rightarrow> (spsc_view ShmRingHandle option \<times> 'w) option" where
  "animus_shm_ring_order_create os slots_at store =
     shm_ring_create os (spsc_required_bytes sizeof_OrderRequest)
       (\<lambda>data sz capacity w. case spsc_init sizeof_OrderRequest data sz capacity (slots_at data w) of
          None \<Rightarrow> (None, w) | Some (m, v) \<Rightarrow> (Some v, store data m w)) sizeof_OrderRequest"

definition animus_shm_ring_order_open :: "'w posix \<Rightarrow> (u64 \<Rightarrow> 'w \<Rightarrow> 'a spsc_mem) \<Rightarrow> string option \<Rightarrow> 'w \<Rightarrow> (spsc_view ShmRingHandle option \<times> 'w) option" where
  "animus_shm_ring_order_open os ring_at = shm_ring_open os (\<lambda>data sz w. spsc_attach sizeof_OrderRequest data sz (ring_at data w))"

definition animus_shm_ring_unlink :: "'w posix \<Rightarrow> string option \<Rightarrow> 'w \<Rightarrow> bool \<times> 'w" where
  "animus_shm_ring_unlink os name w = (if name = None then (False, w) else region_unlink os name w)"

section \<open>Pushing and polling through a handle\<close>

definition kMaxPollAttempts :: nat where "kMaxPollAttempts = 4"

text \<open>
  \<open>s\<close> holds the reader's view and whatever the writer changes between two polls; \<open>caught_up\<close> is \<^verbatim>\<open>read_cursor() >= writer_cursor()\<close>.
\<close>

fun broadcast_poll_loop :: "('s \<Rightarrow> 'a list \<times> 's) \<Rightarrow> ('s \<Rightarrow> bool) \<Rightarrow> nat \<Rightarrow> 's \<Rightarrow> 'a list \<times> 's" where
  "broadcast_poll_loop poll caught_up 0 s = ([], s)"
| "broadcast_poll_loop poll caught_up (Suc attempts) s =
     (case poll s of (got, s) \<Rightarrow>
        if got = [] \<and> caught_up s then ([], s)
        else if got \<noteq> [] then (got, s) else broadcast_poll_loop poll caught_up attempts s)"

definition broadcast_poll :: "(u64 \<Rightarrow> 's \<Rightarrow> 'a list \<times> 's) \<Rightarrow> ('s \<Rightarrow> bool) \<Rightarrow> u64 \<Rightarrow> 's \<Rightarrow> 'a list \<times> 's" where
  "broadcast_poll poll caught_up max_count s =
     (if max_count = 0 then ([], s) else broadcast_poll_loop (poll max_count) caught_up kMaxPollAttempts s)"

text \<open>A writer that publishes the batches \<open>ws\<close>, one before each poll, beside the reader's view.\<close>

type_synonym 'b br_reading = "'b list list list \<times> 'b br_mem \<times> br_view"

definition br_poll_next :: "u64 \<Rightarrow> 'b br_reading \<Rightarrow> 'b list list \<times> 'b br_reading" where
  "br_poll_next max_count = (\<lambda>(ws, m, v).
     let m = (case ws of [] \<Rightarrow> m | w # _ \<Rightarrow> fold br_publish w m)
     in case br_poll m max_count v of (out, v) \<Rightarrow> (out, (tl ws, m, v)))"

definition br_caught_up :: "'b br_reading \<Rightarrow> bool" where
  "br_caught_up = (\<lambda>(ws, m, v). br_cursor m \<le> br_read v)"

definition animus_shm_ring_pop_batch :: "bool \<Rightarrow> u64 \<Rightarrow> 'b br_reading option \<Rightarrow> 'b list list \<times> 'b br_reading option" where
  "animus_shm_ring_pop_batch null_out max_count ring =
     (case ring of
        None \<Rightarrow> ([], None)
      | Some s \<Rightarrow> if null_out then ([], Some s) else (case broadcast_poll br_poll_next br_caught_up max_count s of (out, s) \<Rightarrow> (out, Some s)))"

definition animus_shm_ring_try_pop :: "bool \<Rightarrow> 'b br_reading option \<Rightarrow> 'b list option \<times> 'b br_reading option" where
  "animus_shm_ring_try_pop null_out ring =
     (case ring of
        None \<Rightarrow> (None, None)
      | Some s \<Rightarrow> if null_out then (None, Some s)
                   else (case broadcast_poll br_poll_next br_caught_up 1 s of (out, s) \<Rightarrow> ((if length out = 1 then Some (hd out) else None), Some s)))"

definition animus_shm_ring_push_batch :: "'b list list option \<Rightarrow> 'b br_mem option \<Rightarrow> nat \<times> 'b br_mem option" where
  "animus_shm_ring_push_batch events ring =
     (case (ring, events) of (Some m, Some es) \<Rightarrow> (length es, Some (fold br_publish es m)) | _ \<Rightarrow> (0, ring))"

definition animus_shm_ring_try_push :: "'b list option \<Rightarrow> 'b br_mem option \<Rightarrow> bool \<times> 'b br_mem option" where
  "animus_shm_ring_try_push event ring =
     (case (ring, event) of (Some m, Some e) \<Rightarrow> (True, Some (br_publish e m)) | _ \<Rightarrow> (False, ring))"

definition animus_shm_ring_order_try_push :: "'a option \<Rightarrow> 'a spsc_state option \<Rightarrow> bool \<times> 'a spsc_state option" where
  "animus_shm_ring_order_try_push order ring =
     (case (ring, order) of (Some s, Some x) \<Rightarrow> (case spsc_push_op x s of (ok, s) \<Rightarrow> (ok, Some s)) | _ \<Rightarrow> (False, ring))"

definition animus_shm_ring_order_try_pop :: "bool \<Rightarrow> 'a spsc_state option \<Rightarrow> 'a option \<times> 'a spsc_state option" where
  "animus_shm_ring_order_try_pop null_out ring =
     (case ring of None \<Rightarrow> (None, None)
      | Some s \<Rightarrow> if null_out then (None, Some s) else (case spsc_pop_op s of (r, s) \<Rightarrow> (r, Some s)))"

definition animus_shm_ring_order_push_batch :: "'a list option \<Rightarrow> 'a spsc_state option \<Rightarrow> nat \<times> 'a spsc_state option" where
  "animus_shm_ring_order_push_batch orders ring =
     (case (ring, orders) of (Some s, Some xs) \<Rightarrow> (case push_batch spsc_push_op xs s of (n, s) \<Rightarrow> (n, Some s)) | _ \<Rightarrow> (0, ring))"

definition animus_shm_ring_order_pop_batch :: "bool \<Rightarrow> nat \<Rightarrow> 'a spsc_state option \<Rightarrow> 'a list \<times> 'a spsc_state option" where
  "animus_shm_ring_order_pop_batch null_out max_count ring =
     (case ring of None \<Rightarrow> ([], None)
      | Some s \<Rightarrow> if null_out then ([], Some s) else (case pop_batch spsc_pop_op max_count s of (xs, s) \<Rightarrow> (xs, Some s)))"

section \<open>The capacity loop\<close>

lemma push_bit_pow2: "push_bit 1 ((2 :: u64) ^ j) = 2 ^ Suc j"
  by (simp add: push_bit_eq_mult)

lemma create_capacity_run:
  assumes "j < 64" and "(2 :: u64) ^ j \<le> mx"
  shows "\<exists>r. create_capacity mx req (2 ^ j) = Some r \<and>
    (case r of None \<Rightarrow> unat mx div 2 < unat req
     | Some c \<Rightarrow> \<exists>k<64. c = 2 ^ k \<and> req \<le> c \<and> c \<le> mx \<and> (k = j \<or> unat c < 2 * unat req))"
  using assms
proof (induction "64 - j" arbitrary: j rule: less_induct)
  case less
  have u: "unat ((2 :: u64) ^ j) = 2 ^ j" by (rule unat_pow2 [OF less.prems(1)])
  show ?case
  proof (cases "2 ^ j < req")
    case False
    then show ?thesis using less.prems by (subst create_capacity.simps) (auto simp: not_less)
  next
    case req: True
    then have ru: "2 ^ j < unat req" by (simp only: word_less_nat_alt u)
    show ?thesis
    proof (cases "mx div 2 < 2 ^ j")
      case True
      then have "unat mx div 2 < 2 ^ j" by (simp only: word_less_nat_alt u unat_div) simp
      then show ?thesis using True req ru by (subst create_capacity.simps) simp
    next
      case False
      then have d: "2 ^ j \<le> unat mx div 2" by (simp only: not_less word_le_nat_alt u unat_div) simp
      then have m: "2 ^ Suc j \<le> unat mx" by simp
      have "2 ^ Suc j < (2 :: nat) ^ 64" using m unat_u64_less [of mx] by linarith
      then have j: "Suc j < 64" by (simp only: power_strict_increasing_iff)
      have "(2 :: u64) ^ Suc j \<le> mx" using m by (simp only: word_le_nat_alt unat_pow2 [OF j])
      moreover have "64 - Suc j < 64 - j" using j by simp
      ultimately obtain r where r: "create_capacity mx req (2 ^ Suc j) = Some r"
        "case r of None \<Rightarrow> unat mx div 2 < unat req | Some c \<Rightarrow> \<exists>k<64. c = 2 ^ k \<and> req \<le> c \<and> c \<le> mx \<and> (k = Suc j \<or> unat c < 2 * unat req)"
        using less.hyps [OF _ j] by blast
      have e: "create_capacity mx req (2 ^ j) = Some r" using r(1) req False by (subst create_capacity.simps) (simp only: push_bit_pow2 if_True if_False)
      have "unat ((2 :: u64) ^ Suc j) < 2 * unat req" using ru unat_pow2 [OF j] by simp
      then show ?thesis using e r(2) by (cases r) auto
    qed
  qed
qed

lemma required_bytes_exact:
  assumes "0 < unat sz" and "c \<le> (- 1 - hdr) div sz"
  shows "unat (hdr + c * sz :: u64) = unat hdr + unat c * unat sz"
proof -
  have "unat (- 1 :: u64) = 2 ^ 64 - 1" by (simp add: unsigned_minus_1_eq_mask mask_eq_exp_minus_1)
  then have m: "unat (- 1 - hdr) = 2 ^ 64 - 1 - unat hdr" using unat_u64_less [of hdr] by (subst unat_sub64) simp_all
  have "unat c \<le> (2 ^ 64 - 1 - unat hdr) div unat sz" using assms(2) by (simp only: word_le_nat_alt unat_div m)
  then have "unat c * unat sz \<le> 2 ^ 64 - 1 - unat hdr" by (meson div_times_less_eq_dividend le_trans mult_le_mono1)
  then have b: "unat hdr + unat c * unat sz < 2 ^ 64" using unat_u64_less [of hdr] by linarith
  show ?thesis using unat_of_nat64 [OF b] by simp
qed

section \<open>Creating is all or nothing\<close>

lemma shm_ring_create_view:
  assumes laws: "posix_laws os view" and v: "view w = (N, F, M)" and quiet: "\<And>d s c w. view (snd (init d s c w)) = view w"
    and sz: "0 < unat sz" and two: "2 \<le> (- 1 - hdr) div sz" and req: "required_bytes = (\<lambda>c. hdr + c * sz)"
    and cr: "shm_ring_create os required_bytes init sz (Some n) requested w = Some (h, w')"
  shows "case h of None \<Rightarrow> view w' = (N, F, M)
    | Some h \<Rightarrow> \<exists>k<64. requested \<le> 2 ^ k \<and> unat (rg_size (hd_region h)) = unat hdr + 2 ^ k * unat sz \<and> n \<notin> N \<and>
        view w' = (insert n N, F, insert (rg_data (hd_region h), rg_size (hd_region h)) M)"
proof -
  define mx where "mx = (- 1 - hdr) div sz"
  have p: "(2 :: u64) ^ 1 \<le> mx" using two by (simp add: mx_def)
  obtain r where r: "create_capacity mx requested (2 ^ 1) = Some r" "r = None \<or> (\<exists>k<64. r = Some (2 ^ k) \<and> requested \<le> 2 ^ k \<and> 2 ^ k \<le> mx)"
    using create_capacity_run [OF _ p, of requested] by (fastforce split: option.splits)
  have r1: "create_capacity mx requested 2 = Some r" using r(1) by simp
  have mq: "(- 1 - required_bytes 0) div sz = mx" by (simp add: req mx_def)
  show ?thesis
  proof (cases r)
    case None
    then show ?thesis using cr v r1 mq by (simp add: shm_ring_create_def Let_def)
  next
    case (Some c)
    then obtain k where k: "k < 64" "c = 2 ^ k" "requested \<le> 2 ^ k" "c \<le> mx" using r(2) by auto
    obtain ok rg w1 where rc: "region_create os (Some n) (required_bytes c) rg_empty True w = Some (ok, rg, w1)"
      using cr r1 mq Some by (auto simp: shm_ring_create_def Let_def bind_eq_Some_conv)
    note e = region_create_view [OF laws v rc]
    have M: "without rg_empty M = M" by (simp add: without_def rg_empty_def)
    obtain ri w2 where i: "init (rg_data rg) (rg_size rg) c w1 = (ri, w2)" by (cases "init (rg_data rg) (rg_size rg) c w1")
    have v2: "view w2 = view w1" using quiet [of "rg_data rg" "rg_size rg" c w1] i by simp
    have size: "unat (required_bytes c) = unat hdr + 2 ^ k * unat sz"
      using required_bytes_exact [OF sz, of c hdr] k unat_pow2 [OF k(1)] by (simp add: req mx_def)
    obtain b w3 where ul: "region_unlink os (Some n) w2 = (b, w3)" by (cases "region_unlink os (Some n) w2")
    obtain rg4 w4 where cl: "region_close os rg w3 = (rg4, w4)" by (cases "region_close os rg w3")
    show ?thesis
    proof (cases "ok \<and> ri = None")
      case False
      then show ?thesis using cr r1 mq Some rc i e v2 M size k by (cases ok; cases ri) (auto simp: shm_ring_create_def Let_def)
    next
      case True
      obtain rc' where "px_shm_unlink os n w2 = (rc', w3)" using ul by (auto simp: region_unlink_def split: prod.splits)
      then have v3: "view w3 = (N, F, insert (rg_data rg, rg_size rg) M)"
        using unlink_law [OF laws, of n w2 rc' w3] e v2 True M by auto
      have "(rg_data rg, rg_size rg) \<notin> M" using e True M by simp
      then have "view w4 = (N, F, M)" using region_close_view [OF laws v3 cl] e True by (auto simp: without_def)
      then show ?thesis using cr r1 mq Some rc i True ul cl by (simp add: shm_ring_create_def Let_def)
    qed
  qed
qed

section \<open>Polling\<close>

lemma broadcast_poll_result:
  "broadcast_poll_loop poll caught_up n s = (out, s') \<Longrightarrow> out = [] \<Longrightarrow> caught_up s' \<or> (\<exists>t. n = 0 \<or> poll t = ([], s'))"
proof (induction n arbitrary: s)
  case (Suc n)
  obtain got s1 where p: "poll s = (got, s1)" by (cases "poll s")
  then show ?case using Suc by (cases n) (auto split: if_splits)
qed auto

text \<open>
  With no writer in between, one poll decides: the call returns what \<^verbatim>\<open>poll\<close> returns, and nothing only when the reader has
  caught up.
\<close>

lemma broadcast_poll_alone:
  assumes "0 < k" and "k < 64" and "br_capacity m = 2 ^ k" and "br_mask m = 2 ^ k - 1"
    and "unat (br_dropped v) \<le> unat (br_read v)" and "unat (br_read v) \<le> unat (br_cursor m)" and "max_count \<noteq> 0"
  shows "broadcast_poll br_poll_next br_caught_up max_count ([], m, v) = (case br_poll m max_count v of (out, v') \<Rightarrow> (out, ([], m, v')))"
proof -
  obtain out v' where p: "br_poll m max_count v = (out, v')" by (cases "br_poll m max_count v")
  define R where "R = max (unat (br_read v)) (unat (br_cursor m) - (2 ^ k - 1))"
  define n where "n = min (unat (br_cursor m) - R) (unat max_count)"
  have r: "out = ring_contents (2 ^ k) (br_slots m) R (R + n)" "unat (br_read v') = R + n"
    using br_poll_alone [OF assms(1-6) p] by (simp_all add: R_def n_def Let_def)
  have "unat max_count \<noteq> 0" using assms(7) by (simp add: unat_eq_zero)
  then have "out = [] \<Longrightarrow> br_cursor m \<le> br_read v'"
    using r assms(6) by (auto simp: n_def R_def word_le_nat_alt ring_contents_def min_def split: if_splits)
  then show ?thesis using assms(7) p
    by (auto simp: broadcast_poll_def kMaxPollAttempts_def eval_nat_numeral br_poll_next_def br_caught_up_def)
qed

text \<open>Orders pushed and popped in batches through a handle: nothing is lost or reordered, and a full queue shortens the batch.\<close>

lemma order_batches_fifo:
  assumes "spsc_invar s" and "animus_shm_ring_order_push_batch (Some xs) (Some s) = (n, Some s1)"
    and "animus_shm_ring_order_pop_batch False m (Some s1) = (ys, Some s2)"
  shows "n = min (length xs) (spsc_cap s - length (spsc_contents s)) \<and> ys @ spsc_contents s2 = spsc_contents s @ take n xs"
  using spsc.batch_fifo [OF assms(1), of xs n s1 m ys s2] assms(2,3)
  by (auto simp: animus_shm_ring_order_push_batch_def animus_shm_ring_order_pop_batch_def split: prod.splits)

section \<open>Properties\<close>

text \<open>
  C34: the capacity loop of the C interface ends for every request. It refuses only a request above half the largest capacity whose byte
  size fits; otherwise the capacity is the least power of two that is at least 2 and at least the request, and
  its byte size does not wrap.
\<close>

theorem create_capacity_terminates:
  assumes "0 < unat sz" and "2 \<le> (- 1 - hdr) div sz"
  shows "\<exists>r. create_capacity ((- 1 - hdr) div sz) req 2 = Some r \<and>
    (case r of None \<Rightarrow> unat ((- 1 - hdr) div sz) div 2 < unat req
     | Some c \<Rightarrow> (\<exists>k<64. c = 2 ^ k) \<and> req \<le> c \<and> (c = 2 \<or> unat c < 2 * unat req) \<and> unat (hdr + c * sz) = unat hdr + unat c * unat sz)"
proof -
  obtain r where r: "create_capacity ((- 1 - hdr) div sz) req (2 ^ 1) = Some r"
    "case r of None \<Rightarrow> unat ((- 1 - hdr) div sz) div 2 < unat req
     | Some c \<Rightarrow> \<exists>k<64. c = 2 ^ k \<and> req \<le> c \<and> c \<le> (- 1 - hdr) div sz \<and> (k = 1 \<or> unat c < 2 * unat req)"
    using create_capacity_run [of 1 "(- 1 - hdr) div sz" req] assms(2) by auto
  then show ?thesis using required_bytes_exact [OF assms(1), of _ hdr] by (cases r) auto
qed

text \<open>
  C28: creating a ring handle is all or nothing. A handle owns a mapping of a new name whose size holds the header and a power of two
  of slots, at least as many as requested; the null pointer leaves names, descriptors and mappings as they were, also when the ring
  could not be initialised in a mapping already made.
\<close>

theorem shm_handle_create:
  assumes "posix_laws os view" and "view w = (N, F, M)" and "\<And>d s c w. view (snd (init d s c w)) = view w"
    and "0 < unat sz" and "2 \<le> (- 1 - hdr) div sz" and "required_bytes = (\<lambda>c. hdr + c * sz)"
    and "shm_ring_create os required_bytes init sz (Some n) requested w = Some (h, w')"
  shows "case h of None \<Rightarrow> view w' = (N, F, M)
    | Some h \<Rightarrow> \<exists>k<64. requested \<le> 2 ^ k \<and> unat (rg_size (hd_region h)) = unat hdr + 2 ^ k * unat sz \<and> n \<notin> N \<and>
        view w' = (insert n N, F, insert (rg_data (hd_region h), rg_size (hd_region h)) M)"
  by (rule shm_ring_create_view [OF assms])

section \<open>Witnesses\<close>

theorem create_capacity_terminates_witness:
  "create_capacity ((- 1 - 128) div 32) 5 2 = Some (Some 8)"
proof -
  obtain r where r: "create_capacity ((- 1 - 128) div 32) 5 2 = Some r"
    "case r of None \<Rightarrow> unat ((- 1 - 128 :: u64) div 32) div 2 < unat (5 :: u64)
     | Some c \<Rightarrow> (\<exists>k<64. c = 2 ^ k) \<and> 5 \<le> c \<and> (c = 2 \<or> unat c < 2 * unat (5 :: u64)) \<and> unat (128 + c * 32) = unat (128 :: u64) + unat c * unat (32 :: u64)"
    using create_capacity_terminates [of 32 128 5] by auto
  moreover have "create_capacity ((- 1 - 128) div 32) 5 2 = Some (Some 8)" by code_simp
  ultimately show ?thesis by simp
qed

theorem shm_handle_create_witness:
  "\<exists>h w'. animus_shm_ring_order_create demo_os (\<lambda>a w. replicate 4 (0 :: nat)) (\<lambda>a m w. w) (Some ''orders'') 3 ({}, {}, {}) = Some (Some h, w') \<and>
     rg_size (hd_region h) = sizeof_SpscQueueHeader + 4 * 32 \<and> w' = ({''orders''}, {}, {(rg_data (hd_region h), rg_size (hd_region h))})"
proof -
  let ?init = "\<lambda>data sz capacity w. case spsc_init sizeof_OrderRequest data sz capacity (replicate 4 (0 :: nat)) of
      None \<Rightarrow> (None, w :: os_view) | Some (m, v) \<Rightarrow> (Some v, w)"
  have cc: "create_capacity ((- 1 - (sizeof_SpscQueueHeader + 0 * 32)) div 32) 3 2 = Some (Some 4)" by code_simp
  obtain h w' where c: "shm_ring_create demo_os (spsc_required_bytes sizeof_OrderRequest) ?init sizeof_OrderRequest (Some ''orders'') 3 ({}, {}, {}) = Some (Some h, w')"
    and s: "rg_size (hd_region h) = sizeof_SpscQueueHeader + 4 * 32"
    using cc by (auto simp: shm_ring_create_def Let_def spsc_required_bytes_def sizeof_OrderRequest_def region_create_def region_close_def rg_empty_def demo_os_def
      reserve_backing_def fallocate_loop.simps map_shared_def prefault_pages_def EINTR_def spsc_init_def is_pow2_def aligned_def sizeof_SpscQueueHeader_def
      ANIMUS_CACHE_LINE_SIZE_def)
  have q: "(\<lambda>w. w) (snd (?init d z c w)) = (\<lambda>w. w) w" for d z c w by (simp split: option.split)
  have l: "0 < unat sizeof_OrderRequest" "2 \<le> (- 1 - sizeof_SpscQueueHeader) div sizeof_OrderRequest" by code_simp+
  have r: "spsc_required_bytes sizeof_OrderRequest = (\<lambda>c. sizeof_SpscQueueHeader + c * sizeof_OrderRequest)" by (rule ext) (rule spsc_required_bytes_def)
  have "w' = ({''orders''}, {}, {(rg_data (hd_region h), rg_size (hd_region h))})"
    using shm_handle_create [OF demo_os_laws refl q l r c] by auto
  then show ?thesis using c s by (auto simp: animus_shm_ring_order_create_def split: option.splits cong: option.case_cong)
qed

end
